(* ===== verification/IanPrelude.thy ===== *)
theory IanPrelude
  imports Main "HOL-Library.Word"
begin

text \<open>
  Shared vocabulary of the IAN development: machine integers and bytes, the little-endian
  wire order of 32-bit lengths, sums as results that may fail, and the collections of
  rewrite and introduction rules that the component theories extend.
\<close>

section \<open>Machine integers and bytes\<close>

type_synonym byte = "8 word"
type_synonym u32 = "32 word"
type_synonym u64 = "64 word"

named_theorems result_simps \<open>evaluation of results that may fail\<close>
named_theorems queue_simps \<open>behaviour of the message queue on well-formed queues\<close>
named_theorems conn_defs \<open>definitions of the connection handlers\<close>
named_theorems sim_intros \<open>simulation rules between parser states\<close>
named_theorems fuel_intros \<open>parser computations that settle with enough fuel\<close>
named_theorems track_intros \<open>parser computations that keep track of the position\<close>

section \<open>Little-endian order of a 32-bit value\<close>

text \<open>The four bytes of a 32-bit value, least significant byte first.\<close>

definition le_bytes :: "u32 \<Rightarrow> byte list" where
  "le_bytes w = [ucast w, ucast (drop_bit 8 w), ucast (drop_bit 16 w), ucast (drop_bit 24 w)]"

text \<open>The value of (at most) four bytes, least significant byte first.\<close>

fun le_value :: "byte list \<Rightarrow> nat" where
  "le_value [] = 0"
| "le_value (b # bs) = unat b + 256 * le_value bs"

lemma length_le_bytes [simp]: "length (le_bytes w) = 4"
  by (simp add: le_bytes_def)

lemma unat_ucast_drop_byte:
  "unat (ucast (drop_bit n (w :: u32)) :: byte) = unat w div 2 ^ n mod 256"
proof -
  have "unat (ucast (drop_bit n w) :: byte) = take_bit 8 (drop_bit n (unat w))"
    by (simp add: unsigned_ucast_eq unat_drop_bit_eq)
  then show ?thesis
    by (simp add: drop_bit_eq_div take_bit_eq_mod)
qed

lemma horner256:
  fixes m :: nat
  assumes "m = 256 * x + r0" and "x = 256 * y + r1" and "y = 256 * z + r2"
  shows "r0 + 256 * (r1 + 256 * (r2 + 256 * z)) = m"
  using assms by simp

lemma digits256:
  fixes m :: nat
  assumes "m < 4294967296"
  shows "m mod 256 + 256 * (m div 256 mod 256 + 256 * (m div 65536 mod 256
           + 256 * (m div 16777216 mod 256))) = m"
proof -
  have top: "m div 16777216 mod 256 = m div 16777216"
    using assms by simp
  have c: "m div 65536 = 256 * (m div 16777216) + m div 65536 mod 256"
    using mult_div_mod_eq [of 256 "m div 65536"] by (simp add: div_mult2_eq [symmetric])
  have b: "m div 256 = 256 * (m div 65536) + m div 256 mod 256"
    using mult_div_mod_eq [of 256 "m div 256"] by (simp add: div_mult2_eq [symmetric])
  have a: "m = 256 * (m div 256) + m mod 256"
    by simp
  show ?thesis
    unfolding top by (rule horner256 [OF a b c])
qed

lemma le_value_le_bytes [simp]: "le_value (le_bytes w) = unat w"
proof -
  have "unat w < 4294967296"
    using unsigned_less [of w] by simp
  moreover have "unat (ucast w :: byte) = unat w mod 256"
    using unat_ucast_drop_byte [of 0 w] by simp
  ultimately show ?thesis
    using digits256 [of "unat w"]
    by (simp add: le_bytes_def unat_ucast_drop_byte)
qed

lemma le_bytes_inject: "le_bytes v = le_bytes w \<longleftrightarrow> v = w"
  by (metis le_value_le_bytes unsigned_word_eqI)

lemma unat_of_nat_small:
  "n < 2 ^ LENGTH('a) \<Longrightarrow> unat (of_nat n :: 'a::len word) = n"
  by (simp add: unsigned_of_nat take_bit_nat_eq_self)

lemma unat_pos: "w \<noteq> 0 \<Longrightarrow> 0 < unat (w :: 'a::len word)"
  by (simp add: unat_gt_0)

section \<open>Results that may fail\<close>

text \<open>
  A computation that may fail is a sum: \<open>Inl\<close> carries the failure, \<open>Inr\<close> the value.
  Sequencing stops at the first failure, as an exception or an abnormal end of the
  program does.
\<close>

definition ebind :: "'e + 'a \<Rightarrow> ('a \<Rightarrow> 'e + 'b) \<Rightarrow> 'e + 'b" where
  "ebind m f = (case m of Inl e \<Rightarrow> Inl e | Inr a \<Rightarrow> f a)"

lemma ebind_Inl [simp, result_simps]: "ebind (Inl e) f = Inl e"
  by (simp add: ebind_def)

lemma ebind_Inr [simp, result_simps]: "ebind (Inr a) f = f a"
  by (simp add: ebind_def)

lemma ebind_eq_Inr:
  "ebind m f = Inr b \<longleftrightarrow> (\<exists>a. m = Inr a \<and> f a = Inr b)"
  by (cases m) auto

lemma ebind_assoc: "ebind (ebind m f) g = ebind m (\<lambda>x. ebind (f x) g)"
  by (cases m) auto

text \<open>A loop that does the same with every element and stops at the first failure.\<close>

primrec emap :: "('a \<Rightarrow> 'e + 'b) \<Rightarrow> 'a list \<Rightarrow> 'e + 'b list" where
  "emap f [] = Inr []"
| "emap f (x # xs) = ebind (f x) (\<lambda>y. ebind (emap f xs) (\<lambda>ys. Inr (y # ys)))"

lemma emap_eq_Inr: "emap f xs = Inr ys \<longleftrightarrow> list_all2 (\<lambda>x y. f x = Inr y) xs ys"
  by (induction xs arbitrary: ys) (auto simp: ebind_eq_Inr list_all2_Cons1)

lemma emap_defined: "(\<exists>ys. emap f xs = Inr ys) \<longleftrightarrow> (\<forall>x \<in> set xs. \<exists>y. f x = Inr y)"
  by (induction xs) (auto simp: ebind_eq_Inr)

lemma list_all2_defined: "list_all2 (\<lambda>x y. f x = Inr y) xs ys \<Longrightarrow> list_all (\<lambda>x. \<exists>y. f x = Inr y) xs"
  by (induction rule: list_all2_induct) auto

lemma emap_Inr [simp]: "emap (\<lambda>x. Inr (f x)) xs = Inr (map f xs)"
  by (induction xs) simp_all

section \<open>Invariants of step relations\<close>

text \<open>A predicate that every step keeps; it then holds in every state reached from one where it holds.\<close>

locale preserved =
  fixes step :: "'s \<Rightarrow> 's \<Rightarrow> bool" and inv :: "'s \<Rightarrow> bool"
  assumes step_inv: "step s s' \<Longrightarrow> inv s \<Longrightarrow> inv s'"
begin

lemma steps_inv:
  assumes "step\<^sup>*\<^sup>* s s'" and "inv s"
  shows "inv s'"
  using assms by (induction rule: rtranclp_induct) (auto intro: step_inv)

end

section \<open>Lists\<close>

lemma apfst_append_Nil [simp]: "apfst ((@) []) x = x"
  by (cases x) simp

lemma apfst_append_Cons [simp]: "apfst ((@) (a # as)) x = apfst ((#) a) (apfst ((@) as) x)"
  by (cases x) simp

lemma remove1_length_less: "x \<in> set xs \<Longrightarrow> length (remove1 x xs) < length xs"
  by (induction xs) (auto split: if_splits)

lemma filter_remove1_other: "\<not> P x \<Longrightarrow> filter P (remove1 x xs) = filter P xs"
  by (induction xs) auto

lemma filter_remove1_same: "P x \<Longrightarrow> filter P (remove1 x xs) = remove1 x (filter P xs)"
  by (induction xs) auto

lemma length_filter_update:
  assumes "i < length xs"
  shows "length (filter P (xs[i := x])) + (if P (xs ! i) then 1 else 0)
    = length (filter P xs) + (if P x then 1 else 0)"
  using assms
proof (induction xs arbitrary: i)
  case (Cons y ys)
  show ?case
  proof (cases i)
    case (Suc j)
    then show ?thesis
      using Cons.IH [of j] Cons.prems by simp
  qed simp
qed simp

end
