(* ===== verification/MessageQueue.thy ===== *)
theory MessageQueue
  imports IanPrelude
begin

text \<open>
  Messages and the outbound message queue (\<^verbatim>\<open>server/common/include/common/Message.hpp\<close>,
  \<^verbatim>\<open>server/common/src/Message.cpp\<close>, \<^verbatim>\<open>MessageQueue.hpp\<close>, \<^verbatim>\<open>MessageQueue.cpp\<close>).
  A \<open>Message\<close> is a possibly null pointer to an immutable payload, so sharing is not
  observable and the pointer is an option; asking a null message for its size or its data
  dereferences the null pointer, which is the failure \<open>NullDereference\<close>. The queue pushes
  at the front of a list and pops at its back. The locale \<open>fifo_queue\<close> is the interface the
  connections rely on.
\<close>

section \<open>Messages\<close>

datatype crash = NullDereference

datatype message_impl = MessageImplVector (buffer: "byte list")

record message =
  impl :: "message_impl option"

definition Message :: message where
  "Message = \<lparr>impl = None\<rparr>"

definition is_empty :: "message \<Rightarrow> bool" where
  "is_empty m \<longleftrightarrow> impl m = None"

definition message_data :: "message \<Rightarrow> crash + byte list" where
  "message_data m = (case impl m of None \<Rightarrow> Inl NullDereference | Some i \<Rightarrow> Inr (buffer i))"

definition message_size :: "message \<Rightarrow> crash + u64" where
  "message_size m =
     (case impl m of None \<Rightarrow> Inl NullDereference | Some i \<Rightarrow> Inr (of_nat (length (buffer i))))"

definition from_vector :: "byte list \<Rightarrow> message" where
  "from_vector data = \<lparr>impl = Some (MessageImplVector data)\<rparr>"

section \<open>The queue\<close>

record message_queue =
  queue :: "message list"
  total_size :: u64

definition MessageQueue :: message_queue where
  "MessageQueue = \<lparr>queue = [], total_size = 0\<rparr>"

definition mq_push :: "message \<Rightarrow> message_queue \<Rightarrow> crash + message_queue" where
  "mq_push m q =
     (let q' = q\<lparr>queue := m # queue q\<rparr>
      in ebind (message_size (hd (queue q'))) (\<lambda>n.
           Inr (q'\<lparr>total_size := total_size q' + n\<rparr>)))"

text \<open>
  The source returns a flag and assigns the message through its reference parameter, which
  keeps its value when the queue is empty.
\<close>

definition mq_try_pop :: "message \<Rightarrow> message_queue \<Rightarrow> crash + (bool \<times> message \<times> message_queue)" where
  "mq_try_pop out q =
     (if queue q = [] then Inr (False, out, q)
      else
        let m = last (queue q);
            q' = q\<lparr>queue := butlast (queue q)\<rparr>
        in ebind (message_size m) (\<lambda>n.
             Inr (True, m, q'\<lparr>total_size := total_size q' - n\<rparr>)))"

definition mq_clear :: "message_queue \<Rightarrow> message_queue" where
  "mq_clear q = q\<lparr>queue := [], total_size := 0\<rparr>"

definition get_message_count :: "message_queue \<Rightarrow> u64" where
  "get_message_count q = of_nat (length (queue q))"

definition get_total_size :: "message_queue \<Rightarrow> u64" where
  "get_total_size q = total_size q"

section \<open>Interface: a first-in first-out queue whose operations may fail\<close>

fun push_all :: "('a \<Rightarrow> 'q \<Rightarrow> 'e + 'q) \<Rightarrow> 'a list \<Rightarrow> 'q \<Rightarrow> 'e + 'q" where
  "push_all push [] q = Inr q"
| "push_all push (x # xs) q = ebind (push x q) (push_all push xs)"

fun pop_all :: "('a \<Rightarrow> 'q \<Rightarrow> 'e + (bool \<times> 'a \<times> 'q)) \<Rightarrow> nat \<Rightarrow> 'a \<Rightarrow> 'q \<Rightarrow> 'e + ('a list \<times> 'q)" where
  "pop_all pop 0 out q = Inr ([], q)"
| "pop_all pop (Suc n) out q =
     ebind (pop out q) (\<lambda>(ok, x, q').
       if ok then ebind (pop_all pop n x q') (\<lambda>(xs, q''). Inr (x # xs, q''))
       else Inr ([], q'))"

locale fifo_queue =
  fixes empty :: 'q
    and push :: "'a \<Rightarrow> 'q \<Rightarrow> 'e + 'q"
    and pop :: "'a \<Rightarrow> 'q \<Rightarrow> 'e + (bool \<times> 'a \<times> 'q)"
    and clear :: "'q \<Rightarrow> 'q"
    and contents :: "'q \<Rightarrow> 'a list"
    and wf :: "'q \<Rightarrow> bool"
    and good :: "'a \<Rightarrow> bool"
  assumes wf_empty: "wf empty"
    and contents_empty: "contents empty = []"
    and push_ok: "wf q \<Longrightarrow> good x \<Longrightarrow>
      \<exists>q'. push x q = Inr q' \<and> wf q' \<and> contents q' = contents q @ [x]"
    and pop_none: "wf q \<Longrightarrow> contents q = [] \<Longrightarrow> pop out q = Inr (False, out, q)"
    and pop_some: "wf q \<Longrightarrow> contents q = x # xs \<Longrightarrow>
      \<exists>q'. pop out q = Inr (True, x, q') \<and> wf q' \<and> contents q' = xs"
    and wf_good: "wf q \<Longrightarrow> x \<in> set (contents q) \<Longrightarrow> good x"
    and wf_clear: "wf (clear q)"
    and contents_clear: "contents (clear q) = []"
begin

lemma push_all_contents:
  assumes "wf q" and "list_all good xs"
  shows "\<exists>q'. push_all push xs q = Inr q' \<and> wf q' \<and> contents q' = contents q @ xs"
  using assms
proof (induction xs arbitrary: q)
  case Nil
  then show ?case by simp
next
  case (Cons x xs)
  then obtain q1 where "push x q = Inr q1" "wf q1" "contents q1 = contents q @ [x]"
    using push_ok [of q x] by auto
  with Cons show ?case by fastforce
qed

lemma pop_all_contents:
  assumes "wf q" and "length (contents q) \<le> n"
  shows "\<exists>q'. pop_all pop n out q = Inr (contents q, q') \<and> wf q' \<and> contents q' = []"
  using assms
proof (induction n arbitrary: q out)
  case 0
  then show ?case by simp
next
  case (Suc n)
  show ?case
  proof (cases "contents q")
    case Nil
    with Suc.prems show ?thesis by (simp add: pop_none)
  next
    case (Cons x xs)
    then obtain q1 where "pop out q = Inr (True, x, q1)" "wf q1" "contents q1 = xs"
      using pop_some [of q x xs out] Suc.prems by auto
    with Suc.IH [of q1 x] Suc.prems Cons show ?thesis by fastforce
  qed
qed

lemma fifo_order:
  assumes "list_all good xs"
  shows "\<exists>q q'. push_all push xs empty = Inr q
           \<and> pop_all pop (length xs) out q = Inr (xs, q') \<and> contents q' = []"
proof -
  obtain q where q: "push_all push xs empty = Inr q" "wf q" "contents q = xs"
    using push_all_contents [OF wf_empty assms] contents_empty by auto
  with pop_all_contents [OF q(2), of "length xs" out] show ?thesis by auto
qed

end

section \<open>The message queue implements the interface\<close>

definition message_bytes :: "message \<Rightarrow> byte list" where
  "message_bytes m = (case impl m of None \<Rightarrow> [] | Some i \<Rightarrow> buffer i)"

definition mq_contents :: "message_queue \<Rightarrow> message list" where
  "mq_contents q = rev (queue q)"

definition queued_bytes :: "message_queue \<Rightarrow> nat" where
  "queued_bytes q = (\<Sum>m\<leftarrow>queue q. length (message_bytes m))"

definition mq_wf :: "message_queue \<Rightarrow> bool" where
  "mq_wf q \<longleftrightarrow> list_all (\<lambda>m. \<not> is_empty m) (queue q) \<and> total_size q = of_nat (queued_bytes q)"

lemma message_size_some: "\<not> is_empty m \<Longrightarrow> message_size m = Inr (of_nat (length (message_bytes m)))"
  by (auto simp: is_empty_def message_size_def message_bytes_def)

lemma message_data_some: "\<not> is_empty m \<Longrightarrow> message_data m = Inr (message_bytes m)"
  by (auto simp: is_empty_def message_data_def message_bytes_def)

lemma message_size_none: "is_empty m \<Longrightarrow> message_size m = Inl NullDereference"
  by (simp add: is_empty_def message_size_def)

lemma message_size_Message [simp]: "message_size Message = Inl NullDereference"
  by (simp add: message_size_def Message_def)

lemma is_empty_Message [simp]: "is_empty Message"
  by (simp add: is_empty_def Message_def)

lemma from_vector_simps [simp]:
  "\<not> is_empty (from_vector bs)" "message_bytes (from_vector bs) = bs"
  by (simp_all add: is_empty_def from_vector_def message_bytes_def)

lemma message_eq_from_vector: "\<not> is_empty m \<Longrightarrow> m = from_vector (message_bytes m)"
  by (cases m) (auto simp: is_empty_def from_vector_def message_bytes_def message_impl.expand)

lemma mq_push_ok:
  assumes "mq_wf q" and "\<not> is_empty m"
  shows "\<exists>q'. mq_push m q = Inr q' \<and> mq_wf q' \<and> mq_contents q' = mq_contents q @ [m]"
  using assms
  by (auto simp: mq_push_def mq_wf_def mq_contents_def queued_bytes_def message_size_some)

lemma mq_pop_some:
  assumes "mq_wf q" and "mq_contents q = m # ms"
  shows "\<exists>q'. mq_try_pop out q = Inr (True, m, q') \<and> mq_wf q' \<and> mq_contents q' = ms"
proof -
  from assms(2) have q: "queue q = rev ms @ [m]"
    by (simp add: mq_contents_def rev_eq_Cons_iff)
  with assms(1) show ?thesis
    by (auto simp: mq_try_pop_def mq_wf_def mq_contents_def queued_bytes_def message_size_some)
qed

interpretation mq: fifo_queue MessageQueue mq_push mq_try_pop mq_clear mq_contents mq_wf
  "\<lambda>m. \<not> is_empty m"
proof unfold_locales
  show "mq_wf MessageQueue" "mq_contents MessageQueue = []"
    by (simp_all add: mq_wf_def mq_contents_def queued_bytes_def MessageQueue_def)
next
  fix q and out :: message
  assume "mq_contents q = []"
  then show "mq_try_pop out q = Inr (False, out, q)"
    by (simp add: mq_contents_def mq_try_pop_def)
next
  fix q x
  assume "mq_wf q" "x \<in> set (mq_contents q)"
  then show "\<not> is_empty x"
    by (auto simp: mq_wf_def mq_contents_def list_all_iff)
next
  fix q
  show "mq_wf (mq_clear q)" "mq_contents (mq_clear q) = []"
    by (simp_all add: mq_wf_def mq_contents_def queued_bytes_def mq_clear_def)
qed (fact mq_push_ok, fact mq_pop_some)

lemma mq_contents_Nil: "mq_contents q = [] \<longleftrightarrow> queue q = []"
  by (simp add: mq_contents_def)

lemmas mq_laws [queue_simps] = mq.wf_empty mq.contents_empty mq.wf_clear mq.contents_clear mq.pop_none

section \<open>Properties\<close>

text \<open>
  Whatever non-null messages are pushed, popping returns exactly these messages, in the
  order in which they were pushed, and leaves the queue empty; neither operation fails.
\<close>

lemma message_queue_fifo:
  assumes "list_all (\<lambda>m. \<not> is_empty m) ms"
  shows "\<exists>q q'. push_all mq_push ms MessageQueue = Inr q
           \<and> get_message_count q = of_nat (length ms)
           \<and> pop_all mq_try_pop (length ms) out q = Inr (ms, q') \<and> queue q' = []"
proof -
  obtain q where q: "push_all mq_push ms MessageQueue = Inr q" "mq_wf q" "mq_contents q = ms"
    using mq.push_all_contents [OF mq.wf_empty assms] mq.contents_empty by auto
  then have "get_message_count q = of_nat (length ms)"
    by (metis get_message_count_def length_rev mq_contents_def)
  with q mq.pop_all_contents [OF q(2), of "length ms" out] show ?thesis
    by (auto simp: mq_contents_Nil)
qed

text \<open>
  C30. The running total is exact: on every queue reached by pushes of non-null messages,
  pops and clears, the recorded size is the number of queued payload bytes, as long as that
  number fits in 64 bits.
\<close>

inductive mq_reachable :: "message_queue \<Rightarrow> bool" where
  mq_new: "mq_reachable MessageQueue"
| mq_pushed: "mq_reachable q \<Longrightarrow> \<not> is_empty m \<Longrightarrow> mq_push m q = Inr q' \<Longrightarrow> mq_reachable q'"
| mq_popped: "mq_reachable q \<Longrightarrow> mq_try_pop out q = Inr (ok, m, q') \<Longrightarrow> mq_reachable q'"
| mq_cleared: "mq_reachable q \<Longrightarrow> mq_reachable (mq_clear q)"

lemma mq_try_pop_wf:
  assumes "mq_wf q" and "mq_try_pop out q = Inr (ok, m, q')"
  shows "mq_wf q'"
proof (cases "mq_contents q")
  case Nil
  with assms show ?thesis by (simp add: mq.pop_none)
next
  case (Cons x xs)
  with assms mq_pop_some [of q x xs out] show ?thesis by auto
qed

lemma mq_reachable_wf: "mq_reachable q \<Longrightarrow> mq_wf q"
proof (induction rule: mq_reachable.induct)
  case (mq_pushed q m q')
  then show ?case using mq_push_ok [of q m] by auto
next
  case (mq_popped q out ok m q')
  then show ?case using mq_try_pop_wf by blast
qed (simp_all add: mq_laws)

theorem total_size_exact:
  assumes "mq_reachable q" and "queued_bytes q < 2 ^ 64"
  shows "unat (get_total_size q) = queued_bytes q"
  using mq_reachable_wf [OF assms(1)] assms(2)
  by (simp add: mq_wf_def get_total_size_def unat_of_nat_small)

theorem total_size_exact_witness:
  "unat (get_total_size \<lparr>queue = [from_vector [7, 8]], total_size = 2\<rparr>) = 2"
proof -
  let ?q = "\<lparr>queue = [from_vector [7, 8]], total_size = 2\<rparr>"
  have "mq_push (from_vector [7, 8]) MessageQueue = Inr ?q"
    by (simp add: mq_push_def message_size_def from_vector_def MessageQueue_def)
  then have "mq_reachable ?q"
    by (rule mq_pushed [OF mq_new, rotated]) simp
  then show ?thesis
    using total_size_exact [of ?q] by (simp add: queued_bytes_def)
qed

end
