(* ===== verification/Connection.thy ===== *)
theory Connection
  imports MessageQueue
begin

text \<open>
  What the two kinds of connection share: the error codes their handlers tell apart, the
  byte order of the host, and the interface \<open>message_writer\<close> of an outbound side that keeps
  at most one write in flight and queues the rest.
\<close>

section \<open>Error codes\<close>

text \<open>
  A completion handler receives a \<^verbatim>\<open>boost::system::error_code\<close>; \<open>NoError\<close> is the code that
  converts to false. The other constructors are the codes the handlers compare with, by
  category and value, and two families for the rest: SSL errors by their OpenSSL reason and
  any other code.
\<close>

datatype ssl_reason = SSL_R_PROTOCOL_IS_SHUTDOWN | OtherReason nat

datatype error_code =
    NoError
  | ConnectionAborted
  | ConnectionReset
  | OperationAborted
  | TimedOut
  | BadDescriptor
  | Eof
  | StreamTruncated
  | SslError ssl_reason
  | OtherError nat

section \<open>Byte order of the host\<close>

text \<open>
  A length is converted with \<^verbatim>\<open>boost::endian\<close> and its four bytes are copied from or to
  memory. The conversions and the memory representation of a 32-bit value depend on the
  host, so they are a parameter; the locale states what the conversions promise: the bytes
  sent are the little-endian ones, and reading little-endian bytes gives the value back.
\<close>

record host =
  native_to_little :: "u32 \<Rightarrow> u32"
  little_to_native :: "u32 \<Rightarrow> u32"
  store32 :: "u32 \<Rightarrow> byte list"
  load32 :: "byte list \<Rightarrow> u32"

locale endian_host =
  fixes h :: host
  assumes store_little: "store32 h (native_to_little h w) = le_bytes w"
    and load_little: "length bs = 4 \<Longrightarrow> little_to_native h (load32 h bs) = of_nat (le_value bs)"
begin

lemma load_store: "little_to_native h (load32 h (store32 h (native_to_little h w))) = w"
  by (simp add: store_little load_little)

end

text \<open>A little-endian host, where the conversions do nothing, and a big-endian one, where
  memory holds the bytes in the opposite order and the conversions swap them.\<close>

definition byteswap :: "u32 \<Rightarrow> u32" where
  "byteswap w = of_nat (le_value (rev (le_bytes w)))"

definition little_host :: host where
  "little_host = \<lparr>native_to_little = id, little_to_native = id,
     store32 = le_bytes, load32 = (\<lambda>bs. of_nat (le_value bs))\<rparr>"

definition big_host :: host where
  "big_host = \<lparr>native_to_little = byteswap, little_to_native = byteswap,
     store32 = (\<lambda>w. rev (le_bytes w)), load32 = (\<lambda>bs. of_nat (le_value (rev bs)))\<rparr>"

lemma le_value_less: "le_value bs < 256 ^ length bs"
proof (induction bs)
  case Nil
  then show ?case by simp
next
  case (Cons b bs)
  have "unat b < 256"
    using unsigned_less [of b] by simp
  with Cons show ?case by simp
qed

lemma unat_of_nat_le_value: "length bs = 4 \<Longrightarrow> unat (of_nat (le_value bs) :: u32) = le_value bs"
  using le_value_less [of bs] by (simp add: unat_of_nat_small)

lemma le_value_inject: "length as = length bs \<Longrightarrow> le_value as = le_value bs \<Longrightarrow> as = bs"
proof (induction as bs rule: list_induct2)
  case Nil
  then show ?case by simp
next
  case (Cons a as b bs)
  have "unat a < 256" "unat b < 256"
    using unsigned_less [of a] unsigned_less [of b] by simp_all
  then have "(unat a + 256 * le_value as) mod 256 = unat a" "(unat b + 256 * le_value bs) mod 256 = unat b"
    by simp_all
  with Cons.prems have "unat a = unat b" "le_value as = le_value bs"
    by simp_all
  with Cons.IH show ?case by (simp add: unsigned_word_eqI)
qed

lemma le_bytes_of_nat_le_value [simp]:
  "length bs = 4 \<Longrightarrow> le_bytes (of_nat (le_value bs)) = bs"
  by (rule le_value_inject) (simp_all add: unat_of_nat_le_value)

interpretation little: endian_host little_host
  by unfold_locales (simp_all add: little_host_def)

interpretation big: endian_host big_host
  by unfold_locales (simp_all add: big_host_def byteswap_def)

section \<open>Interface: one write in flight, the rest queued\<close>

text \<open>
  \<open>send\<close> is the task a connection runs in its strand for an outgoing message, \<open>finished\<close> the
  successful completion of the write in flight. A run is a list of such events; it is only
  defined when a completion is preceded by a write in flight.
\<close>

datatype writer_event = Send message | Finished

fun writer_run ::
    "(message \<Rightarrow> 's \<Rightarrow> crash + 's) \<Rightarrow> ('s \<Rightarrow> crash + 's) \<Rightarrow> ('s \<Rightarrow> 'w list)
     \<Rightarrow> writer_event list \<Rightarrow> 's \<Rightarrow> (crash + ('w list \<times> 's)) option" where
  "writer_run send finished inflight [] s = Some (Inr ([], s))"
| "writer_run send finished inflight (Send m # es) s =
     (case send m s of Inl e \<Rightarrow> Some (Inl e) | Inr s' \<Rightarrow> writer_run send finished inflight es s')"
| "writer_run send finished inflight (Finished # es) s =
     (if inflight s = [] then None
      else case finished s of
          Inl e \<Rightarrow> Some (Inl e)
        | Inr s' \<Rightarrow>
            map_option (map_sum id (apfst ((@) (inflight s))))
              (writer_run send finished inflight es s'))"

fun sent_messages :: "writer_event list \<Rightarrow> message list" where
  "sent_messages [] = []"
| "sent_messages (Send m # es) = m # sent_messages es"
| "sent_messages (Finished # es) = sent_messages es"

locale message_writer =
  fixes send :: "message \<Rightarrow> 's \<Rightarrow> crash + 's"
    and finished :: "'s \<Rightarrow> crash + 's"
    and inflight :: "'s \<Rightarrow> message list"
    and waiting :: "'s \<Rightarrow> message list"
    and ready :: "'s \<Rightarrow> bool"
  assumes send_ready: "ready s \<Longrightarrow> \<not> is_empty m \<Longrightarrow>
      \<exists>s'. send m s = Inr s' \<and> ready s' \<and> inflight s' @ waiting s' = inflight s @ waiting s @ [m]"
    and finished_ready: "ready s \<Longrightarrow> inflight s \<noteq> [] \<Longrightarrow>
      \<exists>s'. finished s = Inr s' \<and> ready s' \<and> inflight s' @ waiting s' = waiting s"
    and one_inflight: "ready s \<Longrightarrow> length (inflight s) \<le> 1"
    and busy_if_waiting: "ready s \<Longrightarrow> waiting s \<noteq> [] \<Longrightarrow> inflight s \<noteq> []"
begin

lemma run_in_order:
  assumes "ready s" and "list_all (\<lambda>m. \<not> is_empty m) (sent_messages es)"
    and "writer_run send finished inflight es s = Some r"
  shows "\<exists>ws s'. r = Inr (ws, s') \<and> ready s'
           \<and> ws @ inflight s' @ waiting s' = inflight s @ waiting s @ sent_messages es"
  using assms
proof (induction es arbitrary: s r)
  case Nil
  then show ?case by auto
next
  case (Cons e es)
  show ?case
  proof (cases e)
    case (Send m)
    then obtain s1 where s1: "send m s = Inr s1" "ready s1"
      "inflight s1 @ waiting s1 = inflight s @ waiting s @ [m]"
      using Cons.prems send_ready [of s m] by auto
    have "\<exists>ws s'. r = Inr (ws, s') \<and> ready s'
            \<and> ws @ inflight s' @ waiting s' = inflight s1 @ waiting s1 @ sent_messages es"
      by (rule Cons.IH) (use Cons.prems s1 Send in auto)
    moreover have "inflight s1 @ waiting s1 @ sent_messages es
        = inflight s @ waiting s @ sent_messages (e # es)"
      using s1(3) Send by (metis append.assoc append_Cons append_Nil sent_messages.simps(2))
    ultimately show ?thesis by simp
  next
    case Finished
    with Cons.prems(3) have busy: "inflight s \<noteq> []"
      by (auto split: if_splits)
    then obtain s1 where s1: "finished s = Inr s1" "ready s1" "inflight s1 @ waiting s1 = waiting s"
      using finished_ready Cons.prems(1) by blast
    with Finished busy Cons.prems(3) obtain r1
      where r1: "writer_run send finished inflight es s1 = Some r1"
        and r: "r = map_sum id (apfst ((@) (inflight s))) r1"
      by auto
    have "\<exists>ws s'. r1 = Inr (ws, s') \<and> ready s'
            \<and> ws @ inflight s' @ waiting s' = inflight s1 @ waiting s1 @ sent_messages es"
      by (rule Cons.IH) (use Cons.prems s1 r1 Finished in auto)
    with r s1(3) Finished show ?thesis by auto
  qed
qed

text \<open>The same run, observing another view of the writes in flight.\<close>

lemma run_view:
  assumes view: "\<And>s. ready s \<Longrightarrow> view s = map f (inflight s)"
    and "ready s" and "list_all (\<lambda>m. \<not> is_empty m) (sent_messages es)"
  shows "writer_run send finished view es s
    = map_option (map_sum id (apfst (map f))) (writer_run send finished inflight es s)"
  using assms(2,3)
proof (induction es arbitrary: s)
  case Nil
  then show ?case by simp
next
  case (Cons e es)
  show ?case
  proof (cases e)
    case (Send m)
    then obtain s1 where "send m s = Inr s1" "ready s1"
      using Cons.prems send_ready [of s m] by auto
    with Send Cons show ?thesis by simp
  next
    case Finished
    show ?thesis
    proof (cases "inflight s = []")
      case True
      with Finished view Cons.prems show ?thesis by simp
    next
      case False
      then obtain s1 where "finished s = Inr s1" "ready s1"
        using finished_ready Cons.prems(1) by blast
      with Finished False view Cons show ?thesis
        by (cases "writer_run send finished inflight es s1")
          (auto simp: map_sum_def split: sum.splits)
    qed
  qed
qed

lemma run_view_Some:
  assumes "\<And>s. ready s \<Longrightarrow> view s = map f (inflight s)"
    and "ready s" and "list_all (\<lambda>m. \<not> is_empty m) (sent_messages es)"
    and "writer_run send finished view es s = Some (Inr (vs, s'))"
  shows "\<exists>ws. writer_run send finished inflight es s = Some (Inr (ws, s')) \<and> vs = map f ws"
proof (cases "writer_run send finished inflight es s")
  case None
  with run_view [OF assms(1-3)] assms(4) show ?thesis by simp
next
  case (Some r)
  with run_view [OF assms(1-3)] assms(4) show ?thesis by (cases r) auto
qed

lemma drained:
  assumes "ready s" and "inflight s = []"
  shows "waiting s = []"
  using assms busy_if_waiting by blast

end

end
