(* ===== verification/ClusterConnection.thy ===== *)
theory ClusterConnection
  imports Connection
begin

text \<open>
  The connection between two servers of a cluster
  (\<^verbatim>\<open>server/common/src/cluster/ClusterConnection.hpp\<close> and \<^verbatim>\<open>ClusterConnection.cpp\<close>): an SSL
  handshake, a handshake message in each direction, then length-prefixed messages both ways.
  Every handler is a function on the connection record; an asynchronous operation a handler
  starts is appended to the list \<open>cc_ops\<close> of outstanding operations, and \<open>cc_step\<close> completes
  one of them by calling its handler with any outcome. \<open>cc_inbound\<close> records the calls of
  \<open>process_message\<close>, whose body is empty in the source. Logging and the timer (cancelled but
  never started in this class) have no effect on the state and are left out.
\<close>

section \<open>State\<close>

datatype SslRole = Client | Server

datatype cc_op =
    SslHandshake SslRole
  | WriteHandshake "byte list"
  | ReadHandshake
  | ReadSome bool
  | WriteMessage bool "byte list"
  | SslShutdown
  | SendTask message

record cluster_connection =
  cc_dropped :: bool
  cc_shutting_down :: bool
  cc_is_writing :: bool
  cc_safe_link :: bool
  cc_downgraded :: bool
  cc_socket_open :: bool
  cc_verify_peer :: bool
  cc_message_queue :: message_queue
  cc_message_outbound :: message
  cc_out_message_len_le :: u32
  cc_in_message_len :: u32
  cc_read_buffer :: "byte list"
  cc_ops :: "cc_op list"
  cc_inbound :: "message list"

definition read_chunk_size :: nat where
  "read_chunk_size = 16 * 1024"

definition cc_start :: "cc_op \<Rightarrow> cluster_connection \<Rightarrow> cluster_connection" where
  "cc_start op c = c\<lparr>cc_ops := cc_ops c @ [op]\<rparr>"

fun is_connection_reset_error :: "error_code \<Rightarrow> bool" where
  "is_connection_reset_error ConnectionAborted = True"
| "is_connection_reset_error ConnectionReset = True"
| "is_connection_reset_error Eof = True"
| "is_connection_reset_error StreamTruncated = True"
| "is_connection_reset_error _ = False"

fun is_connection_canceled_error :: "error_code \<Rightarrow> bool" where
  "is_connection_canceled_error (SslError SSL_R_PROTOCOL_IS_SHUTDOWN) = True"
| "is_connection_canceled_error _ = False"

text \<open>
  Construction from a socket. The members \<open>safe_link_\<close> and \<open>out_message_len_le_\<close> have no
  initialiser; their indeterminate values are arguments.
\<close>

definition ClusterConnection :: "bool \<Rightarrow> bool \<Rightarrow> u32 \<Rightarrow> cluster_connection" where
  "ClusterConnection open_socket safe0 len0 =
     \<lparr>cc_dropped = False, cc_shutting_down = False, cc_is_writing = False,
      cc_safe_link = safe0, cc_downgraded = False, cc_socket_open = open_socket,
      cc_verify_peer = False, cc_message_queue = MessageQueue, cc_message_outbound = Message,
      cc_out_message_len_le = len0, cc_in_message_len = 0, cc_read_buffer = [],
      cc_ops = [], cc_inbound = []\<rparr>"

section \<open>Operations\<close>

text \<open>\<open>verify_ec\<close> is the outcome of forcing peer verification on the SSL stream.\<close>

definition cc_run :: "SslRole \<Rightarrow> bool \<Rightarrow> error_code \<Rightarrow> cluster_connection \<Rightarrow> cluster_connection" where
  "cc_run role safe_link verify_ec c =
     (if \<not> cc_socket_open c then c
      else
        let c1 = c\<lparr>cc_safe_link := safe_link\<rparr>;
            c2 = c1\<lparr>cc_verify_peer := (verify_ec = NoError)\<rparr>;
            c3 = c2\<lparr>cc_is_writing := True\<rparr>
        in cc_start (SslHandshake role) c3)"

definition cc_abort :: "cluster_connection \<Rightarrow> cluster_connection" where
  "cc_abort c =
     (if cc_dropped c then c
      else
        let c1 = c\<lparr>cc_message_queue := mq_clear (cc_message_queue c)\<rparr>;
            c2 = c1\<lparr>cc_socket_open := False\<rparr>
        in c2\<lparr>cc_dropped := True\<rparr>)"

definition cc_shutdown :: "cluster_connection \<Rightarrow> cluster_connection" where
  "cc_shutdown c =
     (if cc_dropped c \<or> cc_shutting_down c then c
      else if cc_downgraded c then cc_abort c
      else
        let c1 = c\<lparr>cc_message_queue := mq_clear (cc_message_queue c)\<rparr>
        in if \<not> cc_socket_open c1 then c1
           else (cc_start SslShutdown c1)\<lparr>cc_shutting_down := True\<rparr>)"

definition cc_read_next :: "cluster_connection \<Rightarrow> cluster_connection" where
  "cc_read_next c = cc_start (ReadSome (cc_safe_link c)) c"

definition cc_process_message :: "message \<Rightarrow> cluster_connection \<Rightarrow> cluster_connection" where
  "cc_process_message m c = c\<lparr>cc_inbound := cc_inbound c @ [m]\<rparr>"

definition cc_do_write_message ::
    "host \<Rightarrow> message \<Rightarrow> cluster_connection \<Rightarrow> crash + cluster_connection" where
  "cc_do_write_message h m c =
     (let c1 = c\<lparr>cc_message_outbound := m\<rparr>
      in ebind (message_size (cc_message_outbound c1)) (\<lambda>n.
           let c2 = c1\<lparr>cc_out_message_len_le := native_to_little h (ucast n)\<rparr>
           in ebind (message_data (cc_message_outbound c2)) (\<lambda>payload.
                let data = store32 h (cc_out_message_len_le c2) @ payload
                in Inr (cc_start (WriteMessage (cc_safe_link c2) data) c2))))"

text \<open>\<open>send_message\<close> refuses a null message and posts the rest of its work to the strand.\<close>

definition cc_send_message :: "message \<Rightarrow> cluster_connection \<Rightarrow> cluster_connection" where
  "cc_send_message m c = (if is_empty m then c else cc_start (SendTask m) c)"

definition cc_send_task ::
    "host \<Rightarrow> message \<Rightarrow> cluster_connection \<Rightarrow> crash + cluster_connection" where
  "cc_send_task h m c =
     (if cc_dropped c \<or> cc_shutting_down c then Inr c
      else if \<not> cc_is_writing c then cc_do_write_message h m (c\<lparr>cc_is_writing := True\<rparr>)
      else ebind (mq_push m (cc_message_queue c)) (\<lambda>q. Inr (c\<lparr>cc_message_queue := q\<rparr>)))"

text \<open>The end of \<open>on_ian_handshake\<close> and of \<open>on_write_message\<close>: write the next queued message.\<close>

definition cc_write_next :: "host \<Rightarrow> cluster_connection \<Rightarrow> crash + cluster_connection" where
  "cc_write_next h c =
     ebind (mq_try_pop Message (cc_message_queue c)) (\<lambda>(ok, m, q).
       let c1 = c\<lparr>cc_message_queue := q\<rparr>
       in if ok then cc_do_write_message h m c1
          else Inr (c1\<lparr>cc_is_writing := False\<rparr>))"

definition cc_handle_read_error :: "error_code \<Rightarrow> cluster_connection \<Rightarrow> cluster_connection" where
  "cc_handle_read_error ec c =
     (if cc_dropped c then c
      else if is_connection_reset_error ec then cc_abort c
      else if is_connection_canceled_error ec then c
      else cc_shutdown c)"

definition cc_handle_write_error :: "error_code \<Rightarrow> cluster_connection \<Rightarrow> cluster_connection" where
  "cc_handle_write_error ec c =
     (if cc_dropped c then c
      else if is_connection_reset_error ec then cc_abort c
      else if is_connection_canceled_error ec then c
      else cc_shutdown c)"

section \<open>Completion handlers\<close>

text \<open>The error code of the SSL shutdown only decides what is logged.\<close>

definition cc_on_shutdown :: "error_code \<Rightarrow> cluster_connection \<Rightarrow> cluster_connection" where
  "cc_on_shutdown ec c =
     (if cc_dropped c then c
      else c\<lparr>cc_socket_open := False, cc_dropped := True\<rparr>)"

definition cc_on_ssl_handshake ::
    "host \<Rightarrow> error_code \<Rightarrow> cluster_connection \<Rightarrow> crash + cluster_connection" where
  "cc_on_ssl_handshake h ec c =
     (if ec \<noteq> NoError then Inr (cc_abort c)
      else
        ebind (message_size (cc_message_outbound c)) (\<lambda>n.
          let c1 = c\<lparr>cc_out_message_len_le := native_to_little h (ucast n)\<rparr>
          in ebind (message_data (cc_message_outbound c1)) (\<lambda>payload.
               let data = store32 h (cc_out_message_len_le c1) @ payload
               in Inr (cc_start (WriteHandshake data) c1))))"

definition cc_on_ian_handshake_sent :: "error_code \<Rightarrow> cluster_connection \<Rightarrow> cluster_connection" where
  "cc_on_ian_handshake_sent ec c =
     (let c1 = c\<lparr>cc_message_outbound := Message\<rparr>
      in if ec \<noteq> NoError then cc_handle_write_error ec c1
         else cc_start ReadHandshake c1)"

text \<open>
  Extraction of a message length from the front of the read buffer: four bytes are copied
  into the length and consumed.
\<close>

definition cc_extract_length :: "host \<Rightarrow> cluster_connection \<Rightarrow> cluster_connection" where
  "cc_extract_length h c =
     c\<lparr>cc_in_message_len := little_to_native h (load32 h (take 4 (cc_read_buffer c))),
       cc_read_buffer := drop 4 (cc_read_buffer c)\<rparr>"

definition cc_on_ian_handshake ::
    "host \<Rightarrow> error_code \<Rightarrow> byte list \<Rightarrow> cluster_connection \<Rightarrow> crash + cluster_connection" where
  "cc_on_ian_handshake h ec data c =
     (if ec \<noteq> NoError then Inr (cc_handle_read_error ec c)
      else
        let c1 = c\<lparr>cc_read_buffer := cc_read_buffer c @ data\<rparr>;
            len_known = (cc_in_message_len c1 \<noteq> 0)
        in if \<not> len_known \<and> length (cc_read_buffer c1) < 4 then Inr (cc_shutdown c1)
           else
             let c2 = (if len_known then c1 else cc_extract_length h c1)
             in if cc_in_message_len c2 = 0 then Inr (cc_shutdown c2)
                else if length (cc_read_buffer c2) < unat (cc_in_message_len c2)
                then Inr (cc_start ReadHandshake c2)
                else if length (cc_read_buffer c2) > unat (cc_in_message_len c2)
                then Inr (cc_shutdown c2)
                else
                  let c3 = c2\<lparr>cc_read_buffer :=
                        drop (unat (cc_in_message_len c2)) (cc_read_buffer c2)\<rparr>;
                      c4 = c3\<lparr>cc_in_message_len := 0\<rparr>
                  in cc_write_next h (cc_read_next c4))"

text \<open>
  The loop of \<open>on_read\<close>. \<open>(True, c)\<close> is the early return after a shutdown, \<open>(False, c)\<close> the
  \<open>break\<close> after which the next read is started. The loop consumes at least one byte per
  delivered message.
\<close>

function cc_read_loop :: "host \<Rightarrow> cluster_connection \<Rightarrow> bool \<times> cluster_connection" where
  "cc_read_loop h c =
     (let len_known = (cc_in_message_len c \<noteq> 0)
      in if \<not> len_known \<and> length (cc_read_buffer c) < 4 then (False, c)
         else
           let c1 = (if len_known then c else cc_extract_length h c)
           in if cc_in_message_len c1 = 0 then (True, cc_shutdown c1)
              else if length (cc_read_buffer c1) < unat (cc_in_message_len c1) then (False, c1)
              else
                let buf = take (unat (cc_in_message_len c1)) (cc_read_buffer c1);
                    c2 = c1\<lparr>cc_read_buffer := drop (length buf) (cc_read_buffer c1)\<rparr>;
                    c3 = cc_process_message (from_vector buf) c2
                in cc_read_loop h (c3\<lparr>cc_in_message_len := 0\<rparr>))"
  by pat_completeness auto
termination
proof (relation "measure (\<lambda>(h, c). length (cc_read_buffer c))", goal_cases)
  case 1
  show ?case by simp
next
  case (2 h c known c1 buf c2 c3)
  then have "0 < unat (cc_in_message_len c1)" and "length buf = unat (cc_in_message_len c1)"
    and "length (cc_read_buffer c1) \<le> length (cc_read_buffer c)"
    by (auto simp: unat_pos cc_extract_length_def)
  with 2 show ?case
    by (auto simp: cc_process_message_def)
qed

definition cc_on_read ::
    "host \<Rightarrow> error_code \<Rightarrow> byte list \<Rightarrow> cluster_connection \<Rightarrow> cluster_connection" where
  "cc_on_read h ec data c =
     (if ec \<noteq> NoError then cc_handle_read_error ec c
      else
        let c1 = c\<lparr>cc_read_buffer := cc_read_buffer c @ data\<rparr>
        in case cc_read_loop h c1 of
             (True, c2) \<Rightarrow> c2
           | (False, c2) \<Rightarrow> cc_read_next c2)"

definition cc_on_write_message ::
    "host \<Rightarrow> error_code \<Rightarrow> cluster_connection \<Rightarrow> crash + cluster_connection" where
  "cc_on_write_message h ec c =
     (let c1 = c\<lparr>cc_message_outbound := Message\<rparr>
      in if ec \<noteq> NoError then Inr (cc_handle_write_error ec c1)
         else cc_write_next h c1)"

declare cc_read_loop.simps [simp del]

end
