(* ===== verification/ClusterFraming.thy ===== *)
theory ClusterFraming
  imports ClusterConnection
begin

text \<open>
  The wire format of the cluster connection. \<open>frame\<close> and \<open>decode_stream\<close> specify it on plain
  byte strings: a frame is the little-endian length followed by the payload, and a stream is
  decoded frame by frame until it is incomplete or announces a zero length. The lemmas show
  that the write side produces frames and that the read loop, however the stream is cut into
  reads, delivers exactly what \<open>decode_stream\<close> finds in it.
\<close>

section \<open>Specification of the stream\<close>

definition frame :: "byte list \<Rightarrow> byte list" where
  "frame bs = le_bytes (of_nat (length bs)) @ bs"

function decode_stream :: "byte list \<Rightarrow> byte list list \<times> byte list option" where
  "decode_stream bs =
     (if length bs < 4 then ([], Some bs)
      else
        let n = le_value (take 4 bs)
        in if n = 0 then ([], None)
           else if length bs < 4 + n then ([], Some bs)
           else let (ms, r) = decode_stream (drop (4 + n) bs)
                in (take n (drop 4 bs) # ms, r))"
  by pat_completeness auto
termination
  by (relation "measure length") auto

declare decode_stream.simps [simp del]

text \<open>The payloads a frame can carry.\<close>

definition sendable :: "byte list \<Rightarrow> bool" where
  "sendable bs \<longleftrightarrow> bs \<noteq> [] \<and> length bs < 2 ^ 32"

lemma decode_short:
  "length bs < 4 \<or> (le_value (take 4 bs) \<noteq> 0 \<and> length bs < 4 + le_value (take 4 bs))
   \<Longrightarrow> decode_stream bs = ([], Some bs)"
  by (subst decode_stream.simps) auto

lemma decode_bad:
  "4 \<le> length bs \<Longrightarrow> le_value (take 4 bs) = 0 \<Longrightarrow> decode_stream bs = ([], None)"
  by (subst decode_stream.simps) auto

lemma decode_step:
  assumes "4 \<le> length bs" and "le_value (take 4 bs) = n" and "n \<noteq> 0" and "4 + n \<le> length bs"
  shows "decode_stream bs = apfst ((#) (take n (drop 4 bs))) (decode_stream (drop (4 + n) bs))"
  using assms by (subst decode_stream.simps) (auto split: prod.splits)

lemma stream_cases:
  obtains (short) "length bs < 4 \<or> (le_value (take 4 bs) \<noteq> 0 \<and> length bs < 4 + le_value (take 4 bs))"
  | (bad) "4 \<le> length bs" "le_value (take 4 bs) = 0"
  | (step) "4 \<le> length bs" "le_value (take 4 bs) \<noteq> 0" "4 + le_value (take 4 bs) \<le> length bs"
  by linarith

lemma decode_incomplete: "decode_stream bs = (ms, Some r) \<Longrightarrow> decode_stream r = ([], Some r)"
proof (induction bs arbitrary: ms rule: decode_stream.induct)
  case (1 bs)
  show ?case
  proof (cases bs rule: stream_cases)
    case short
    with "1.prems" show ?thesis by (auto simp: decode_short)
  next
    case bad
    with "1.prems" show ?thesis by (simp add: decode_bad)
  next
    case step
    with "1.prems" obtain ms' where
      "decode_stream (drop (4 + le_value (take 4 bs)) bs) = (ms', Some r)"
      by (cases "decode_stream (drop (4 + le_value (take 4 bs)) bs)") (auto simp: decode_step)
    with step "1.IH" show ?thesis by auto
  qed
qed

lemma decode_append:
  "decode_stream (as @ bs) =
     (case decode_stream as of
        (ms, None) \<Rightarrow> (ms, None)
      | (ms, Some r) \<Rightarrow> apfst ((@) ms) (decode_stream (r @ bs)))"
proof (induction as rule: decode_stream.induct)
  case (1 as)
  show ?case
  proof (cases as rule: stream_cases)
    case short
    then show ?thesis by (simp add: decode_short)
  next
    case bad
    then show ?thesis by (simp add: decode_bad)
  next
    case step
    let ?n = "le_value (take 4 as)"
    have "decode_stream (as @ bs)
        = apfst ((#) (take ?n (drop 4 as))) (decode_stream (drop (4 + ?n) as @ bs))"
      using step decode_step [of "as @ bs" ?n] by simp
    with step "1.IH" show ?thesis
      by (auto simp: decode_step split: prod.splits option.splits)
  qed
qed

lemma decode_frame:
  assumes "sendable bs"
  shows "decode_stream (frame bs @ rest) = apfst ((#) bs) (decode_stream rest)"
proof -
  have "le_value (take 4 (frame bs @ rest)) = length bs"
    using assms by (simp add: frame_def sendable_def unat_of_nat_small)
  then have "decode_stream (frame bs @ rest)
      = apfst ((#) (take (length bs) (drop 4 (frame bs @ rest))))
          (decode_stream (drop (4 + length bs) (frame bs @ rest)))"
    using assms by (intro decode_step) (simp_all add: frame_def sendable_def)
  then show ?thesis
    by (simp add: frame_def)
qed

lemma decode_Nil [simp]: "decode_stream [] = ([], Some [])"
  by (simp add: decode_stream.simps)

lemma decode_frames:
  assumes "list_all sendable ps"
  shows "decode_stream (concat (map frame ps)) = (ps, Some [])"
  using assms by (induction ps) (auto simp: decode_frame)

text \<open>A frame with no payload ends the decoding; what was found before is a prefix of the payloads.\<close>

lemma decode_frames_prefix:
  assumes "\<forall>p \<in> set ps. length p < 2 ^ 32"
  shows "\<exists>r. fst (decode_stream (concat (map frame ps))) @ r = ps"
  using assms
proof (induction ps)
  case (Cons p ps)
  show ?case
  proof (cases "p = []")
    case True
    then have "le_value (take 4 (frame p @ rest)) = 0" "4 \<le> length (frame p @ rest)" for rest
      by (simp_all add: frame_def)
    then show ?thesis
      by (simp add: decode_bad)
  next
    case False
    then have "decode_stream (frame p @ rest) = apfst ((#) p) (decode_stream rest)" for rest
      using Cons.prems by (intro decode_frame) (simp add: sendable_def)
    then show ?thesis
      using Cons.IH Cons.prems by simp
  qed
qed simp

section \<open>The read side implements the decoder\<close>

text \<open>
  Bytes received but not yet delivered: the buffer, preceded by the length when it was
  already extracted.
\<close>

definition cc_pending :: "cluster_connection \<Rightarrow> byte list" where
  "cc_pending c =
     (if cc_in_message_len c = 0 then cc_read_buffer c
      else le_bytes (cc_in_message_len c) @ cc_read_buffer c)"

definition cc_inbox ::
    "u32 \<Rightarrow> byte list \<Rightarrow> message list \<Rightarrow> cluster_connection \<Rightarrow> cluster_connection" where
  "cc_inbox len buf ms c =
     c\<lparr>cc_read_buffer := buf, cc_inbound := ms, cc_in_message_len := len\<rparr>"

lemma cc_inbox_inbox [simp]: "cc_inbox len buf ms (cc_inbox len' buf' ms' c) = cc_inbox len buf ms c"
  by (simp add: cc_inbox_def)

lemma cc_inbox_simps [simp]:
  "cc_inbound (cc_inbox len buf ms c) = ms"
  "cc_ops (cc_inbox len buf ms c) = cc_ops c"
  "cc_safe_link (cc_inbox len buf ms c) = cc_safe_link c"
  "cc_pending (cc_inbox len buf ms c) = (if len = 0 then buf else le_bytes len @ buf)"
  by (simp_all add: cc_inbox_def cc_pending_def)

lemma cc_inbox_fields [simp]:
  "cc_in_message_len (cc_inbox len buf ms c) = len"
  "cc_read_buffer (cc_inbox len buf ms c) = buf"
  by (simp_all add: cc_inbox_def)

lemma cc_inbox_update [simp]:
  "(cc_inbox len buf ms c)\<lparr>cc_read_buffer := buf', cc_in_message_len := len'\<rparr> = cc_inbox len' buf' ms c"
  by (simp add: cc_inbox_def)

lemma cc_inbox_self: "cc_inbox (cc_in_message_len c) (cc_read_buffer c) (cc_inbound c) c = c"
  by (simp add: cc_inbox_def)

lemma cc_extract_length_inbox:
  "cc_extract_length h c =
     cc_inbox (little_to_native h (load32 h (take 4 (cc_read_buffer c))))
       (drop 4 (cc_read_buffer c)) (cc_inbound c) c"
  by (cases c) (simp add: cc_extract_length_def cc_inbox_def)

lemma cc_shutdown_inbound [simp]: "cc_inbound (cc_shutdown c) = cc_inbound c"
  by (simp add: cc_shutdown_def cc_abort_def cc_start_def Let_def)

text \<open>One iteration, once the length of the message is known.\<close>

lemma cc_read_loop_known:
  assumes "cc_in_message_len c \<noteq> 0"
  shows "cc_read_loop h c =
    (let n = unat (cc_in_message_len c) in
     if length (cc_read_buffer c) < n then (False, c)
     else cc_read_loop h (cc_inbox 0 (drop n (cc_read_buffer c))
            (cc_inbound c @ [from_vector (take n (cc_read_buffer c))]) c))"
  using assms
  by (subst cc_read_loop.simps) (auto simp: Let_def cc_inbox_def cc_process_message_def)

lemma cc_read_loop_unknown:
  assumes "cc_in_message_len c = 0"
  shows "cc_read_loop h c =
    (if length (cc_read_buffer c) < 4 then (False, c)
     else if cc_in_message_len (cc_extract_length h c) = 0
     then (True, cc_shutdown (cc_extract_length h c))
     else cc_read_loop h (cc_extract_length h c))"
proof (cases "length (cc_read_buffer c) < 4")
  case True
  with assms show ?thesis by (subst cc_read_loop.simps) simp
next
  case False
  show ?thesis
  proof (cases "cc_in_message_len (cc_extract_length h c) = 0")
    case True
    with False assms show ?thesis by (subst cc_read_loop.simps) simp
  next
    case known: False
    with False assms show ?thesis
      by (subst cc_read_loop.simps, subst cc_read_loop.simps [of h "cc_extract_length h c"])
        (simp add: Let_def)
  qed
qed

text \<open>
  The loop agrees with the decoder on the pending bytes. The state it ends in differs from
  the initial one in the inbound fields only, but for the shutdown of the error case.
\<close>

definition read_loop_agrees :: "host \<Rightarrow> cluster_connection \<Rightarrow> bool" where
  "read_loop_agrees h c \<longleftrightarrow>
     (\<exists>len buf. case decode_stream (cc_pending c) of
        (ms, Some r) \<Rightarrow>
          cc_read_loop h c = (False, cc_inbox len buf (cc_inbound c @ map from_vector ms) c)
          \<and> cc_pending (cc_inbox len buf [] c) = r
      | (ms, None) \<Rightarrow>
          cc_read_loop h c
            = (True, cc_shutdown (cc_inbox len buf (cc_inbound c @ map from_vector ms) c)))"

lemma agrees_break:
  assumes "cc_read_loop h c = (False, c)" and "decode_stream (cc_pending c) = ([], Some (cc_pending c))"
  shows "read_loop_agrees h c"
proof -
  have "cc_pending (cc_inbox (cc_in_message_len c) (cc_read_buffer c) [] c) = cc_pending c"
    by (simp add: cc_pending_def)
  with assms show ?thesis
    unfolding read_loop_agrees_def
    by (intro exI [of _ "cc_in_message_len c"] exI [of _ "cc_read_buffer c"])
      (simp add: cc_inbox_self)
qed

lemma agrees_deliver:
  assumes "read_loop_agrees h (cc_inbox 0 rest (cc_inbound c @ [from_vector m]) c)"
    and "cc_read_loop h c = cc_read_loop h (cc_inbox 0 rest (cc_inbound c @ [from_vector m]) c)"
    and "decode_stream (cc_pending c) = apfst ((#) m) (decode_stream rest)"
  shows "read_loop_agrees h c"
proof (cases "decode_stream rest")
  case (Pair ms r)
  with assms show ?thesis
    by (cases r) (auto simp: read_loop_agrees_def)
qed

lemma agrees_same_pending:
  assumes "read_loop_agrees h (cc_inbox len buf (cc_inbound c) c)"
    and "cc_read_loop h c = cc_read_loop h (cc_inbox len buf (cc_inbound c) c)"
    and "cc_pending (cc_inbox len buf (cc_inbound c) c) = cc_pending c"
  shows "read_loop_agrees h c"
proof (cases "decode_stream (cc_pending c)")
  case (Pair ms r)
  with assms show ?thesis
    unfolding read_loop_agrees_def by (cases r) (simp_all del: cc_inbox_simps(4))
qed

text \<open>
  A sequence of successful reads: each completes the outstanding read with a chunk of the
  stream; nothing more is read once no read is outstanding.
\<close>

definition cc_complete :: "cc_op \<Rightarrow> cluster_connection \<Rightarrow> cluster_connection" where
  "cc_complete op c = c\<lparr>cc_ops := remove1 op (cc_ops c)\<rparr>"

fun cc_feed :: "host \<Rightarrow> byte list list \<Rightarrow> cluster_connection \<Rightarrow> cluster_connection" where
  "cc_feed h [] c = c"
| "cc_feed h (d # ds) c =
     (if ReadSome (cc_safe_link c) \<in> set (cc_ops c)
      then cc_feed h ds (cc_on_read h NoError d (cc_complete (ReadSome (cc_safe_link c)) c))
      else c)"

fun is_read_op :: "cc_op \<Rightarrow> bool" where
  "is_read_op (ReadSome s) = True"
| "is_read_op _ = False"

definition cc_reading :: "cluster_connection \<Rightarrow> bool" where
  "cc_reading c \<longleftrightarrow> filter is_read_op (cc_ops c) = [ReadSome (cc_safe_link c)]"

lemma cc_reading_outstanding: "cc_reading c \<Longrightarrow> ReadSome (cc_safe_link c) \<in> set (cc_ops c)"
  by (metis cc_reading_def filter_is_subset list.set_intros(1) subsetD)

lemma cc_reading_complete:
  "cc_reading c \<Longrightarrow> filter is_read_op (cc_ops (cc_complete (ReadSome (cc_safe_link c)) c)) = []"
  by (simp add: cc_reading_def cc_complete_def filter_remove1_same)

lemma cc_complete_simps [simp]:
  "cc_inbound (cc_complete op c) = cc_inbound c"
  "cc_safe_link (cc_complete op c) = cc_safe_link c"
  "cc_pending (cc_complete op c) = cc_pending c"
  by (simp_all add: cc_complete_def cc_pending_def)

lemma cc_read_next_reading:
  "filter is_read_op (cc_ops c) = [] \<Longrightarrow> cc_reading (cc_read_next c)"
  by (simp add: cc_reading_def cc_read_next_def cc_start_def)

lemma cc_read_next_simps [simp]:
  "cc_inbound (cc_read_next c) = cc_inbound c" "cc_pending (cc_read_next c) = cc_pending c"
  by (simp_all add: cc_read_next_def cc_start_def cc_pending_def)

lemma cc_shutdown_reads [simp]:
  "filter is_read_op (cc_ops (cc_shutdown c)) = filter is_read_op (cc_ops c)"
  by (simp add: cc_shutdown_def cc_abort_def cc_start_def Let_def)

lemma cc_feed_closed: "filter is_read_op (cc_ops c) = [] \<Longrightarrow> cc_feed h ds c = c"
  by (cases ds) (auto simp: filter_empty_conv)

section \<open>Lemmas on any host\<close>

context endian_host
begin

lemma agrees_known:
  assumes len: "cc_in_message_len c \<noteq> 0"
    and IH: "\<And>c'. length (cc_read_buffer c') < length (cc_read_buffer c) \<Longrightarrow> read_loop_agrees h c'"
  shows "read_loop_agrees h c"
proof -
  let ?n = "unat (cc_in_message_len c)"
  have head: "le_value (take 4 (cc_pending c)) = ?n" "drop 4 (cc_pending c) = cc_read_buffer c"
    "length (cc_pending c) = 4 + length (cc_read_buffer c)"
    using len by (simp_all add: cc_pending_def)
  have n: "0 < ?n"
    using len by (rule unat_pos)
  show ?thesis
  proof (cases "length (cc_read_buffer c) < ?n")
    case True
    with len n head show ?thesis
      by (intro agrees_break) (simp_all add: cc_read_loop_known decode_short)
  next
    case False
    let ?c = "cc_inbox 0 (drop ?n (cc_read_buffer c))
      (cc_inbound c @ [from_vector (take ?n (cc_read_buffer c))]) c"
    have "cc_read_loop h c = cc_read_loop h ?c"
      using len False by (simp add: cc_read_loop_known Let_def)
    moreover have "decode_stream (cc_pending c)
        = apfst ((#) (take ?n (cc_read_buffer c))) (decode_stream (drop ?n (cc_read_buffer c)))"
      using decode_step [of "cc_pending c" ?n] False n head
      by (simp add: drop_drop [symmetric] add.commute)
    moreover have "read_loop_agrees h ?c"
      using False n by (intro IH) simp
    ultimately show ?thesis by (blast intro: agrees_deliver)
  qed
qed

lemma extract_length_pending:
  assumes "cc_in_message_len c = 0" and "4 \<le> length (cc_read_buffer c)"
  shows "unat (cc_in_message_len (cc_extract_length h c)) = le_value (take 4 (cc_pending c))"
    and "cc_in_message_len (cc_extract_length h c) \<noteq> 0 \<Longrightarrow>
         cc_pending (cc_extract_length h c) = cc_pending c"
  using assms load_little [of "take 4 (cc_read_buffer c)"]
    unat_of_nat_le_value [of "take 4 (cc_read_buffer c)"]
  by (simp_all add: cc_extract_length_inbox cc_pending_def)

lemma agrees_unknown:
  assumes len: "cc_in_message_len c = 0"
    and IH: "\<And>c'. length (cc_read_buffer c') < length (cc_read_buffer c) \<Longrightarrow> read_loop_agrees h c'"
  shows "read_loop_agrees h c"
proof (cases "length (cc_read_buffer c) < 4")
  case True
  with len show ?thesis
    by (intro agrees_break) (simp_all add: cc_read_loop_unknown cc_pending_def decode_short)
next
  case False
  let ?e = "cc_extract_length h c"
  show ?thesis
  proof (cases "cc_in_message_len ?e = 0")
    case True
    then have "le_value (take 4 (cc_pending c)) = 0"
      using extract_length_pending(1) [of c] len False by simp
    then have "decode_stream (cc_pending c) = ([], None)"
      using len False by (intro decode_bad) (simp_all add: cc_pending_def)
    moreover have "cc_read_loop h c = (True, cc_shutdown ?e)"
      using len False True by (simp add: cc_read_loop_unknown)
    ultimately show ?thesis
      by (auto simp: read_loop_agrees_def cc_extract_length_inbox)
  next
    case known: False
    have "read_loop_agrees h ?e"
      by (rule agrees_known [OF known IH])
        (use False in \<open>simp add: cc_extract_length_inbox\<close>)
    moreover have "cc_read_loop h c = cc_read_loop h ?e"
      using len False known by (simp add: cc_read_loop_unknown)
    moreover have "cc_pending ?e = cc_pending c"
      using extract_length_pending(2) [of c] len False known by simp
    ultimately show ?thesis
      unfolding cc_extract_length_inbox by (rule agrees_same_pending)
  qed
qed

lemma read_loop_agrees: "read_loop_agrees h c"
proof (induction "length (cc_read_buffer c)" arbitrary: c rule: less_induct)
  case less
  then show ?case
    using agrees_known agrees_unknown by blast
qed

lemma on_read_decodes:
  "\<exists>len buf. case decode_stream (cc_pending c @ d) of
     (ms, Some r) \<Rightarrow>
       cc_on_read h NoError d c = cc_read_next (cc_inbox len buf (cc_inbound c @ map from_vector ms) c)
       \<and> cc_pending (cc_inbox len buf [] c) = r
   | (ms, None) \<Rightarrow>
       cc_on_read h NoError d c = cc_shutdown (cc_inbox len buf (cc_inbound c @ map from_vector ms) c)"
proof -
  let ?c = "c\<lparr>cc_read_buffer := cc_read_buffer c @ d\<rparr>"
  have "cc_pending ?c = cc_pending c @ d"
    by (simp add: cc_pending_def)
  moreover have "cc_inbox len buf ms ?c = cc_inbox len buf ms c" "cc_inbound ?c = cc_inbound c" for len buf ms
    by (simp_all add: cc_inbox_def)
  moreover have "read_loop_agrees h ?c"
    by (rule read_loop_agrees)
  ultimately obtain len buf where
    "case decode_stream (cc_pending c @ d) of
       (ms, Some r) \<Rightarrow>
         cc_read_loop h ?c = (False, cc_inbox len buf (cc_inbound c @ map from_vector ms) c)
         \<and> cc_pending (cc_inbox len buf [] c) = r
     | (ms, None) \<Rightarrow>
         cc_read_loop h ?c = (True, cc_shutdown (cc_inbox len buf (cc_inbound c @ map from_vector ms) c))"
    unfolding read_loop_agrees_def by (auto simp del: cc_inbox_simps(4))
  then show ?thesis
    by (intro exI [of _ len] exI [of _ buf])
      (auto simp: cc_on_read_def simp del: cc_inbox_simps(4) split: prod.splits option.splits)
qed

lemma feed_decodes:
  assumes "cc_reading c" and "decode_stream (cc_pending c) = ([], Some (cc_pending c))"
  shows "cc_inbound (cc_feed h ds c)
    = cc_inbound c @ map from_vector (fst (decode_stream (cc_pending c @ concat ds)))"
  using assms
proof (induction ds arbitrary: c)
  case Nil
  then show ?case by simp
next
  case (Cons d ds)
  let ?k = "cc_complete (ReadSome (cc_safe_link c)) c"
  let ?c = "cc_on_read h NoError d ?k"
  have feed: "cc_feed h (d # ds) c = cc_feed h ds ?c"
    using Cons.prems by (simp add: cc_reading_outstanding)
  have reads: "filter is_read_op (cc_ops ?k) = []"
    using Cons.prems(1) by (rule cc_reading_complete)
  obtain ms r where dec: "decode_stream (cc_pending c @ d) = (ms, r)"
    by fastforce
  then have split: "fst (decode_stream (cc_pending c @ d @ concat ds))
      = (case r of None \<Rightarrow> ms | Some r \<Rightarrow> ms @ fst (decode_stream (r @ concat ds)))"
    using decode_append [of "cc_pending c @ d" "concat ds"] by (auto split: option.splits)
  show ?case
  proof (cases r)
    case None
    with on_read_decodes [where c = ?k and d = d] dec obtain len buf
      where c: "?c = cc_shutdown (cc_inbox len buf (cc_inbound c @ map from_vector ms) ?k)"
      by auto
    with reads have "cc_feed h ds ?c = ?c"
      by (intro cc_feed_closed) simp
    with c feed split None show ?thesis by simp
  next
    case (Some rest)
    with on_read_decodes [where c = ?k and d = d] dec obtain len buf
      where c: "?c = cc_read_next (cc_inbox len buf (cc_inbound c @ map from_vector ms) ?k)"
        and rest: "cc_pending (cc_inbox len buf [] ?k) = rest"
      by auto
    then have "cc_reading ?c" "cc_pending ?c = rest"
      using reads by (auto intro: cc_read_next_reading)
    then show ?thesis
      using Cons.IH [of ?c] c feed split Some dec decode_incomplete [of "cc_pending c @ d" ms rest]
      by simp
  qed
qed

end

section \<open>Properties\<close>

text \<open>
  C4. However the peer's byte stream is cut into reads, the connection hands over exactly the
  payloads that the stream specification finds in it, in order: up to the last complete
  frame, or up to the first frame that announces length zero.
\<close>

theorem cluster_stream_segmentation:
  assumes "endian_host h" and "cc_reading c" and "cc_pending c = []"
  shows "cc_inbound (cc_feed h chunks c)
    = cc_inbound c @ map from_vector (fst (decode_stream (concat chunks)))"
  using endian_host.feed_decodes [OF assms(1,2)] assms(3) by simp

definition reading_example :: cluster_connection where
  "reading_example = cc_read_next (ClusterConnection True True 0)"

lemma reading_example_ok: "cc_reading reading_example" "cc_pending reading_example = []"
  "cc_inbound reading_example = []"
  by (simp_all add: reading_example_def ClusterConnection_def cc_reading_def cc_read_next_def
      cc_start_def cc_pending_def)

theorem cluster_stream_segmentation_witness:
  "cc_inbound (cc_feed big_host [[2, 0], [0, 0, 7], [8, 1, 0, 0, 0, 9]] reading_example)
     = [from_vector [7, 8], from_vector [9]]"
proof -
  have "concat [[2, 0], [0, 0, 7], [8, 1, 0, 0, 0, 9]] = concat (map frame [[7, 8], [9]])"
    by (simp add: frame_def le_bytes_def)
  moreover have "fst (decode_stream (concat (map frame [[7, 8], [9]]))) = [[7, 8], [9]]"
    by (subst decode_frames) (simp_all add: sendable_def)
  ultimately show ?thesis
    using cluster_stream_segmentation [OF big.endian_host_axioms reading_example_ok(1,2)]
      reading_example_ok(3) by (simp del: cc_feed.simps)
qed

end
