(* ===== verification/ClusterSafety.thy ===== *)
theory ClusterSafety
  imports ClusterFraming
begin

text \<open>
  The cluster connection as a state machine. \<open>cc_step\<close> lets the owner send a message or
  completes any outstanding operation with any error code and any data a read may return;
  handlers of one connection run in its strand, hence one at a time. \<open>cc_inv\<close> is the invariant:
  one operation at most in the chain handshake, read, read, ...; one message write at most, and
  none before the handshake is over; the memory handed to a write in progress keeps its contents
  until the write completes; the message queue is well formed. The connection also implements
  the interface \<open>message_writer\<close>.
\<close>

section \<open>Steps\<close>

text \<open>Which handler completes which operation.\<close>

fun cc_handler ::
    "host \<Rightarrow> cc_op \<Rightarrow> error_code \<Rightarrow> byte list \<Rightarrow> cluster_connection \<Rightarrow> crash + cluster_connection" where
  "cc_handler h (SslHandshake role) ec data c = cc_on_ssl_handshake h ec c"
| "cc_handler h (WriteHandshake d) ec data c = Inr (cc_on_ian_handshake_sent ec c)"
| "cc_handler h ReadHandshake ec data c = cc_on_ian_handshake h ec data c"
| "cc_handler h (ReadSome s) ec data c = Inr (cc_on_read h ec data c)"
| "cc_handler h (WriteMessage s d) ec data c = cc_on_write_message h ec c"
| "cc_handler h SslShutdown ec data c = Inr (cc_on_shutdown ec c)"
| "cc_handler h (SendTask m) ec data c = cc_send_task h m c"

inductive cc_step :: "host \<Rightarrow> cluster_connection \<Rightarrow> cluster_connection \<Rightarrow> bool" for h where
  owner_sends: "cc_step h c (cc_send_message m c)"
| op_completes: "op \<in> set (cc_ops c) \<Longrightarrow> length data \<le> read_chunk_size \<Longrightarrow>
    cc_handler h op ec data (cc_complete op c) = Inr c' \<Longrightarrow> cc_step h c c'"

section \<open>Counting outstanding operations\<close>

fun is_setup_op :: "cc_op \<Rightarrow> bool" where
  "is_setup_op (SslHandshake r) = True"
| "is_setup_op (WriteHandshake d) = True"
| "is_setup_op ReadHandshake = True"
| "is_setup_op _ = False"

definition is_chain_op :: "cc_op \<Rightarrow> bool" where
  "is_chain_op op \<longleftrightarrow> is_setup_op op \<or> is_read_op op"

fun is_write_op :: "cc_op \<Rightarrow> bool" where
  "is_write_op (WriteMessage s d) = True"
| "is_write_op _ = False"

definition cc_count :: "(cc_op \<Rightarrow> bool) \<Rightarrow> cluster_connection \<Rightarrow> nat" where
  "cc_count P c = length (filter P (cc_ops c))"

lemma cc_count_start [simp]: "cc_count P (cc_start op c) = cc_count P c + (if P op then 1 else 0)"
  by (simp add: cc_count_def cc_start_def)

lemma cc_count_complete:
  "op \<in> set (cc_ops c) \<Longrightarrow> cc_count P (cc_complete op c) = cc_count P c - (if P op then 1 else 0)"
  by (simp add: cc_count_def cc_complete_def filter_remove1_same filter_remove1_other length_remove1)

lemma cc_count_pos: "op \<in> set (cc_ops c) \<Longrightarrow> P op \<Longrightarrow> 0 < cc_count P c"
  by (auto simp: cc_count_def filter_empty_conv)

lemma cc_count_0: "cc_count P c = 0 \<longleftrightarrow> (\<forall>op \<in> set (cc_ops c). \<not> P op)"
  by (auto simp: cc_count_def filter_empty_conv)

lemma cc_count_updates [simp]:
  "cc_count P (c\<lparr>cc_message_outbound := m\<rparr>) = cc_count P c"
  "cc_count P (c\<lparr>cc_out_message_len_le := l\<rparr>) = cc_count P c"
  "cc_count P (c\<lparr>cc_message_queue := q\<rparr>) = cc_count P c"
  "cc_count P (c\<lparr>cc_is_writing := b\<rparr>) = cc_count P c"
  "cc_count P (c\<lparr>cc_read_buffer := buf\<rparr>) = cc_count P c"
  "cc_count P (c\<lparr>cc_in_message_len := l\<rparr>) = cc_count P c"
  by (simp_all add: cc_count_def)

lemma cc_count_cong: "cc_ops c = cc_ops c' \<Longrightarrow> cc_count P c = cc_count P c'"
  by (simp add: cc_count_def)

lemma is_chain_op_simps [simp]:
  "is_setup_op op \<Longrightarrow> is_chain_op op" "is_chain_op (ReadSome s)"
  "\<not> is_chain_op (WriteMessage s d)" "\<not> is_chain_op SslShutdown" "\<not> is_chain_op (SendTask m)"
  by (simp_all add: is_chain_op_def)

lemma setup_le_chain: "cc_count is_setup_op c \<le> cc_count is_chain_op c"
proof -
  have "length (filter is_setup_op xs) \<le> length (filter is_chain_op xs)" for xs
    by (induction xs) (auto simp: is_chain_op_def)
  then show ?thesis by (simp add: cc_count_def)
qed

section \<open>Invariant\<close>

definition cc_sent_bytes :: "host \<Rightarrow> cluster_connection \<Rightarrow> byte list" where
  "cc_sent_bytes h c = store32 h (cc_out_message_len_le c) @ message_bytes (cc_message_outbound c)"

definition cc_write_stable :: "host \<Rightarrow> cluster_connection \<Rightarrow> byte list \<Rightarrow> bool" where
  "cc_write_stable h c d \<longleftrightarrow> \<not> is_empty (cc_message_outbound c) \<and> d = cc_sent_bytes h c
     \<and> cc_out_message_len_le c
       = native_to_little h (of_nat (length (message_bytes (cc_message_outbound c))))"

fun cc_op_ok :: "host \<Rightarrow> cluster_connection \<Rightarrow> cc_op \<Rightarrow> bool" where
  "cc_op_ok h c (WriteHandshake d) = cc_write_stable h c d"
| "cc_op_ok h c (WriteMessage s d) = cc_write_stable h c d"
| "cc_op_ok h c (SendTask m) = (\<not> is_empty m)"
| "cc_op_ok h c _ = True"

definition cc_inv :: "host \<Rightarrow> cluster_connection \<Rightarrow> bool" where
  "cc_inv h c \<longleftrightarrow>
     mq_wf (cc_message_queue c)
     \<and> cc_count is_chain_op c \<le> 1
     \<and> cc_count is_write_op c \<le> 1
     \<and> (0 < cc_count is_setup_op c \<longrightarrow> cc_is_writing c \<and> cc_count is_write_op c = 0)
     \<and> (0 < cc_count is_write_op c \<longrightarrow> cc_is_writing c)
     \<and> (\<forall>op \<in> set (cc_ops c). cc_op_ok h c op)
     \<and> (cc_dropped c \<longrightarrow> \<not> cc_socket_open c)
     \<and> (SslShutdown \<in> set (cc_ops c) \<longrightarrow> cc_shutting_down c)"

lemma cc_invD:
  assumes "cc_inv h c"
  shows "mq_wf (cc_message_queue c)" "cc_dropped c \<Longrightarrow> \<not> cc_socket_open c"
    "op \<in> set (cc_ops c) \<Longrightarrow> cc_op_ok h c op"
    "cc_count is_chain_op c \<le> 1" "cc_count is_write_op c \<le> 1"
    "0 < cc_count is_setup_op c \<Longrightarrow> cc_is_writing c"
    "0 < cc_count is_setup_op c \<Longrightarrow> cc_count is_write_op c = 0"
    "0 < cc_count is_write_op c \<Longrightarrow> cc_is_writing c"
    "SslShutdown \<in> set (cc_ops c) \<Longrightarrow> cc_shutting_down c"
  using assms unfolding cc_inv_def by blast+

text \<open>States that agree on the fields the invariant reads, up to flags that may only rise.\<close>

definition cc_agree :: "cluster_connection \<Rightarrow> cluster_connection \<Rightarrow> bool" where
  "cc_agree c c' \<longleftrightarrow>
     cc_ops c' = cc_ops c \<and> cc_message_outbound c' = cc_message_outbound c
     \<and> cc_out_message_len_le c' = cc_out_message_len_le c
     \<and> (cc_is_writing c \<longrightarrow> cc_is_writing c') \<and> (cc_shutting_down c \<longrightarrow> cc_shutting_down c')"

lemma cc_start_simps [simp]:
  "cc_ops (cc_start op c) = cc_ops c @ [op]"
  "cc_dropped (cc_start op c) = cc_dropped c"
  "cc_shutting_down (cc_start op c) = cc_shutting_down c"
  "cc_is_writing (cc_start op c) = cc_is_writing c"
  "cc_socket_open (cc_start op c) = cc_socket_open c"
  "cc_message_queue (cc_start op c) = cc_message_queue c"
  "cc_message_outbound (cc_start op c) = cc_message_outbound c"
  "cc_out_message_len_le (cc_start op c) = cc_out_message_len_le c"
  by (simp_all add: cc_start_def)

lemma cc_op_ok_start [simp]: "cc_op_ok h (cc_start op c) op' = cc_op_ok h c op'"
  by (cases op') (simp_all add: cc_write_stable_def cc_sent_bytes_def)

lemma cc_op_ok_cong: "cc_agree c c' \<Longrightarrow> cc_op_ok h c' op = cc_op_ok h c op"
  by (cases op) (simp_all add: cc_agree_def cc_write_stable_def cc_sent_bytes_def)

lemma cc_inv_agree:
  assumes "cc_inv h c" and "cc_agree c c'" and "mq_wf (cc_message_queue c')"
    and "cc_dropped c' \<Longrightarrow> \<not> cc_socket_open c'"
  shows "cc_inv h c'"
proof -
  have "cc_count P c' = cc_count P c" for P
    using assms(2) by (simp add: cc_agree_def cc_count_def)
  moreover have "cc_op_ok h c' = cc_op_ok h c"
    using assms(2) by (intro ext cc_op_ok_cong)
  moreover have "cc_ops c' = cc_ops c" "cc_is_writing c \<longrightarrow> cc_is_writing c'"
    "cc_shutting_down c \<longrightarrow> cc_shutting_down c'"
    using assms(2) by (simp_all add: cc_agree_def)
  ultimately show ?thesis
    using assms(1,3,4) unfolding cc_inv_def by presburger
qed

lemma cc_start_other:
  assumes "cc_inv h c" and "\<not> is_chain_op op" and "\<not> is_write_op op" and "cc_op_ok h c op"
    and "op = SslShutdown \<Longrightarrow> cc_shutting_down c"
  shows "cc_inv h (cc_start op c)"
proof -
  have "\<not> is_setup_op op"
    using assms(2) by (auto simp: is_chain_op_def)
  with assms show ?thesis
    unfolding cc_inv_def by simp
qed

lemma cc_start_chain:
  assumes "cc_inv h c" and "cc_count is_chain_op c = 0" and "is_chain_op op"
    and "is_setup_op op \<Longrightarrow> cc_is_writing c \<and> cc_count is_write_op c = 0" and "cc_op_ok h c op"
  shows "cc_inv h (cc_start op c)"
proof -
  have "\<not> is_write_op op" "op \<noteq> SslShutdown"
    using assms(3) by (cases op; simp)+
  moreover have "cc_count is_setup_op c = 0"
    using setup_le_chain [of c] assms(2) by simp
  ultimately show ?thesis
    using assms unfolding cc_inv_def by simp
qed

lemma cc_complete_inv:
  assumes "cc_inv h c" and "op \<in> set (cc_ops c)"
  shows "cc_inv h (cc_complete op c)"
proof -
  have "cc_op_ok h (cc_complete op c) op' = cc_op_ok h c op'" for op'
    by (cases op') (simp_all add: cc_complete_def cc_write_stable_def cc_sent_bytes_def)
  moreover have "set (cc_ops (cc_complete op c)) \<subseteq> set (cc_ops c)"
    by (simp add: cc_complete_def set_remove1_subset)
  moreover have "cc_is_writing (cc_complete op c) = cc_is_writing c" "cc_dropped (cc_complete op c) = cc_dropped c"
    "cc_socket_open (cc_complete op c) = cc_socket_open c"
    "cc_shutting_down (cc_complete op c) = cc_shutting_down c"
    "cc_message_queue (cc_complete op c) = cc_message_queue c"
    by (simp_all add: cc_complete_def)
  ultimately show ?thesis
    using assms by (auto simp: cc_inv_def cc_count_complete)
qed

section \<open>Every handler keeps the invariant\<close>

lemma cc_abort_inv: "cc_inv h c \<Longrightarrow> cc_inv h (cc_abort c)"
  by (rule cc_inv_agree)
    (auto simp: cc_abort_def cc_agree_def Let_def mq.wf_clear cc_invD)

lemma cc_shutdown_inv:
  assumes "cc_inv h c"
  shows "cc_inv h (cc_shutdown c)"
proof -
  let ?c = "c\<lparr>cc_message_queue := mq_clear (cc_message_queue c), cc_shutting_down := True\<rparr>"
  have "cc_inv h ?c"
    using assms by (rule cc_inv_agree) (use assms in \<open>auto simp: cc_agree_def mq.wf_clear cc_invD\<close>)
  then have "cc_inv h (cc_start SslShutdown ?c)"
    by (rule cc_start_other) simp_all
  moreover have "cc_start SslShutdown ?c
      = (cc_start SslShutdown (c\<lparr>cc_message_queue := mq_clear (cc_message_queue c)\<rparr>))\<lparr>cc_shutting_down := True\<rparr>"
    by (simp add: cc_start_def)
  moreover have "cc_inv h (c\<lparr>cc_message_queue := mq_clear (cc_message_queue c)\<rparr>)"
    using assms by (rule cc_inv_agree) (use assms in \<open>auto simp: cc_agree_def mq.wf_clear cc_invD\<close>)
  ultimately show ?thesis
    using assms cc_abort_inv by (simp add: cc_shutdown_def Let_def)
qed

lemma cc_error_inv:
  "cc_inv h c \<Longrightarrow> cc_inv h (cc_handle_read_error ec c)"
  "cc_inv h c \<Longrightarrow> cc_inv h (cc_handle_write_error ec c)"
  by (simp_all add: cc_handle_read_error_def cc_handle_write_error_def cc_abort_inv cc_shutdown_inv)

lemma cc_on_shutdown_inv: "cc_inv h c \<Longrightarrow> cc_inv h (cc_on_shutdown ec c)"
  by (rule cc_inv_agree) (auto simp: cc_on_shutdown_def cc_agree_def cc_invD)

text \<open>Without a write in progress, the outbound message and the write flag are free.\<close>

definition cc_idle :: "cluster_connection \<Rightarrow> bool" where
  "cc_idle c \<longleftrightarrow> cc_count is_write_op c = 0 \<and> cc_count is_setup_op c = 0"

lemma cc_idle_op_ok: "cc_idle c \<Longrightarrow> op \<in> set (cc_ops c) \<Longrightarrow> cc_op_ok h c op = cc_op_ok h c' op"
  by (cases op) (auto simp: cc_idle_def cc_count_0)

lemma cc_idle_inv:
  assumes "cc_inv h c" and "cc_idle c" and "cc_ops c' = cc_ops c" and "mq_wf (cc_message_queue c')"
    and "cc_dropped c' \<Longrightarrow> \<not> cc_socket_open c'" and "cc_shutting_down c \<Longrightarrow> cc_shutting_down c'"
  shows "cc_inv h c'"
proof -
  have cnt: "cc_count P c' = cc_count P c" for P
    using assms(3) by (rule cc_count_cong)
  moreover have "\<forall>op \<in> set (cc_ops c'). cc_op_ok h c' op"
    using assms(1,3) cc_idle_op_ok [OF assms(2)] by (metis cc_inv_def)
  ultimately show ?thesis
    using assms unfolding cc_inv_def cc_idle_def by simp
qed

lemma cc_idle_updates [simp]:
  "cc_idle (c\<lparr>cc_message_outbound := m\<rparr>) = cc_idle c"
  "cc_idle (c\<lparr>cc_out_message_len_le := l\<rparr>) = cc_idle c"
  "cc_idle (c\<lparr>cc_message_queue := q\<rparr>) = cc_idle c"
  "cc_idle (c\<lparr>cc_is_writing := b\<rparr>) = cc_idle c"
  "cc_idle (c\<lparr>cc_read_buffer := buf\<rparr>) = cc_idle c"
  "cc_idle (c\<lparr>cc_in_message_len := l32\<rparr>) = cc_idle c"
  by (simp_all add: cc_idle_def)

lemma ucast_of_nat_u64: "(ucast (of_nat n :: u64) :: u32) = of_nat n"
  by (rule unsigned_word_eqI) (simp add: unsigned_ucast_eq unsigned_of_nat min_def)

lemma cc_start_write:
  assumes "cc_inv h c" and "cc_idle c" and "cc_is_writing c" and "cc_write_stable h c d"
  shows "cc_inv h (cc_start (WriteMessage s d) c)"
  using assms unfolding cc_inv_def cc_idle_def by simp

lemma cc_do_write_message_eq:
  assumes "\<not> is_empty m"
  shows "cc_do_write_message h m c =
    (let c' = c\<lparr>cc_message_outbound := m,
                cc_out_message_len_le := native_to_little h (of_nat (length (message_bytes m)))\<rparr>
     in Inr (cc_start (WriteMessage (cc_safe_link c) (cc_sent_bytes h c')) c'))"
  using assms
  by (simp add: cc_do_write_message_def message_size_some message_data_some cc_sent_bytes_def
      ucast_of_nat_u64 Let_def)

lemma cc_do_write_message_inv:
  assumes "cc_inv h c" and "cc_idle c" and "cc_is_writing c" and "\<not> is_empty m"
  shows "\<exists>c'. cc_do_write_message h m c = Inr c' \<and> cc_inv h c'"
proof -
  let ?c = "c\<lparr>cc_message_outbound := m,
    cc_out_message_len_le := native_to_little h (of_nat (length (message_bytes m)))\<rparr>"
  have "cc_inv h ?c"
    using assms(1,2) by (rule cc_idle_inv) (use assms(1) in \<open>simp_all add: cc_invD\<close>)
  then have "cc_inv h (cc_start (WriteMessage (cc_safe_link c) (cc_sent_bytes h ?c)) ?c)"
    by (rule cc_start_write) (use assms in \<open>simp_all add: cc_write_stable_def\<close>)
  then show ?thesis
    by (simp add: cc_do_write_message_eq assms(4) Let_def)
qed

lemma cc_write_next_inv:
  assumes "cc_inv h c" and "cc_idle c" and "cc_is_writing c"
  shows "\<exists>c'. cc_write_next h c = Inr c' \<and> cc_inv h c'"
proof (cases "mq_contents (cc_message_queue c)")
  case Nil
  have "cc_inv h (c\<lparr>cc_is_writing := False\<rparr>)"
    using assms(1,2) by (rule cc_idle_inv) (use assms(1) in \<open>simp_all add: cc_invD\<close>)
  with Nil assms(1) show ?thesis
    by (simp add: cc_write_next_def mq.pop_none cc_invD)
next
  case (Cons m ms)
  then obtain q where q: "mq_try_pop Message (cc_message_queue c) = Inr (True, m, q)" "mq_wf q"
    using assms(1) mq_pop_some [of "cc_message_queue c" m ms Message] by (auto dest: cc_invD)
  have m: "\<not> is_empty m"
    using assms(1) Cons mq.wf_good [of "cc_message_queue c" m] by (auto dest: cc_invD)
  have "cc_inv h (c\<lparr>cc_message_queue := q\<rparr>)"
    using assms(1,2) by (rule cc_idle_inv) (use assms(1) q in \<open>simp_all add: cc_invD\<close>)
  then show ?thesis
    using q m assms cc_do_write_message_inv [of h "c\<lparr>cc_message_queue := q\<rparr>" m]
    by (simp add: cc_write_next_def)
qed

lemma cc_send_message_inv: "cc_inv h c \<Longrightarrow> cc_inv h (cc_send_message m c)"
  by (simp add: cc_send_message_def) (intro impI cc_start_other; simp)

lemma cc_not_writing_idle: "cc_inv h c \<Longrightarrow> \<not> cc_is_writing c \<Longrightarrow> cc_idle c"
  using cc_invD(6,8) unfolding cc_idle_def by blast

lemma cc_send_task_inv:
  assumes "cc_inv h c" and "\<not> is_empty m"
  shows "\<exists>c'. cc_send_task h m c = Inr c' \<and> cc_inv h c'"
proof (cases "cc_dropped c \<or> cc_shutting_down c")
  case True
  with assms show ?thesis by (simp add: cc_send_task_def)
next
  case live: False
  show ?thesis
  proof (cases "cc_is_writing c")
    case True
    obtain q where "mq_push m (cc_message_queue c) = Inr q" "mq_wf q"
      using mq_push_ok [OF cc_invD(1) assms(2)] assms(1) by blast
    moreover from this(2) have "cc_inv h (c\<lparr>cc_message_queue := q\<rparr>)"
      using assms(1) by (intro cc_inv_agree [OF assms(1)]) (simp_all add: cc_agree_def cc_invD)
    ultimately show ?thesis
      using live True by (simp add: cc_send_task_def)
  next
    case False
    let ?c = "c\<lparr>cc_is_writing := True\<rparr>"
    have "cc_inv h ?c"
      using assms(1) by (intro cc_inv_agree [OF assms(1)]) (simp_all add: cc_agree_def cc_invD)
    moreover have "cc_idle ?c"
      using assms(1) False by (simp add: cc_not_writing_idle)
    ultimately show ?thesis
      using cc_do_write_message_inv [of h ?c m] assms(2) live False by (simp add: cc_send_task_def)
  qed
qed

text \<open>Right after a setup operation completed.\<close>

definition cc_handshaking :: "cluster_connection \<Rightarrow> bool" where
  "cc_handshaking c \<longleftrightarrow>
     cc_count is_chain_op c = 0 \<and> cc_count is_write_op c = 0 \<and> cc_is_writing c"

lemma cc_handshaking_idle: "cc_handshaking c \<Longrightarrow> cc_idle c"
  using setup_le_chain [of c] by (simp add: cc_handshaking_def cc_idle_def)

lemma cc_handshaking_updates [simp]:
  "cc_handshaking (c\<lparr>cc_message_outbound := m\<rparr>) = cc_handshaking c"
  "cc_handshaking (c\<lparr>cc_out_message_len_le := l\<rparr>) = cc_handshaking c"
  "cc_handshaking (c\<lparr>cc_read_buffer := buf\<rparr>) = cc_handshaking c"
  "cc_handshaking (c\<lparr>cc_in_message_len := l32\<rparr>) = cc_handshaking c"
  by (simp_all add: cc_handshaking_def)

lemma cc_start_setup:
  assumes "cc_inv h c" and "cc_handshaking c" and "is_setup_op op" and "cc_op_ok h c op"
  shows "cc_inv h (cc_start op c)"
  using assms by (intro cc_start_chain) (simp_all add: cc_handshaking_def)

lemma cc_on_ssl_handshake_inv:
  assumes "cc_inv h c" and "cc_handshaking c" and "cc_on_ssl_handshake h ec c = Inr c'"
  shows "cc_inv h c'"
proof (cases "ec = NoError")
  case False
  with assms show ?thesis by (auto simp: cc_on_ssl_handshake_def cc_abort_inv)
next
  case True
  with assms(3) have ne: "\<not> is_empty (cc_message_outbound c)"
    by (auto simp: cc_on_ssl_handshake_def message_size_none)
  let ?c = "c\<lparr>cc_out_message_len_le :=
    native_to_little h (of_nat (length (message_bytes (cc_message_outbound c))))\<rparr>"
  have c': "c' = cc_start (WriteHandshake (cc_sent_bytes h ?c)) ?c"
    using assms(3) True ne
    by (simp add: cc_on_ssl_handshake_def message_size_some message_data_some cc_sent_bytes_def
        ucast_of_nat_u64 Let_def)
  have "cc_inv h ?c"
    using assms(1) cc_handshaking_idle [OF assms(2)]
    by (rule cc_idle_inv) (use assms(1) in \<open>simp_all add: cc_invD\<close>)
  then show ?thesis
    unfolding c' by (rule cc_start_setup) (use assms(2) ne in \<open>simp_all add: cc_write_stable_def\<close>)
qed

lemma cc_reset_outbound_inv:
  "cc_inv h c \<Longrightarrow> cc_idle c \<Longrightarrow> cc_inv h (c\<lparr>cc_message_outbound := m\<rparr>)"
  by (rule cc_idle_inv) (simp_all add: cc_invD)

lemma cc_on_ian_handshake_sent_inv:
  assumes "cc_inv h c" and "cc_handshaking c"
  shows "cc_inv h (cc_on_ian_handshake_sent ec c)"
proof -
  have "cc_inv h (c\<lparr>cc_message_outbound := Message\<rparr>)"
    using assms by (simp add: cc_reset_outbound_inv cc_handshaking_idle)
  with assms(2) show ?thesis
    by (simp add: cc_on_ian_handshake_sent_def cc_error_inv cc_start_setup Let_def)
qed

lemma cc_inbox_inv: "cc_inv h c \<Longrightarrow> cc_inv h (cc_inbox len buf ms c)"
  by (rule cc_inv_agree) (auto simp: cc_agree_def cc_inbox_def dest: cc_invD)

lemma cc_count_inbox [simp]: "cc_count P (cc_inbox len buf ms c) = cc_count P c"
  by (simp add: cc_count_def)

lemma cc_read_next_inv: "cc_inv h c \<Longrightarrow> cc_count is_chain_op c = 0 \<Longrightarrow> cc_inv h (cc_read_next c)"
  unfolding cc_read_next_def by (rule cc_start_chain) simp_all

lemma cc_on_ian_handshake_inv:
  assumes "cc_inv h c" and "cc_handshaking c"
  shows "\<exists>c'. cc_on_ian_handshake h ec data c = Inr c' \<and> cc_inv h c'"
proof -
  have inbox: "cc_inv h (cc_inbox len buf (cc_inbound c) c)"
    "cc_handshaking (cc_inbox len buf (cc_inbound c) c)" for len buf
    using assms by (simp_all add: cc_inbox_inv) (simp add: cc_handshaking_def cc_inbox_def cc_count_def)
  then have next_ok: "\<exists>c'. cc_write_next h (cc_read_next (cc_inbox len buf (cc_inbound c) c)) = Inr c'
      \<and> cc_inv h c'" for len buf
    using cc_handshaking_idle [OF assms(2)]
    by (intro cc_write_next_inv cc_read_next_inv)
      (simp_all add: cc_handshaking_def cc_read_next_def cc_idle_def)
  have c1: "c\<lparr>cc_read_buffer := b\<rparr> = cc_inbox (cc_in_message_len c) b (cc_inbound c) c" for b
    by (simp add: cc_inbox_def)
  show ?thesis
  proof (cases "ec = NoError \<and> cc_in_message_len c = 0")
    case True
    then show ?thesis
      using inbox next_ok
      by (simp add: cc_on_ian_handshake_def c1 Let_def cc_extract_length_inbox cc_shutdown_inv cc_start_setup
          del: drop_append take_append)
  next
    case False
    then show ?thesis
      using assms(1) inbox next_ok
      by (simp add: cc_on_ian_handshake_def c1 Let_def cc_error_inv cc_shutdown_inv cc_start_setup
          del: drop_append)
  qed
qed

lemma cc_read_loop_shape:
  "\<exists>len buf ms. cc_read_loop h c = (False, cc_inbox len buf ms c)
     \<or> cc_read_loop h c = (True, cc_shutdown (cc_inbox len buf ms c))"
proof (induction "length (cc_read_buffer c)" arbitrary: c rule: less_induct)
  case less
  have step: ?case
    if "cc_read_loop h c = cc_read_loop h (cc_inbox len buf ms c)"
      and "length buf < length (cc_read_buffer c)" for len buf ms
    using less.hyps [of "cc_inbox len buf ms c"] that by simp
  have stop: ?case if "cc_read_loop h c = (False, c)"
    using that cc_inbox_self [of c] by metis
  show ?case
  proof (cases "cc_in_message_len c = 0")
    case False
    show ?thesis
    proof (cases "length (cc_read_buffer c) < unat (cc_in_message_len c)")
      case True
      with False show ?thesis by (intro stop) (simp add: cc_read_loop_known)
    next
      case enough: False
      have "cc_read_loop h c = cc_read_loop h (cc_inbox 0 (drop (unat (cc_in_message_len c)) (cc_read_buffer c))
          (cc_inbound c @ [from_vector (take (unat (cc_in_message_len c)) (cc_read_buffer c))]) c)"
        using False enough by (simp add: cc_read_loop_known Let_def)
      then show ?thesis
        by (rule step) (use enough unat_pos [OF False] in \<open>simp only: length_drop\<close>)
    qed
  next
    case True
    then show ?thesis
      using stop step [of _ "drop 4 (cc_read_buffer c)" "cc_inbound c"]
      by (cases "length (cc_read_buffer c) < 4")
        (auto simp: cc_read_loop_unknown cc_extract_length_inbox)
  qed
qed

text \<open>How a read ends.\<close>

lemma on_read_cases:
  obtains (error) "cc_on_read h ec data c = cc_handle_read_error ec c" "ec \<noteq> NoError"
  | (next_read) len buf ms where "cc_on_read h ec data c = cc_read_next (cc_inbox len buf ms c)" "ec = NoError"
  | (refused) len buf ms where "cc_on_read h ec data c = cc_shutdown (cc_inbox len buf ms c)" "ec = NoError"
proof (cases "ec = NoError")
  case True
  let ?c = "c\<lparr>cc_read_buffer := cc_read_buffer c @ data\<rparr>"
  obtain len buf ms where
    "cc_read_loop h ?c = (False, cc_inbox len buf ms ?c) \<or> cc_read_loop h ?c = (True, cc_shutdown (cc_inbox len buf ms ?c))"
    using cc_read_loop_shape by blast
  moreover have "cc_inbox len buf ms ?c = cc_inbox len buf ms c"
    by (simp add: cc_inbox_def)
  ultimately have "cc_on_read h ec data c = cc_read_next (cc_inbox len buf ms c)
      \<or> cc_on_read h ec data c = cc_shutdown (cc_inbox len buf ms c)"
    using True by (auto simp: cc_on_read_def)
  with True show thesis
    by (auto intro: that(2,3))
qed (use that(1) in \<open>simp add: cc_on_read_def\<close>)

lemma cc_on_read_inv:
  assumes "cc_inv h c" and "cc_count is_chain_op c = 0"
  shows "cc_inv h (cc_on_read h ec data c)"
  by (cases rule: on_read_cases [of h ec data c])
    (use assms in \<open>auto simp: cc_error_inv cc_shutdown_inv cc_inbox_inv cc_read_next_inv\<close>)

lemma cc_on_write_message_inv:
  assumes "cc_inv h c" and "cc_idle c" and "cc_is_writing c"
  shows "\<exists>c'. cc_on_write_message h ec c = Inr c' \<and> cc_inv h c'"
  using cc_reset_outbound_inv [OF assms(1,2), of Message] assms
    cc_write_next_inv [of h "c\<lparr>cc_message_outbound := Message\<rparr>"]
  by (auto simp: cc_on_write_message_def cc_error_inv Let_def)

section \<open>Every step keeps the invariant; only one handler can fail\<close>

lemma cc_completed:
  assumes "cc_inv h c" and "op \<in> set (cc_ops c)"
  shows "is_setup_op op \<Longrightarrow> cc_handshaking (cc_complete op c)"
    and "is_chain_op op \<Longrightarrow> cc_count is_chain_op (cc_complete op c) = 0"
    and "is_write_op op \<Longrightarrow> cc_idle (cc_complete op c) \<and> cc_is_writing (cc_complete op c)"
proof -
  have chain: "cc_count is_chain_op (cc_complete op c) = 0" if "is_chain_op op"
    using cc_invD(4) [OF assms(1)] that by (simp add: cc_count_complete assms(2))
  then show "is_chain_op op \<Longrightarrow> cc_count is_chain_op (cc_complete op c) = 0" .
  show "cc_handshaking (cc_complete op c)" if "is_setup_op op"
  proof -
    have "0 < cc_count is_setup_op c"
      using assms(2) that by (rule cc_count_pos)
    with chain that cc_invD(6,7) [OF assms(1)] show ?thesis
      by (simp add: cc_handshaking_def cc_count_complete assms(2)) (simp add: cc_complete_def)
  qed
  show "cc_idle (cc_complete op c) \<and> cc_is_writing (cc_complete op c)" if "is_write_op op"
  proof -
    have w: "0 < cc_count is_write_op c"
      using assms(2) that by (rule cc_count_pos)
    then have "cc_count is_setup_op c = 0"
      using cc_invD(7) [OF assms(1)] by fastforce
    with w that cc_invD(5,8) [OF assms(1)] show ?thesis
      by (simp add: cc_idle_def cc_count_complete assms(2)) (simp add: cc_complete_def)
  qed
qed

lemma cc_on_ssl_handshake_Inl:
  assumes "cc_on_ssl_handshake h ec c = Inl e"
  shows "ec = NoError \<and> is_empty (cc_message_outbound c) \<and> e = NullDereference"
proof (cases "is_empty (cc_message_outbound c)")
  case True
  with assms show ?thesis
    by (simp add: cc_on_ssl_handshake_def message_size_none split: if_splits)
next
  case False
  with assms show ?thesis
    by (simp add: cc_on_ssl_handshake_def message_size_some message_data_some Let_def split: if_splits)
qed

lemma cc_handler_inv:
  assumes "cc_inv h c" and "op \<in> set (cc_ops c)"
  shows "(\<exists>c'. cc_handler h op ec data (cc_complete op c) = Inr c' \<and> cc_inv h c')
    \<or> (\<exists>role. op = SslHandshake role) \<and> ec = NoError \<and> is_empty (cc_message_outbound c)
       \<and> cc_handler h op ec data (cc_complete op c) = Inl NullDereference"
proof -
  note kept = cc_complete_inv [OF assms]
  show ?thesis
  proof (cases op)
    case (SslHandshake role)
    have hs: "cc_handshaking (cc_complete op c)"
      using cc_completed(1) [OF assms] SslHandshake by simp
    show ?thesis
    proof (cases "cc_on_ssl_handshake h ec (cc_complete op c)")
      case (Inr c')
      with kept hs SslHandshake show ?thesis by (auto dest: cc_on_ssl_handshake_inv)
    next
      case (Inl e)
      then have "ec = NoError" "is_empty (cc_message_outbound (cc_complete op c))" "e = NullDereference"
        using cc_on_ssl_handshake_Inl by blast+
      with Inl SslHandshake show ?thesis by (simp add: cc_complete_def)
    qed
  next
    case (WriteHandshake d)
    with kept cc_completed(1) [OF assms] show ?thesis by (simp add: cc_on_ian_handshake_sent_inv)
  next
    case ReadHandshake
    with kept cc_completed(1) [OF assms] show ?thesis by (simp add: cc_on_ian_handshake_inv)
  next
    case (ReadSome s)
    with kept cc_completed(2) [OF assms] show ?thesis by (simp add: cc_on_read_inv)
  next
    case (WriteMessage s d)
    with kept cc_completed(3) [OF assms] show ?thesis by (simp add: cc_on_write_message_inv)
  next
    case SslShutdown
    with kept show ?thesis by (simp add: cc_on_shutdown_inv)
  next
    case (SendTask m)
    with kept cc_invD(3) [OF assms] show ?thesis by (simp add: cc_send_task_inv)
  qed
qed

lemma cc_step_inv: "cc_step h c c' \<Longrightarrow> cc_inv h c \<Longrightarrow> cc_inv h c'"
proof (induction rule: cc_step.induct)
  case (owner_sends c m)
  then show ?case by (simp add: cc_send_message_inv)
next
  case (op_completes op c data ec c')
  then show ?case using cc_handler_inv [of h c op ec data] by auto
qed

section \<open>The connection is a message writer\<close>

definition cc_inflight :: "cluster_connection \<Rightarrow> message list" where
  "cc_inflight c = (if cc_count is_write_op c = 0 then [] else [cc_message_outbound c])"

definition cc_waiting :: "cluster_connection \<Rightarrow> message list" where
  "cc_waiting c = mq_contents (cc_message_queue c)"

definition cc_finished :: "host \<Rightarrow> cluster_connection \<Rightarrow> crash + cluster_connection" where
  "cc_finished h c =
     (case filter is_write_op (cc_ops c) of
        [] \<Rightarrow> Inr c
      | op # _ \<Rightarrow> cc_on_write_message h NoError (cc_complete op c))"

fun op_data :: "cc_op \<Rightarrow> byte list" where
  "op_data (WriteMessage s d) = d"
| "op_data _ = []"

definition cc_wire :: "cluster_connection \<Rightarrow> byte list list" where
  "cc_wire c = map op_data (filter is_write_op (cc_ops c))"

text \<open>The handshake is over and the connection is neither dropped nor shutting down.\<close>

definition cc_ready :: "host \<Rightarrow> cluster_connection \<Rightarrow> bool" where
  "cc_ready h c \<longleftrightarrow>
     cc_inv h c \<and> \<not> cc_dropped c \<and> \<not> cc_shutting_down c \<and> cc_count is_setup_op c = 0
     \<and> (cc_is_writing c \<longleftrightarrow> 0 < cc_count is_write_op c)
     \<and> (cc_waiting c \<noteq> [] \<longrightarrow> cc_is_writing c)"

lemma cc_write_started:
  assumes "cc_inv h c" and "cc_idle c" and "cc_is_writing c" and "\<not> is_empty m"
    and "\<not> cc_dropped c" and "\<not> cc_shutting_down c"
  shows "\<exists>c'. cc_do_write_message h m c = Inr c' \<and> cc_ready h c'
           \<and> cc_inflight c' = [m] \<and> cc_waiting c' = cc_waiting c"
proof -
  let ?c1 = "c\<lparr>cc_message_outbound := m,
    cc_out_message_len_le := native_to_little h (of_nat (length (message_bytes m)))\<rparr>"
  define c2 where "c2 = cc_start (WriteMessage (cc_safe_link c) (cc_sent_bytes h ?c1)) ?c1"
  have c': "cc_do_write_message h m c = Inr c2"
    using assms(4) by (simp add: cc_do_write_message_eq Let_def c2_def)
  have "cc_count is_write_op c2 = 1" "cc_count is_setup_op c2 = 0"
    using assms(2) by (simp_all add: c2_def cc_idle_def)
  moreover have "cc_message_outbound c2 = m" "cc_message_queue c2 = cc_message_queue c"
    "cc_is_writing c2" "\<not> cc_dropped c2" "\<not> cc_shutting_down c2"
    using assms(3,5,6) by (simp_all add: c2_def)
  moreover have "cc_inv h c2"
    using cc_do_write_message_inv [OF assms(1-4)] c' by simp
  ultimately have "cc_ready h c2" "cc_inflight c2 = [m]" "cc_waiting c2 = cc_waiting c"
    by (simp_all add: cc_ready_def cc_inflight_def cc_waiting_def)
  with c' show ?thesis by blast
qed

lemma cc_send_ready:
  assumes "cc_ready h c" and "\<not> is_empty m"
  shows "\<exists>c'. cc_send_task h m c = Inr c' \<and> cc_ready h c'
           \<and> cc_inflight c' @ cc_waiting c' = cc_inflight c @ cc_waiting c @ [m]"
proof (cases "cc_is_writing c")
  case True
  obtain q where q: "mq_push m (cc_message_queue c) = Inr q" "mq_wf q"
      "mq_contents q = mq_contents (cc_message_queue c) @ [m]"
    using mq_push_ok [OF cc_invD(1) assms(2)] assms(1) cc_ready_def by blast
  have inv: "cc_inv h c"
    using assms(1) by (simp add: cc_ready_def)
  have "cc_inv h (c\<lparr>cc_message_queue := q\<rparr>)"
    using inv by (rule cc_inv_agree) (use q(2) cc_invD [OF inv] in \<open>simp_all add: cc_agree_def\<close>)
  with assms(1) True q show ?thesis
    by (auto simp: cc_send_task_def cc_ready_def cc_waiting_def cc_inflight_def)
next
  case False
  let ?c = "c\<lparr>cc_is_writing := True\<rparr>"
  have empty: "cc_waiting c = []" "cc_inflight c = []" "cc_waiting ?c = []"
    using assms(1) False by (auto simp: cc_ready_def cc_inflight_def cc_waiting_def)
  have inv: "cc_inv h c"
    using assms(1) by (simp add: cc_ready_def)
  have "cc_inv h ?c"
    using inv by (rule cc_inv_agree) (use inv in \<open>simp_all add: cc_agree_def cc_invD\<close>)
  then obtain c' where "cc_do_write_message h m ?c = Inr c'" "cc_ready h c'"
      "cc_inflight c' = [m]" "cc_waiting c' = cc_waiting ?c"
    using cc_write_started [of h ?c m] assms cc_not_writing_idle [OF inv False]
    by (auto simp: cc_ready_def)
  with assms(1) False empty show ?thesis
    by (auto simp: cc_send_task_def cc_ready_def)
qed

text \<open>The state between the completion of a write and the start of the next.\<close>

lemma cc_write_completed:
  assumes "cc_ready h c" and "cc_inflight c \<noteq> []"
  obtains c0 where "cc_finished h c = cc_write_next h c0" "cc_inv h c0" "cc_idle c0" "cc_is_writing c0"
    "\<not> cc_dropped c0" "\<not> cc_shutting_down c0" "cc_waiting c0 = cc_waiting c"
proof -
  from assms(2) obtain op ops where ops: "filter is_write_op (cc_ops c) = op # ops"
    by (cases "filter is_write_op (cc_ops c)") (auto simp: cc_inflight_def cc_count_def)
  then have op: "op \<in> set (cc_ops c)" "is_write_op op"
    using filter_is_subset [of is_write_op "cc_ops c"] filter_eq_ConsD [OF ops] by auto
  have c: "cc_inv h c" "\<not> cc_dropped c" "\<not> cc_shutting_down c"
    using assms(1) by (simp_all add: cc_ready_def)
  have idle: "cc_idle (cc_complete op c)" "cc_is_writing (cc_complete op c)"
    using cc_completed(3) [OF c(1) op] by simp_all
  show ?thesis
  proof (rule that)
    show "cc_finished h c = cc_write_next h ((cc_complete op c)\<lparr>cc_message_outbound := Message\<rparr>)"
      by (simp add: cc_finished_def ops cc_on_write_message_def)
    show "cc_inv h ((cc_complete op c)\<lparr>cc_message_outbound := Message\<rparr>)"
      using cc_complete_inv [OF c(1) op(1)] idle(1) by (rule cc_reset_outbound_inv)
  qed (use idle c in \<open>simp_all add: cc_waiting_def\<close>, simp_all add: cc_complete_def)
qed

lemma cc_finished_ready:
  assumes "cc_ready h c" and "cc_inflight c \<noteq> []"
  shows "\<exists>c'. cc_finished h c = Inr c' \<and> cc_ready h c' \<and> cc_inflight c' @ cc_waiting c' = cc_waiting c"
proof -
  obtain c0 where fin: "cc_finished h c = cc_write_next h c0"
    and c0: "cc_inv h c0" "cc_idle c0" "cc_is_writing c0" "\<not> cc_dropped c0" "\<not> cc_shutting_down c0"
      "cc_waiting c0 = cc_waiting c"
    using cc_write_completed [OF assms] by metis
  show ?thesis
  proof (cases "cc_waiting c0")
    case Nil
    have "cc_inv h (c0\<lparr>cc_is_writing := False\<rparr>)"
      using c0(1,2) by (rule cc_idle_inv) (use c0(1) in \<open>simp_all add: cc_invD\<close>)
    moreover have "cc_write_next h c0 = Inr (c0\<lparr>cc_is_writing := False\<rparr>)"
      using Nil cc_invD(1) [OF c0(1)] by (simp add: cc_write_next_def cc_waiting_def mq.pop_none)
    ultimately show ?thesis
      using fin c0 Nil by (simp add: cc_ready_def cc_idle_def cc_inflight_def cc_waiting_def)
  next
    case (Cons m ms)
    then obtain q where q: "mq_try_pop Message (cc_message_queue c0) = Inr (True, m, q)" "mq_wf q" "mq_contents q = ms"
      using mq_pop_some [of "cc_message_queue c0" m ms Message] cc_invD(1) [OF c0(1)] by (auto simp: cc_waiting_def)
    have m: "\<not> is_empty m"
      using Cons mq.wf_good [of "cc_message_queue c0" m] cc_invD(1) [OF c0(1)] by (simp add: cc_waiting_def)
    have "cc_inv h (c0\<lparr>cc_message_queue := q\<rparr>)"
      using c0(1,2) by (rule cc_idle_inv) (use c0(1) q in \<open>simp_all add: cc_invD\<close>)
    then have "\<exists>c'. cc_do_write_message h m (c0\<lparr>cc_message_queue := q\<rparr>) = Inr c' \<and> cc_ready h c'
        \<and> cc_inflight c' = [m] \<and> cc_waiting c' = ms"
      using cc_write_started [of h "c0\<lparr>cc_message_queue := q\<rparr>" m] c0 m q(3) by (simp add: cc_waiting_def)
    with fin q Cons c0(6) show ?thesis by (auto simp: cc_write_next_def)
  qed
qed

interpretation cw: message_writer "cc_send_task h" "cc_finished h" cc_inflight cc_waiting "cc_ready h"
  for h
proof unfold_locales
  fix s
  assume "cc_ready h s"
  then show "length (cc_inflight s) \<le> 1"
    by (simp add: cc_inflight_def)
next
  fix s
  assume "cc_ready h s" "cc_waiting s \<noteq> []"
  then show "cc_inflight s \<noteq> []"
    by (auto simp: cc_ready_def cc_inflight_def)
qed (fact cc_send_ready, fact cc_finished_ready)

lemma op_ok_write: "cc_op_ok h c op \<Longrightarrow> is_write_op op \<Longrightarrow> cc_write_stable h c (op_data op)"
  by (cases op) simp_all

lemma cc_wire_ready:
  assumes "endian_host h" and "cc_ready h c"
  shows "cc_wire c = map (frame \<circ> message_bytes) (cc_inflight c)"
proof (cases "filter is_write_op (cc_ops c)")
  case Nil
  then show ?thesis by (simp add: cc_wire_def cc_inflight_def cc_count_def)
next
  case (Cons op ops)
  then have len: "ops = []" "cc_count is_write_op c = 1"
    using cc_invD(5) [of h c] assms(2) by (auto simp: cc_ready_def cc_count_def)
  have op: "op \<in> set (cc_ops c)" "is_write_op op"
    using Cons filter_is_subset [of is_write_op "cc_ops c"] filter_eq_ConsD [OF Cons] by auto
  then have "cc_write_stable h c (op_data op)"
    using cc_invD(3) [of h c op] assms(2) op_ok_write by (auto simp: cc_ready_def)
  then show ?thesis
    using Cons len endian_host.store_little [OF assms(1)]
    by (simp add: cc_wire_def cc_inflight_def cc_write_stable_def cc_sent_bytes_def frame_def)
qed

end
