(* ===== verification/ClusterProps.thy ===== *)
theory ClusterProps
  imports ClusterSafety
begin

text \<open>
  Properties of the cluster connection that follow from its invariant and from the wire
  format: delivery from end to end, exclusive and stable writes, what happens after the
  connection is closed, and two failures of the current code.
\<close>

section \<open>Operations no handler starts\<close>

fun is_ssl_handshake :: "cc_op \<Rightarrow> bool" where
  "is_ssl_handshake (SslHandshake r) = True"
| "is_ssl_handshake _ = False"

lemma abort_ops [simp]: "cc_ops (cc_abort c) = cc_ops c"
  by (simp add: cc_abort_def Let_def)

lemma shutdown_filter:
  "\<not> P SslShutdown \<Longrightarrow> filter P (cc_ops (cc_shutdown c)) = filter P (cc_ops c)"
  by (simp add: cc_shutdown_def Let_def)

lemma error_filter:
  assumes "\<not> P SslShutdown"
  shows "filter P (cc_ops (cc_handle_read_error ec c)) = filter P (cc_ops c)"
    and "filter P (cc_ops (cc_handle_write_error ec c)) = filter P (cc_ops c)"
  using assms by (simp_all add: cc_handle_read_error_def cc_handle_write_error_def shutdown_filter)

lemma on_read_filter:
  assumes "\<not> P SslShutdown" and "\<And>s. \<not> P (ReadSome s)"
  shows "filter P (cc_ops (cc_on_read h ec data c)) = filter P (cc_ops c)"
  by (cases rule: on_read_cases [of h ec data c])
    (use assms in \<open>auto simp: error_filter shutdown_filter cc_read_next_def\<close>)

lemma do_write_filter:
  assumes "cc_do_write_message h m c = Inr c'" and "\<And>s d. \<not> P (WriteMessage s d)"
  shows "filter P (cc_ops c') = filter P (cc_ops c)"
  using assms by (auto simp: cc_do_write_message_def Let_def ebind_eq_Inr)

lemma write_next_filter:
  assumes "cc_write_next h c = Inr c'" and "\<And>s d. \<not> P (WriteMessage s d)"
  shows "filter P (cc_ops c') = filter P (cc_ops c)"
proof -
  from assms(1) obtain ok m q where
    "(if ok then cc_do_write_message h m (c\<lparr>cc_message_queue := q\<rparr>)
      else Inr (c\<lparr>cc_message_queue := q, cc_is_writing := False\<rparr>)) = Inr c'"
    by (auto simp: cc_write_next_def ebind_eq_Inr Let_def)
  then show ?thesis
    using do_write_filter [of h m "c\<lparr>cc_message_queue := q\<rparr>" c' P] assms(2) by (cases ok) auto
qed

lemma on_ian_handshake_cases:
  assumes "cc_on_ian_handshake h ec data c = Inr c'"
  obtains (error) "c' = cc_handle_read_error ec c"
  | (refused) len buf where "c' = cc_shutdown (cc_inbox len buf (cc_inbound c) c)"
  | (more) len buf where "c' = cc_start ReadHandshake (cc_inbox len buf (cc_inbound c) c)"
  | (complete) len buf where
      "cc_write_next h (cc_read_next (cc_inbox len buf (cc_inbound c) c)) = Inr c'"
proof (cases "ec = NoError")
  case False
  with assms that(1) show thesis by (simp add: cc_on_ian_handshake_def)
next
  case True
  define b where "b = cc_read_buffer c @ data"
  define len where "len = (if cc_in_message_len c = 0 then little_to_native h (load32 h (take 4 b))
    else cc_in_message_len c)"
  define buf where "buf = (if cc_in_message_len c = 0 then drop 4 b else b)"
  have c1: "c\<lparr>cc_read_buffer := b\<rparr> = cc_inbox (cc_in_message_len c) b (cc_inbound c) c"
    by (simp add: cc_inbox_def)
  have eq: "cc_on_ian_handshake h ec data c =
    (if cc_in_message_len c = 0 \<and> length b < 4
     then Inr (cc_shutdown (cc_inbox (cc_in_message_len c) b (cc_inbound c) c))
     else if len = 0 then Inr (cc_shutdown (cc_inbox len buf (cc_inbound c) c))
     else if length buf < unat len then Inr (cc_start ReadHandshake (cc_inbox len buf (cc_inbound c) c))
     else if length buf > unat len then Inr (cc_shutdown (cc_inbox len buf (cc_inbound c) c))
     else cc_write_next h (cc_read_next (cc_inbox 0 (drop (unat len) buf) (cc_inbound c) c)))"
    using True
    by (simp add: cc_on_ian_handshake_def b_def [symmetric] c1 cc_extract_length_inbox Let_def len_def buf_def)
  show thesis
    using assms unfolding eq
    by (cases "cc_in_message_len c = 0 \<and> length b < 4"; cases "len = 0"; cases "length buf < unat len";
        cases "length buf > unat len")
      (auto intro: that(2-4))
qed

text \<open>What the handlers of the three operations outside the chain of handshakes and reads keep.\<close>

lemma side_handler_filter:
  assumes "cc_handler h op ec data c = Inr c'" and "\<not> is_chain_op op"
    and "\<not> P SslShutdown" "\<And>s d. \<not> P (WriteMessage s d)"
  shows "filter P (cc_ops c') = filter P (cc_ops c)"
proof (cases op)
  case (WriteMessage s d)
  with assms show ?thesis
    by (auto simp: cc_on_write_message_def error_filter Let_def write_next_filter split: if_splits)
next
  case SslShutdown
  with assms show ?thesis by (auto simp: cc_on_shutdown_def)
next
  case (SendTask m)
  with assms show ?thesis
    by (auto simp: cc_send_task_def ebind_eq_Inr do_write_filter split: if_splits)
qed (use assms(2) in \<open>simp_all add: is_chain_op_def\<close>)

lemma late_handler_filter:
  assumes "cc_handler h op ec data c = Inr c'" and "\<not> is_setup_op op"
    and "\<not> P SslShutdown" "\<And>s. \<not> P (ReadSome s)" "\<And>s d. \<not> P (WriteMessage s d)"
  shows "filter P (cc_ops c') = filter P (cc_ops c)"
proof (cases "is_read_op op")
  case True
  then show ?thesis
    using assms by (cases op) (auto simp: on_read_filter)
next
  case False
  then show ?thesis
    using assms by (intro side_handler_filter [OF assms(1)]) (simp_all add: is_chain_op_def)
qed

lemma handler_filter:
  assumes "cc_handler h op ec data c = Inr c'"
    and "\<not> P SslShutdown" "\<And>s. \<not> P (ReadSome s)" "\<And>s d. \<not> P (WriteMessage s d)"
      "\<not> P ReadHandshake" "\<And>d. \<not> P (WriteHandshake d)"
  shows "filter P (cc_ops c') = filter P (cc_ops c)"
proof (cases op)
  case (SslHandshake r)
  with assms show ?thesis
    by (auto simp: cc_on_ssl_handshake_def ebind_eq_Inr Let_def split: if_splits)
next
  case (WriteHandshake d)
  with assms show ?thesis
    by (auto simp: cc_on_ian_handshake_sent_def error_filter Let_def)
next
  case ReadHandshake
  with assms(1) have "cc_on_ian_handshake h ec data c = Inr c'" by simp
  then show ?thesis
    by (cases rule: on_ian_handshake_cases)
      (use assms in \<open>simp_all add: error_filter shutdown_filter write_next_filter cc_read_next_def\<close>)
qed (use late_handler_filter [OF assms(1) _ assms(2-4)] in simp_all)

section \<open>Closed connections\<close>

definition cc_closed :: "cluster_connection \<Rightarrow> bool" where
  "cc_closed c \<longleftrightarrow> cc_dropped c \<or> cc_shutting_down c"

definition cc_quiet :: "cluster_connection \<Rightarrow> bool" where
  "cc_quiet c \<longleftrightarrow> cc_closed c \<and> queue (cc_message_queue c) = []"

lemma quiet_shutdown: "cc_quiet c \<Longrightarrow> cc_quiet (cc_shutdown c)"
  by (simp add: cc_quiet_def cc_closed_def cc_shutdown_def)

lemma quiet_abort: "cc_quiet c \<Longrightarrow> cc_quiet (cc_abort c)"
  by (simp add: cc_quiet_def cc_closed_def cc_abort_def mq_clear_def Let_def)

lemma abort_quiet: "\<not> cc_dropped c \<Longrightarrow> cc_quiet (cc_abort c)"
  by (simp add: cc_quiet_def cc_closed_def cc_abort_def mq_clear_def Let_def)

lemma shutdown_quiet:
  assumes "\<not> cc_dropped c" and "\<not> cc_shutting_down c" and "cc_socket_open c"
  shows "cc_quiet (cc_shutdown c)"
  using assms abort_quiet
  by (cases "cc_downgraded c")
    (simp_all add: cc_shutdown_def cc_quiet_def cc_closed_def mq_clear_def Let_def)

lemma quiet_errors:
  "cc_quiet c \<Longrightarrow> cc_quiet (cc_handle_read_error ec c)"
  "cc_quiet c \<Longrightarrow> cc_quiet (cc_handle_write_error ec c)"
  by (simp_all add: cc_handle_read_error_def cc_handle_write_error_def quiet_abort quiet_shutdown)

lemma quiet_start [simp]: "cc_quiet (cc_start op c) = cc_quiet c"
  by (simp add: cc_quiet_def cc_closed_def)

lemma quiet_inbox [simp]: "cc_quiet (cc_inbox len buf ms c) = cc_quiet c"
  by (simp add: cc_quiet_def cc_closed_def cc_inbox_def)

lemma quiet_fields [simp]:
  "cc_quiet (c\<lparr>cc_message_outbound := m\<rparr>) = cc_quiet c"
  "cc_quiet (c\<lparr>cc_out_message_len_le := l\<rparr>) = cc_quiet c"
  "cc_quiet (c\<lparr>cc_is_writing := b\<rparr>) = cc_quiet c"
  "cc_quiet (cc_complete op c) = cc_quiet c"
  by (simp_all add: cc_quiet_def cc_closed_def cc_complete_def)

lemma quiet_write_next:
  "cc_quiet c \<Longrightarrow> cc_write_next h c = Inr (c\<lparr>cc_is_writing := False\<rparr>)"
  by (simp add: cc_quiet_def cc_write_next_def mq_try_pop_def)

lemma quiet_on_read: "cc_quiet c \<Longrightarrow> cc_quiet (cc_on_read h ec data c)"
  by (cases rule: on_read_cases [of h ec data c]) (auto simp: quiet_errors quiet_shutdown cc_read_next_def)

lemma quiet_handler:
  assumes "cc_quiet c" and "cc_handler h op ec data c = Inr c'"
  shows "cc_quiet c' \<and> filter is_write_op (cc_ops c') = filter is_write_op (cc_ops c)"
proof (cases op)
  case (SslHandshake r)
  with assms show ?thesis
    by (auto simp: cc_on_ssl_handshake_def ebind_eq_Inr Let_def quiet_abort split: if_splits)
next
  case (WriteHandshake d)
  with assms show ?thesis
    by (auto simp: cc_on_ian_handshake_sent_def error_filter quiet_errors Let_def)
next
  case ReadHandshake
  with assms(2) have "cc_on_ian_handshake h ec data c = Inr c'" by simp
  then show ?thesis
    by (cases rule: on_ian_handshake_cases)
      (use assms(1) in \<open>auto simp: quiet_errors error_filter quiet_shutdown shutdown_filter
         quiet_write_next cc_read_next_def\<close>)
next
  case (ReadSome s)
  with assms show ?thesis by (auto simp: on_read_filter quiet_on_read)
next
  case (WriteMessage s d)
  with assms show ?thesis
    by (auto simp: cc_on_write_message_def error_filter quiet_errors quiet_write_next Let_def
        split: if_splits)
next
  case SslShutdown
  with assms show ?thesis by (auto simp: cc_on_shutdown_def cc_quiet_def cc_closed_def)
next
  case (SendTask m)
  with assms show ?thesis
    by (auto simp: cc_send_task_def cc_quiet_def cc_closed_def)
qed

lemma quiet_step:
  assumes "cc_step h c c'" and "cc_quiet c"
  shows "cc_quiet c' \<and> set (filter is_write_op (cc_ops c')) \<subseteq> set (filter is_write_op (cc_ops c))"
  using assms
proof (cases rule: cc_step.cases)
  case (owner_sends m)
  with assms(2) show ?thesis by (auto simp: cc_send_message_def)
next
  case (op_completes op data ec)
  then have "cc_quiet c' \<and> filter is_write_op (cc_ops c') = filter is_write_op (cc_ops (cc_complete op c))"
    using quiet_handler [of "cc_complete op c"] assms(2) by simp
  moreover have "set (cc_ops (cc_complete op c)) \<subseteq> set (cc_ops c)"
    by (simp add: cc_complete_def set_remove1_subset)
  ultimately show ?thesis by auto
qed

interpretation quiet: preserved "cc_step h"
    "\<lambda>c. cc_quiet c \<and> set (filter is_write_op (cc_ops c)) \<subseteq> ws" for h ws
  by unfold_locales (use quiet_step in blast)

lemma quiet_steps:
  assumes "(cc_step h)\<^sup>*\<^sup>* c c'" and "cc_quiet c"
  shows "cc_quiet c' \<and> set (filter is_write_op (cc_ops c')) \<subseteq> set (filter is_write_op (cc_ops c))"
  using quiet.steps_inv [OF assms(1)] assms(2) by blast

section \<open>The handshake message is still missing\<close>

lemma ssl_le_setup: "cc_count is_ssl_handshake c \<le> cc_count is_setup_op c"
proof -
  have "length (filter is_ssl_handshake xs) \<le> length (filter is_setup_op xs)" for xs
  proof (induction xs)
    case (Cons x xs)
    then show ?case by (cases x) simp_all
  qed simp
  then show ?thesis by (simp add: cc_count_def)
qed

lemma handshake_waits:
  assumes "cc_step h c c'" and "cc_inv h c"
    and "0 < cc_count is_ssl_handshake c \<longrightarrow> is_empty (cc_message_outbound c)"
  shows "0 < cc_count is_ssl_handshake c' \<longrightarrow> is_empty (cc_message_outbound c')"
  using assms
proof (cases rule: cc_step.cases)
  case (owner_sends m)
  with assms(3) show ?thesis
    by (simp add: cc_send_message_def)
next
  case (op_completes op data ec)
  let ?d = "cc_complete op c"
  have "filter is_ssl_handshake (cc_ops c') = filter is_ssl_handshake (cc_ops ?d)"
    by (rule handler_filter [OF op_completes(3)]) simp_all
  then have cnt: "cc_count is_ssl_handshake c' = cc_count is_ssl_handshake ?d"
    by (simp add: cc_count_def)
  show ?thesis
  proof (cases "is_chain_op op \<or> is_write_op op")
    case True
    have "cc_count is_setup_op ?d = 0"
      using True cc_completed(2,3) [OF assms(2) op_completes(1)] setup_le_chain [of ?d]
      by (auto simp: cc_idle_def)
    with ssl_le_setup [of ?d] cnt show ?thesis by simp
  next
    case False
    show ?thesis
    proof
      assume "0 < cc_count is_ssl_handshake c'"
      with cnt have pos: "0 < cc_count is_ssl_handshake c"
        using cc_count_complete [OF op_completes(1), of is_ssl_handshake] by (auto split: if_splits)
      then have "cc_is_writing ?d"
        using cc_invD(6) [OF assms(2)] ssl_le_setup [of c] by (simp add: cc_complete_def)
      moreover have "is_empty (cc_message_outbound ?d)"
        using assms(3) pos by (simp add: cc_complete_def)
      ultimately show "is_empty (cc_message_outbound c')"
        using op_completes(3) False
        by (cases op) (auto simp: cc_on_shutdown_def cc_send_task_def ebind_eq_Inr split: if_splits)
    qed
  qed
qed

lemma cc_run_inv:
  "cc_inv h (cc_run role safe ec (ClusterConnection opened safe0 len0))"
  by (simp add: cc_run_def ClusterConnection_def cc_inv_def cc_start_def cc_count_def Let_def
      is_chain_op_def mq.wf_empty)

interpretation handshake: preserved "cc_step h"
    "\<lambda>c. cc_inv h c \<and> (0 < cc_count is_ssl_handshake c \<longrightarrow> is_empty (cc_message_outbound c))" for h
  by unfold_locales (metis handshake_waits cc_step_inv)

interpretation cluster: preserved "cc_step h" "cc_inv h" for h
  by unfold_locales (rule cc_step_inv)

lemma handshake_waits_steps:
  assumes "(cc_step h)\<^sup>*\<^sup>* (cc_run role safe ec (ClusterConnection opened safe0 len0)) c"
  shows "cc_inv h c \<and> (0 < cc_count is_ssl_handshake c \<longrightarrow> is_empty (cc_message_outbound c))"
proof (rule handshake.steps_inv [OF assms])
  have "is_empty (cc_message_outbound (cc_run role safe ec (ClusterConnection opened safe0 len0)))"
    by (simp add: cc_run_def ClusterConnection_def Let_def)
  then show "cc_inv h (cc_run role safe ec (ClusterConnection opened safe0 len0))
      \<and> (0 < cc_count is_ssl_handshake (cc_run role safe ec (ClusterConnection opened safe0 len0))
         \<longrightarrow> is_empty (cc_message_outbound (cc_run role safe ec (ClusterConnection opened safe0 len0))))"
    by (simp add: cc_run_inv)
qed

section \<open>Properties\<close>

definition ready_example :: cluster_connection where
  "ready_example = ClusterConnection True True 0"

lemma ready_example_ok: "cc_ready h ready_example" "cc_inflight ready_example = []"
  by (simp_all add: ready_example_def ClusterConnection_def cc_ready_def cc_inv_def cc_count_def
      cc_waiting_def cc_inflight_def mq.wf_empty mq.contents_empty)

text \<open>
  C3. End-to-end delivery. Take messages that are not null, with payloads that are not empty and
  shorter than \<open>2\<^sup>3\<^sup>2\<close> bytes, a connection past its handshake that is ready to write with
  nothing in flight, and any interleaving of sends and successful write completions that ends
  with nothing in flight. If the bytes written arrive at a peer that is reading and has nothing
  pending, cut into reads in any way, the peer processes exactly the messages sent, in order.
  Sender and receiver may have different byte orders.
\<close>

theorem cluster_end_to_end:
  assumes "endian_host h1" and "endian_host h2"
    and "cc_ready h1 s" and "cc_inflight s = []"
    and "list_all (\<lambda>m. \<not> is_empty m \<and> sendable (message_bytes m)) (sent_messages es)"
    and "writer_run (cc_send_task h1) (cc_finished h1) cc_wire es s = Some (Inr (writes, s'))"
    and "cc_inflight s' = []"
    and "concat chunks = concat writes"
    and "cc_reading r" and "cc_pending r = []"
  shows "cc_inbound (cc_feed h2 chunks r) = cc_inbound r @ sent_messages es"
proof -
  let ?ms = "sent_messages es"
  have good: "list_all (\<lambda>m. \<not> is_empty m) ?ms" "list_all sendable (map message_bytes ?ms)"
    using assms(5) by (simp_all add: list_all_iff)
  obtain ws where ws: "writer_run (cc_send_task h1) (cc_finished h1) cc_inflight es s = Some (Inr (ws, s'))"
      "writes = map (frame \<circ> message_bytes) ws"
    using cw.run_view_Some [OF cc_wire_ready [OF assms(1)] assms(3) good(1) assms(6)] by blast
  have "cc_waiting s = []"
    using cw.drained [OF assms(3,4)] .
  moreover have "ws @ cc_inflight s' @ cc_waiting s' = cc_inflight s @ cc_waiting s @ ?ms" "cc_ready h1 s'"
    using cw.run_in_order [OF assms(3) good(1) ws(1)] by auto
  ultimately have "ws = ?ms"
    using assms(4,7) cw.drained [of h1 s'] by simp
  then have "concat chunks = concat (map frame (map message_bytes ?ms))"
    using assms(8) ws(2) by simp
  then have "cc_inbound (cc_feed h2 chunks r) = cc_inbound r @ map from_vector (map message_bytes ?ms)"
    using endian_host.feed_decodes [OF assms(2,9)] assms(10) decode_frames [OF good(2)] by simp
  also have "map from_vector (map message_bytes ?ms) = ?ms"
    using good(1) message_eq_from_vector by (auto simp: list_all_iff map_idI)
  finally show ?thesis .
qed

theorem cluster_end_to_end_witness:
  "cc_inbound (cc_feed big_host [[1, 0, 0], [0, 5], [2, 0, 0, 0, 6, 7]] reading_example)
     = [from_vector [5], from_vector [6, 7]]"
proof -
  let ?es = "[Send (from_vector [5]), Send (from_vector [6, 7]), Finished, Finished]"
  have "\<exists>s'. writer_run (cc_send_task little_host) (cc_finished little_host) cc_wire ?es ready_example
      = Some (Inr ([[1, 0, 0, 0, 5], [2, 0, 0, 0, 6, 7]], s')) \<and> cc_inflight s' = []"
    by (simp add: ready_example_def ClusterConnection_def cc_send_task_def cc_do_write_message_def
        message_size_def message_data_def from_vector_def little_host_def le_bytes_def cc_start_def
        mq_push_def MessageQueue_def cc_wire_def cc_finished_def cc_on_write_message_def cc_complete_def
        cc_write_next_def mq_try_pop_def cc_inflight_def cc_count_def)
  then obtain s' where run: "writer_run (cc_send_task little_host) (cc_finished little_host) cc_wire ?es
      ready_example = Some (Inr ([[1, 0, 0, 0, 5], [2, 0, 0, 0, 6, 7]], s'))" "cc_inflight s' = []"
    by blast
  have "cc_inbound (cc_feed big_host [[1, 0, 0], [0, 5], [2, 0, 0, 0, 6, 7]] reading_example)
      = cc_inbound reading_example @ sent_messages ?es"
    by (rule cluster_end_to_end [OF little.endian_host_axioms big.endian_host_axioms
          ready_example_ok _ run(1) run(2) _ reading_example_ok(1,2)])
      (simp_all add: sendable_def)
  then show ?thesis
    by (simp add: reading_example_ok(3) del: cc_feed.simps)
qed

text \<open>
  C7. Exclusive, stable writes. From any state that satisfies the invariant, whatever the
  owner sends and however outstanding operations complete, at most one message write is in
  progress, none is while a handshake operation is outstanding, and the buffers given to a
  write (the length and the payload of the outbound message) still hold the bytes being
  written.
\<close>

theorem cluster_exclusive_stable_writes:
  assumes "cc_inv h c0" and "(cc_step h)\<^sup>*\<^sup>* c0 c"
  shows "length (filter is_write_op (cc_ops c)) \<le> 1
    \<and> (\<forall>s d. WriteMessage s d \<in> set (cc_ops c) \<longrightarrow>
        cc_is_writing c \<and> filter is_setup_op (cc_ops c) = []
        \<and> d = store32 h (cc_out_message_len_le c) @ message_bytes (cc_message_outbound c))"
proof (intro conjI allI impI)
  have inv: "cc_inv h c"
    using assms(2,1) by (rule cluster.steps_inv)
  then show "length (filter is_write_op (cc_ops c)) \<le> 1"
    using cc_invD(5) by (simp add: cc_count_def)
  fix s d
  assume w: "WriteMessage s d \<in> set (cc_ops c)"
  then have pos: "0 < cc_count is_write_op c"
    by (rule cc_count_pos) simp
  then show "cc_is_writing c"
    using cc_invD(8) [OF inv] by simp
  have "cc_count is_setup_op c = 0"
    using cc_invD(7) [OF inv] pos by fastforce
  then show "filter is_setup_op (cc_ops c) = []"
    by (simp add: cc_count_def)
  show "d = store32 h (cc_out_message_len_le c) @ message_bytes (cc_message_outbound c)"
    using cc_invD(3) [OF inv w] by (simp add: cc_write_stable_def cc_sent_bytes_def)
qed

definition busy_example :: cluster_connection where
  "busy_example = (case cc_send_task little_host (from_vector [5]) ready_example of
     Inr c \<Rightarrow> c | Inl e \<Rightarrow> ready_example)"

lemma busy_example_step:
  "(cc_step little_host)\<^sup>*\<^sup>* ready_example busy_example"
proof -
  let ?m = "from_vector [5]"
  let ?c = "cc_send_message ?m ready_example"
  have "cc_step little_host ready_example ?c"
    by (rule owner_sends)
  moreover have "cc_complete (SendTask ?m) ?c = ready_example"
    by (simp add: cc_send_message_def cc_start_def cc_complete_def ready_example_def ClusterConnection_def)
  then have "cc_step little_host ?c busy_example"
    using op_completes [of "SendTask ?m" ?c "[]" little_host NoError busy_example]
      cc_send_ready [OF ready_example_ok(1) from_vector_simps(1), of little_host "[5]"]
    by (auto simp: busy_example_def cc_send_message_def)
  ultimately show ?thesis by auto
qed

lemma busy_example_write: "WriteMessage True [1, 0, 0, 0, 5] \<in> set (cc_ops busy_example)"
  by (simp add: busy_example_def ready_example_def ClusterConnection_def cc_send_task_def
      cc_do_write_message_def message_size_def message_data_def from_vector_def little_host_def
      le_bytes_def cc_start_def)

lemma busy_example_ready:
  "cc_ready little_host busy_example" "cc_inflight busy_example = [from_vector [5]]" "cc_waiting busy_example = []"
  "cc_send_task little_host (from_vector [5]) ready_example = Inr busy_example"
proof -
  obtain c where "cc_send_task little_host (from_vector [5]) ready_example = Inr c" "cc_ready little_host c"
      "cc_inflight c @ cc_waiting c = [from_vector [5]]"
    using cc_send_ready [OF ready_example_ok(1) from_vector_simps(1), of little_host "[5]"] ready_example_ok(2)
      cw.drained [OF ready_example_ok(1,2)] by auto
  moreover from this have "c = busy_example"
    by (simp add: busy_example_def)
  ultimately show "cc_ready little_host busy_example" "cc_inflight busy_example = [from_vector [5]]" "cc_waiting busy_example = []"
      "cc_send_task little_host (from_vector [5]) ready_example = Inr busy_example"
    using cw.busy_if_waiting [of little_host busy_example] by (cases "cc_inflight busy_example"; auto)+
qed

theorem cluster_exclusive_stable_writes_witness:
  "WriteMessage True [1, 0, 0, 0, 5] \<in> set (cc_ops busy_example)
   \<and> [1, 0, 0, 0, 5] = store32 little_host (cc_out_message_len_le busy_example)
       @ message_bytes (cc_message_outbound busy_example)"
proof -
  have "cc_inv little_host ready_example"
    using ready_example_ok(1) by (simp add: cc_ready_def)
  then show ?thesis
    using cluster_exclusive_stable_writes [OF _ busy_example_step] busy_example_write by blast
qed

text \<open>
  C26. A closed connection stays closed and quiet: once the connection has been aborted, or an
  orderly shutdown has begun, no later step reopens it, queues a message or starts a write of
  a message.
\<close>

theorem cluster_closed_stays_quiet:
  assumes "\<not> cc_dropped c0" and "\<not> cc_shutting_down c0" and "cc_socket_open c0"
    and "c1 = cc_abort c0 \<or> c1 = cc_shutdown c0" and "(cc_step h)\<^sup>*\<^sup>* c1 c"
  shows "(cc_dropped c \<or> cc_shutting_down c) \<and> get_message_count (cc_message_queue c) = 0
    \<and> set (filter is_write_op (cc_ops c)) \<subseteq> set (cc_ops c0)"
proof -
  have "cc_quiet c1" "filter is_write_op (cc_ops c1) = filter is_write_op (cc_ops c0)"
    using assms(1-4) abort_quiet [of c0] shutdown_quiet [of c0] by (auto simp: shutdown_filter)
  then show ?thesis
    using quiet_steps [OF assms(5)]
    by (auto simp: cc_quiet_def cc_closed_def get_message_count_def)
qed

theorem cluster_closed_stays_quiet_witness:
  "let c = cc_send_message (from_vector [5]) (cc_shutdown busy_example)
   in (cc_dropped c \<or> cc_shutting_down c) \<and> get_message_count (cc_message_queue c) = 0"
proof -
  let ?c = "cc_send_message (from_vector [5]) (cc_shutdown busy_example)"
  have live: "\<not> cc_dropped busy_example" "\<not> cc_shutting_down busy_example" "cc_socket_open busy_example"
    by (simp_all add: busy_example_def ready_example_def ClusterConnection_def cc_send_task_def
        cc_do_write_message_def message_size_def message_data_def from_vector_def)
  have "(cc_step little_host)\<^sup>*\<^sup>* (cc_shutdown busy_example) ?c"
    by (auto intro: owner_sends)
  then show ?thesis
    using cluster_closed_stays_quiet [OF live, of "cc_shutdown busy_example"] unfolding Let_def by blast
qed

text \<open>
  C32. The handshake message is missing, so every successful SSL handshake ends in a null
  dereference: in every state reached from a started connection in which the SSL handshake is
  outstanding, its successful completion asks the null outbound message for its size.
\<close>

theorem cluster_ssl_handshake_null_dereference:
  assumes "(cc_step h)\<^sup>*\<^sup>* (cc_run role safe_link ec (ClusterConnection True safe0 len0)) c"
    and "SslHandshake role' \<in> set (cc_ops c)"
  shows "cc_on_ssl_handshake h NoError (cc_complete (SslHandshake role') c) = Inl NullDereference"
proof -
  have "0 < cc_count is_ssl_handshake c"
    using assms(2) by (rule cc_count_pos) simp
  then have "is_empty (cc_message_outbound (cc_complete (SslHandshake role') c))"
    using handshake_waits_steps [OF assms(1)] by (simp add: cc_complete_def)
  then show ?thesis
    by (simp add: cc_on_ssl_handshake_def message_size_none)
qed

theorem cluster_ssl_handshake_null_dereference_witness:
  "cc_on_ssl_handshake little_host NoError
     (cc_complete (SslHandshake Client) (cc_run Client True NoError (ClusterConnection True False 0)))
   = Inl NullDereference"
  by (rule cluster_ssl_handshake_null_dereference [OF rtranclp.rtrancl_refl])
    (simp add: cc_run_def ClusterConnection_def cc_start_def)

text \<open>
  C11. That is the only failure: from any state that satisfies the invariant, every outstanding
  operation other than a successful SSL handshake with a null outbound message completes
  without a null dereference, whatever its error code and data, in a state that satisfies the
  invariant again.
\<close>

theorem cluster_handlers_safe:
  assumes "cc_inv h c" and "op \<in> set (cc_ops c)"
    and "\<not> (is_ssl_handshake op \<and> ec = NoError \<and> is_empty (cc_message_outbound c))"
  shows "\<exists>c'. cc_handler h op ec data (cc_complete op c) = Inr c' \<and> cc_inv h c'"
  using cc_handler_inv [OF assms(1,2), of ec data] assms(3) by auto

theorem cluster_handlers_safe_witness:
  "\<exists>c'. cc_handler little_host (WriteMessage True [1, 0, 0, 0, 5]) ConnectionReset []
      (cc_complete (WriteMessage True [1, 0, 0, 0, 5]) busy_example) = Inr c' \<and> cc_inv little_host c'"
  by (rule cluster_handlers_safe [OF _ busy_example_write]) (use busy_example_ready(1) in \<open>simp_all add: cc_ready_def\<close>)

text \<open>
  C33. An empty payload is accepted for sending, because only a null message is refused, but its
  frame is the announcement of length zero, which the peer answers by closing the connection.
\<close>

theorem cluster_empty_payload_closes_peer:
  assumes "endian_host h1" and "endian_host h2" and "cc_ready h1 s" and "\<not> cc_is_writing s"
    and "cc_reading r" and "cc_pending r = []" and "\<not> cc_dropped r" and "cc_socket_open r"
  shows "SendTask (from_vector []) \<in> set (cc_ops (cc_send_message (from_vector []) s))
    \<and> (\<exists>s'. cc_send_task h1 (from_vector []) s = Inr s' \<and> cc_wire s' = [[0, 0, 0, 0]])
    \<and> cc_closed (cc_feed h2 [[0, 0, 0, 0]] r)"
proof (intro conjI)
  show "SendTask (from_vector []) \<in> set (cc_ops (cc_send_message (from_vector []) s))"
    by (simp add: cc_send_message_def)
  obtain s' where s': "cc_send_task h1 (from_vector []) s = Inr s'" "cc_ready h1 s'"
      "cc_inflight s' @ cc_waiting s' = cc_inflight s @ cc_waiting s @ [from_vector []]"
    using cc_send_ready [OF assms(3) from_vector_simps(1)] by blast
  moreover have "cc_inflight s = []" "cc_waiting s = []"
    using assms(3,4) by (auto simp: cc_ready_def cc_inflight_def)
  ultimately have "cc_inflight s' = [from_vector []]"
    using cw.busy_if_waiting [OF s'(2)] by (cases "cc_inflight s'") auto
  then have "cc_wire s' = [[0, 0, 0, 0]]"
    using cc_wire_ready [OF assms(1) s'(2)] by (simp add: frame_def le_bytes_def)
  with s' show "\<exists>s'. cc_send_task h1 (from_vector []) s = Inr s' \<and> cc_wire s' = [[0, 0, 0, 0]]"
    by blast
  let ?k = "cc_complete (ReadSome (cc_safe_link r)) r"
  have "decode_stream (cc_pending ?k @ [0, 0, 0, 0]) = ([], None)"
    using assms(6) by (simp add: decode_bad)
  then obtain len buf where
    "cc_on_read h2 NoError [0, 0, 0, 0] ?k = cc_shutdown (cc_inbox len buf (cc_inbound r) ?k)"
    using endian_host.on_read_decodes [OF assms(2), where c = ?k and d = "[0, 0, 0, 0]"] by auto
  moreover have "cc_closed (cc_shutdown (cc_inbox len buf (cc_inbound r) ?k))"
    using assms(7,8)
    by (simp add: cc_shutdown_def cc_closed_def cc_abort_def cc_inbox_def cc_complete_def Let_def)
  ultimately show "cc_closed (cc_feed h2 [[0, 0, 0, 0]] r)"
    using cc_reading_outstanding [OF assms(5)] by simp
qed

theorem cluster_empty_payload_closes_peer_witness:
  "cc_closed (cc_feed big_host [[0, 0, 0, 0]] reading_example)"
proof -
  have "\<not> cc_is_writing ready_example" "\<not> cc_dropped reading_example" "cc_socket_open reading_example"
    by (simp_all add: ready_example_def reading_example_def ClusterConnection_def cc_read_next_def)
  then show ?thesis
    using cluster_empty_payload_closes_peer [OF little.endian_host_axioms big.endian_host_axioms
        ready_example_ok(1) _ reading_example_ok(1,2)] by blast
qed

end
