(* ===== verification/ClusterLink.thy ===== *)
theory ClusterLink
  imports ClusterProps "HOL-Library.Sublist"
begin

text \<open>
  Two cluster connections and the link between them, in one direction: the operations of both ends
  complete in any order and with any outcome, the bytes of a write reach the link in pieces before
  the write completes, successfully or not, and a read takes any piece of what is on the link. What
  the receiving end has processed is always a prefix of what the sending end accepted: nothing is
  lost in between, duplicated, reordered or altered, whatever fails. The ends start after their
  handshake; each carries out the kind of reads and writes that \<open>safe_link_\<close> selects.
\<close>

section \<open>The link\<close>

text \<open>
  \<open>lk_transmitted\<close> counts the bytes of the write in progress that were put on the link, \<open>lk_wire\<close> are
  the bytes on it. The histories \<open>lk_accepted\<close> and \<open>lk_received\<close> record the messages that
  \<open>send_message\<close> accepted in its strand and the bytes read from the link.
\<close>

record cluster_link =
  lk_sender :: cluster_connection
  lk_receiver :: cluster_connection
  lk_transmitted :: nat
  lk_wire :: "byte list"
  lk_accepted :: "message list"
  lk_received :: "byte list"

definition lk_connect :: "cluster_connection \<Rightarrow> cluster_connection \<Rightarrow> cluster_link" where
  "lk_connect c d = \<lparr>lk_sender = c, lk_receiver = d, lk_transmitted = 0, lk_wire = [], lk_accepted = [], lk_received = []\<rparr>"

fun accepts_message :: "cc_op \<Rightarrow> cluster_connection \<Rightarrow> message list" where
  "accepts_message (SendTask m) c = (if cc_closed c then [] else [m])"
| "accepts_message op c = []"

inductive lk_step :: "host \<Rightarrow> host \<Rightarrow> cluster_link \<Rightarrow> cluster_link \<Rightarrow> bool" for h1 h2 where
  sender_sends: "lk_step h1 h2 s (s\<lparr>lk_sender := cc_send_message m (lk_sender s)\<rparr>)"
| sender_completes: "op \<in> set (cc_ops (lk_sender s)) \<Longrightarrow> \<not> is_write_op op \<Longrightarrow>
    cc_handler h1 op ec data (cc_complete op (lk_sender s)) = Inr c' \<Longrightarrow>
    lk_step h1 h2 s (s\<lparr>lk_sender := c', lk_accepted := lk_accepted s @ accepts_message op (lk_sender s)\<rparr>)"
| bytes_leave: "WriteMessage b d \<in> set (cc_ops (lk_sender s)) \<Longrightarrow> lk_transmitted s + k \<le> length d \<Longrightarrow>
    lk_step h1 h2 s (s\<lparr>lk_transmitted := lk_transmitted s + k, lk_wire := lk_wire s @ take k (drop (lk_transmitted s) d)\<rparr>)"
| write_completes: "WriteMessage b d \<in> set (cc_ops (lk_sender s)) \<Longrightarrow> (ec = NoError \<longrightarrow> lk_transmitted s = length d) \<Longrightarrow>
    cc_handler h1 (WriteMessage b d) ec data (cc_complete (WriteMessage b d) (lk_sender s)) = Inr c' \<Longrightarrow>
    lk_step h1 h2 s (s\<lparr>lk_sender := c', lk_transmitted := 0\<rparr>)"
| read_completes: "ReadSome b \<in> set (cc_ops (lk_receiver s)) \<Longrightarrow> k \<le> length (lk_wire s) \<Longrightarrow> k \<le> read_chunk_size \<Longrightarrow>
    cc_handler h2 (ReadSome b) NoError (take k (lk_wire s)) (cc_complete (ReadSome b) (lk_receiver s)) = Inr c' \<Longrightarrow>
    lk_step h1 h2 s (s\<lparr>lk_receiver := c', lk_wire := drop k (lk_wire s), lk_received := lk_received s @ take k (lk_wire s)\<rparr>)"
| receiver_completes: "op \<in> set (cc_ops (lk_receiver s)) \<Longrightarrow> (is_read_op op \<longrightarrow> ec \<noteq> NoError) \<Longrightarrow>
    cc_handler h2 op ec data (cc_complete op (lk_receiver s)) = Inr c' \<Longrightarrow>
    lk_step h1 h2 s (s\<lparr>lk_receiver := c'\<rparr>)"
| receiver_sends: "lk_step h1 h2 s (s\<lparr>lk_receiver := cc_send_message m (lk_receiver s)\<rparr>)"

section \<open>Operations after the handshake\<close>

text \<open>The socket stays open until the connection is dropped.\<close>

definition cc_held :: "cluster_connection \<Rightarrow> bool" where
  "cc_held c \<longleftrightarrow> cc_dropped c \<or> cc_socket_open c"

lemma held_fields [simp]:
  "cc_held (cc_start op c) = cc_held c" "cc_held (cc_inbox len buf ms c) = cc_held c"
  "cc_held (cc_complete op c) = cc_held c" "cc_held (cc_read_next c) = cc_held c"
  "cc_held (c\<lparr>cc_message_outbound := m\<rparr>) = cc_held c" "cc_held (c\<lparr>cc_message_queue := q\<rparr>) = cc_held c"
  "cc_held (c\<lparr>cc_out_message_len_le := l\<rparr>) = cc_held c" "cc_held (c\<lparr>cc_is_writing := b\<rparr>) = cc_held c"
  by (simp_all add: cc_held_def cc_inbox_def cc_complete_def cc_read_next_def)

lemma held_shutdown: "cc_held c \<Longrightarrow> cc_held (cc_shutdown c)"
  by (auto simp: cc_held_def cc_shutdown_def cc_abort_def Let_def)

lemma held_errors: "cc_held c \<Longrightarrow> cc_held (cc_handle_read_error ec c)" "cc_held c \<Longrightarrow> cc_held (cc_handle_write_error ec c)"
  by (simp_all add: cc_handle_read_error_def cc_handle_write_error_def held_shutdown) (auto simp: cc_held_def cc_abort_def)

lemma held_write: "cc_do_write_message h m c = Inr c' \<Longrightarrow> cc_held c' = cc_held c"
  by (auto simp: cc_do_write_message_def Let_def ebind_eq_Inr)

lemma held_write_next: "cc_write_next h c = Inr c' \<Longrightarrow> cc_held c' = cc_held c"
  by (auto simp: cc_write_next_def Let_def ebind_eq_Inr dest: held_write split: if_split_asm)

lemma held_handler:
  assumes "cc_handler h op ec data c = Inr c'" and "\<not> is_setup_op op" and "cc_held c"
  shows "cc_held c'"
proof (cases op)
  case (ReadSome s)
  with assms show ?thesis
    by (cases rule: on_read_cases [of h ec data c]) (auto simp: held_errors held_shutdown)
next
  case (WriteMessage s d)
  with assms show ?thesis
    by (auto simp: cc_on_write_message_def Let_def held_errors held_write_next split: if_split_asm)
next
  case SslShutdown
  with assms show ?thesis
    by (auto simp: cc_on_shutdown_def cc_held_def)
next
  case (SendTask m)
  with assms show ?thesis
    by (auto simp: cc_send_task_def ebind_eq_Inr held_write split: if_split_asm)
qed (use assms(2) in simp_all)

text \<open>The handshake is over.\<close>

definition cc_started :: "host \<Rightarrow> cluster_connection \<Rightarrow> bool" where
  "cc_started h c \<longleftrightarrow> cc_inv h c \<and> cc_count is_setup_op c = 0 \<and> cc_held c"

lemma started_op: "cc_started h c \<Longrightarrow> op \<in> set (cc_ops c) \<Longrightarrow> \<not> is_setup_op op"
  by (auto simp: cc_started_def cc_count_0)

lemma started_handler:
  assumes "cc_started h c" and "op \<in> set (cc_ops c)" and "cc_handler h op ec data (cc_complete op c) = Inr c'"
  shows "cc_started h c'"
proof -
  note late = started_op [OF assms(1,2)]
  have "cc_inv h c'"
    using cc_handler_inv [of h c op ec data] assms by (auto simp: cc_started_def)
  moreover have "cc_count is_setup_op c' = cc_count is_setup_op (cc_complete op c)"
    using late_handler_filter [OF assms(3) late, of is_setup_op] by (simp add: cc_count_def)
  moreover have "cc_count is_setup_op (cc_complete op c) = 0"
    using assms(1,2) by (simp add: cc_count_complete cc_started_def)
  moreover have "cc_held c'"
    using held_handler [OF assms(3) late] assms(1) by (simp add: cc_started_def)
  ultimately show ?thesis
    by (simp add: cc_started_def)
qed

lemma started_send: "cc_started h c \<Longrightarrow> cc_started h (cc_send_message m c)"
  using cc_send_message_inv [of h c m] by (auto simp: cc_started_def cc_send_message_def)

section \<open>The receiving end\<close>

text \<open>
  What was processed is what the bytes read so far decode to, and while a read is outstanding the
  rest of them is pending.
\<close>

definition rx_inv :: "host \<Rightarrow> byte list \<Rightarrow> cluster_connection \<Rightarrow> bool" where
  "rx_inv h bs c \<longleftrightarrow> cc_started h c \<and> cc_inbound c = map from_vector (fst (decode_stream bs))
     \<and> (0 < cc_count is_read_op c \<longrightarrow> snd (decode_stream bs) = Some (cc_pending c))"

lemma read_le_chain: "cc_count is_read_op c \<le> cc_count is_chain_op c"
proof -
  have "length (filter is_read_op xs) \<le> length (filter is_chain_op xs)" for xs
    by (induction xs) (auto simp: is_chain_op_def)
  then show ?thesis by (simp add: cc_count_def)
qed

lemma inbox_fields [simp]:
  "cc_inbound (cc_abort c) = cc_inbound c" "cc_pending (cc_abort c) = cc_pending c"
  "cc_pending (cc_shutdown c) = cc_pending c" "cc_pending (cc_start op c) = cc_pending c" "cc_inbound (cc_start op c) = cc_inbound c"
  "cc_inbound (cc_handle_read_error ec c) = cc_inbound c" "cc_pending (cc_handle_read_error ec c) = cc_pending c"
  "cc_inbound (cc_handle_write_error ec c) = cc_inbound c" "cc_pending (cc_handle_write_error ec c) = cc_pending c"
  by (simp_all add: cc_pending_def cc_abort_def cc_shutdown_def cc_start_def Let_def cc_handle_read_error_def
      cc_handle_write_error_def)

lemma inbox_updates [simp]:
  "cc_pending (c\<lparr>cc_message_outbound := m\<rparr>) = cc_pending c" "cc_pending (c\<lparr>cc_message_queue := q\<rparr>) = cc_pending c"
  "cc_pending (c\<lparr>cc_is_writing := b\<rparr>) = cc_pending c" "cc_pending (c\<lparr>cc_out_message_len_le := l\<rparr>) = cc_pending c"
  "cc_pending (c\<lparr>cc_socket_open := o1, cc_dropped := o2\<rparr>) = cc_pending c"
  by (simp_all add: cc_pending_def)

lemma inbox_write: "cc_do_write_message h m c = Inr c' \<Longrightarrow> cc_inbound c' = cc_inbound c \<and> cc_pending c' = cc_pending c"
  by (auto simp: cc_do_write_message_def Let_def ebind_eq_Inr)

lemma inbox_write_next: "cc_write_next h c = Inr c' \<Longrightarrow> cc_inbound c' = cc_inbound c \<and> cc_pending c' = cc_pending c"
  by (auto simp: cc_write_next_def Let_def ebind_eq_Inr dest: inbox_write split: if_split_asm)

lemma side_handler_inbox:
  assumes "cc_handler h op ec data c = Inr c'" and "\<not> is_chain_op op"
  shows "cc_inbound c' = cc_inbound c \<and> cc_pending c' = cc_pending c"
proof (cases op)
  case (WriteMessage s d)
  with assms show ?thesis
    by (auto simp: cc_on_write_message_def Let_def dest: inbox_write_next split: if_split_asm)
next
  case SslShutdown
  with assms show ?thesis
    by (auto simp: cc_on_shutdown_def)
next
  case (SendTask m)
  with assms show ?thesis
    by (auto simp: cc_send_task_def ebind_eq_Inr dest: inbox_write split: if_split_asm)
qed (use assms(2) in \<open>simp_all add: is_chain_op_def\<close>)

lemma rx_other:
  assumes "rx_inv h bs c" and "op \<in> set (cc_ops c)" and "is_read_op op \<longrightarrow> ec \<noteq> NoError"
    and "cc_handler h op ec data (cc_complete op c) = Inr c'"
  shows "rx_inv h bs c'"
proof -
  have st: "cc_started h c" "cc_started h c'"
    using assms(1) started_handler [OF _ assms(2,4)] by (simp_all add: rx_inv_def)
  show ?thesis
  proof (cases "is_read_op op")
    case False
    then have side: "\<not> is_chain_op op"
      using started_op [OF st(1) assms(2)] by (simp add: is_chain_op_def)
    have "cc_count is_read_op c' = cc_count is_read_op c"
      using side_handler_filter [OF assms(4) side, of is_read_op] cc_count_complete [OF assms(2), of is_read_op] False
      by (simp add: cc_count_def)
    then show ?thesis
      using assms(1) st(2) side_handler_inbox [OF assms(4) side] by (simp add: rx_inv_def)
  next
    case True
    then have c': "c' = cc_handle_read_error ec (cc_complete op c)"
      using assms(3,4) by (cases op) (auto simp: cc_on_read_def)
    have "cc_count is_read_op c' = cc_count is_read_op (cc_complete op c)"
      unfolding c' by (simp add: cc_count_def error_filter)
    then have "cc_count is_read_op c' = 0"
      using cc_completed(2) [of h c op] st(1) assms(2) True read_le_chain [of "cc_complete op c"]
      by (simp add: cc_started_def is_chain_op_def)
    then show ?thesis
      using assms(1) st(2) by (simp add: rx_inv_def c')
  qed
qed

lemma rx_read:
  assumes "endian_host h" and "rx_inv h bs c" and "ReadSome b \<in> set (cc_ops c)"
    and "cc_handler h (ReadSome b) NoError d (cc_complete (ReadSome b) c) = Inr c'"
  shows "rx_inv h (bs @ d) c'"
proof -
  let ?k = "cc_complete (ReadSome b) c"
  have st: "cc_started h c" "cc_started h c'"
    using assms(2) started_handler [OF _ assms(3,4)] by (simp_all add: rx_inv_def)
  have c': "c' = cc_on_read h NoError d ?k"
    using assms(4) by simp
  have none: "cc_count is_read_op ?k = 0"
    using cc_completed(2) [of h c "ReadSome b"] st(1) assms(3) read_le_chain [of ?k] by (simp add: cc_started_def)
  have "0 < cc_count is_read_op c"
    using assms(3) by (rule cc_count_pos) simp
  then have p: "snd (decode_stream bs) = Some (cc_pending c)"
    using assms(2) by (simp add: rx_inv_def)
  obtain ms r where dec: "decode_stream (cc_pending c @ d) = (ms, r)"
    by fastforce
  have all: "decode_stream (bs @ d) = (fst (decode_stream bs) @ ms, r)"
    using decode_append [of bs d] p dec by (simp add: case_prod_unfold)
  show ?thesis
  proof (cases r)
    case None
    then obtain len buf where "c' = cc_shutdown (cc_inbox len buf (cc_inbound c @ map from_vector ms) ?k)"
      using endian_host.on_read_decodes [OF assms(1), where c = ?k and d = d] dec c' by auto
    moreover from this have "cc_count is_read_op c' = 0"
      using none by (simp add: cc_count_def)
    ultimately show ?thesis
      using assms(2) st(2) all by (simp add: rx_inv_def)
  next
    case (Some rest)
    then obtain len buf where "c' = cc_read_next (cc_inbox len buf (cc_inbound c @ map from_vector ms) ?k)"
        "cc_pending (cc_inbox len buf [] ?k) = rest"
      using endian_host.on_read_decodes [OF assms(1), where c = ?k and d = d] dec c' by auto
    then show ?thesis
      using assms(2) st(2) all Some by (simp add: rx_inv_def)
  qed
qed

section \<open>The sending end\<close>

definition frames :: "message list \<Rightarrow> byte list" where
  "frames ms = concat (map (frame \<circ> message_bytes) ms)"

lemma frames_append [simp]: "frames [] = []" "frames (ms @ ns) = frames ms @ frames ns"
  by (simp_all add: frames_def)

text \<open>A connection whose last write failed, but that was not closed, never writes again.\<close>

definition cc_stuck :: "cluster_connection \<Rightarrow> bool" where
  "cc_stuck c \<longleftrightarrow> cc_is_writing c \<and> cc_count is_write_op c = 0"

text \<open>The rest of the write in progress, after \<open>t\<close> bytes of it.\<close>

definition tx_rest :: "nat \<Rightarrow> cluster_connection \<Rightarrow> byte list" where
  "tx_rest t c = drop t (concat (cc_wire c))"

text \<open>
  The bytes put on the link and the rest of the write in progress are a prefix of the frames of
  the accepted messages, and what is missing is queued unless the connection writes no more.
\<close>

definition tx_inv :: "host \<Rightarrow> message list \<Rightarrow> byte list \<Rightarrow> nat \<Rightarrow> cluster_connection \<Rightarrow> bool" where
  "tx_inv h acc put t c \<longleftrightarrow> cc_started h c \<and> t \<le> length (concat (cc_wire c))
     \<and> prefix (put @ tx_rest t c) (frames acc)
     \<and> (cc_quiet c \<or> cc_stuck c \<or> cc_ready h c \<and> put @ tx_rest t c @ frames (cc_waiting c) = frames acc)"

text \<open>Handlers that leave the outbound side alone, or close the connection.\<close>

definition same_outbound :: "cluster_connection \<Rightarrow> cluster_connection \<Rightarrow> bool" where
  "same_outbound c c' \<longleftrightarrow> filter is_write_op (cc_ops c') = filter is_write_op (cc_ops c)
     \<and> cc_is_writing c' = cc_is_writing c \<and> cc_message_queue c' = cc_message_queue c
     \<and> cc_dropped c' = cc_dropped c \<and> cc_shutting_down c' = cc_shutting_down c"

lemma tx_same:
  assumes "tx_inv h acc put t c" and "cc_started h c'" and "same_outbound c c'"
  shows "tx_inv h acc put t c'"
proof -
  have "cc_wire c' = cc_wire c" "cc_count is_write_op c' = cc_count is_write_op c"
    using assms(3) by (simp_all add: same_outbound_def cc_wire_def cc_count_def)
  then show ?thesis
    using assms by (auto simp: tx_inv_def tx_rest_def same_outbound_def cc_quiet_def cc_closed_def cc_stuck_def
        cc_ready_def cc_started_def cc_waiting_def)
qed

lemma tx_quiet:
  assumes "tx_inv h acc put t c" and "cc_started h c'" and "cc_quiet c'"
    and "filter is_write_op (cc_ops c') = filter is_write_op (cc_ops c)"
  shows "tx_inv h acc put t c'"
  using assms by (simp add: tx_inv_def tx_rest_def cc_wire_def)

lemma shutdown_outbound:
  assumes "cc_held c"
  shows "cc_shutdown c = c \<or> cc_quiet (cc_shutdown c)"
  using assms shutdown_quiet [of c] by (cases "cc_dropped c \<or> cc_shutting_down c") (auto simp: cc_shutdown_def cc_held_def)

lemma error_outbound:
  assumes "cc_held c"
  shows "cc_handle_read_error ec c = c \<or> cc_quiet (cc_handle_read_error ec c)"
    and "cc_handle_write_error ec c = c \<or> cc_quiet (cc_handle_write_error ec c)"
  using assms shutdown_outbound [of c] abort_quiet [of c]
  by (auto simp: cc_handle_read_error_def cc_handle_write_error_def)

lemma read_outbound:
  assumes "cc_held c"
  shows "same_outbound c (cc_on_read h ec data c) \<or> cc_quiet (cc_on_read h ec data c)"
proof (cases rule: on_read_cases [of h ec data c])
  case error
  then show ?thesis
    using error_outbound(1) [OF assms, of ec] by (auto simp: same_outbound_def)
next
  case (next_read len buf ms)
  then show ?thesis
    by (simp add: same_outbound_def cc_read_next_def cc_inbox_def)
next
  case (refused len buf ms)
  have "same_outbound c (cc_inbox len buf ms c)"
    by (simp add: same_outbound_def cc_inbox_def)
  then show ?thesis
    using refused shutdown_outbound [of "cc_inbox len buf ms c"] assms by auto
qed

lemma same_outbound_complete: "\<not> is_write_op op \<Longrightarrow> same_outbound c (cc_complete op c)"
  by (simp add: same_outbound_def cc_complete_def filter_remove1_other)

lemma tx_send_ready:
  assumes "endian_host h" and "tx_inv h acc put t c" and "cc_ready h c"
    and "put @ tx_rest t c @ frames (cc_waiting c) = frames acc"
    and "\<not> is_empty m" and "cc_send_task h m c = Inr c'" and "cc_started h c'"
  shows "tx_inv h (acc @ [m]) put t c'"
proof -
  have r: "cc_ready h c'" "cc_inflight c' @ cc_waiting c' = cc_inflight c @ cc_waiting c @ [m]"
    using cc_send_ready [OF assms(3,5)] assms(6) by auto
  have wire: "concat (cc_wire c) = frames (cc_inflight c)" "concat (cc_wire c') = frames (cc_inflight c')"
    using cc_wire_ready [OF assms(1)] assms(3) r(1) by (simp_all add: frames_def)
  have t: "t \<le> length (frames (cc_inflight c))"
    using assms(2) wire(1) by (simp add: tx_inv_def)
  have one: "length (cc_inflight c) \<le> 1" "length (cc_inflight c') \<le> 1" "cc_waiting c' \<noteq> [] \<longrightarrow> cc_inflight c' \<noteq> []"
    using cw.one_inflight [OF assms(3)] cw.one_inflight [OF r(1)] cw.busy_if_waiting [OF r(1)] by blast+
  have "put @ tx_rest t c' @ frames (cc_waiting c') = frames (acc @ [m]) \<and> t \<le> length (frames (cc_inflight c'))"
  proof (cases "cc_inflight c")
    case Nil
    then have "cc_waiting c = []" "t = 0"
      using cw.drained [OF assms(3)] t by simp_all
    then show ?thesis
      using Nil r(2) assms(4) wire by (simp add: tx_rest_def flip: frames_append(2))
  next
    case (Cons x xs)
    then have "cc_inflight c' = [x] \<and> cc_waiting c' = cc_waiting c @ [m] \<and> xs = []"
      using r(2) one by (cases "cc_inflight c'") auto
    then show ?thesis
      using Cons t assms(4) wire by (simp add: tx_rest_def)
  qed
  moreover from this have "prefix (put @ tx_rest t c') (frames (acc @ [m]))"
    by (metis append.assoc prefixI)
  ultimately show ?thesis
    using assms(7) r(1) wire by (simp add: tx_inv_def)
qed

lemma tx_send:
  assumes "endian_host h" and "tx_inv h acc put t c" and "\<not> is_empty m" and "cc_send_task h m c = Inr c'" and "cc_started h c'"
  shows "tx_inv h (acc @ accepts_message (SendTask m) c) put t c'"
proof -
  consider (closed) "cc_closed c" | (stuck) "\<not> cc_closed c" "cc_stuck c"
    | (ready) "\<not> cc_closed c" "cc_ready h c" "put @ tx_rest t c @ frames (cc_waiting c) = frames acc"
    using assms(2) by (auto simp: tx_inv_def cc_quiet_def)
  then show ?thesis
  proof cases
    case closed
    then show ?thesis
      using assms(2,4) by (simp add: cc_send_task_def cc_closed_def)
  next
    case stuck
    then obtain q where "c' = c\<lparr>cc_message_queue := q\<rparr>"
      using assms(4) by (auto simp: cc_send_task_def cc_closed_def cc_stuck_def ebind_eq_Inr)
    then show ?thesis
      using assms(2,5) stuck by (auto simp: tx_inv_def tx_rest_def cc_wire_def cc_stuck_def)
  next
    case ready
    then show ?thesis
      using tx_send_ready [OF assms(1,2) ready(2,3) assms(3-5)] by simp
  qed
qed

lemma tx_other:
  assumes "endian_host h" and "tx_inv h acc put t c" and "op \<in> set (cc_ops c)" and "\<not> is_write_op op"
    and "cc_handler h op ec data (cc_complete op c) = Inr c'"
  shows "tx_inv h (acc @ accepts_message op c) put t c'"
proof -
  let ?k = "cc_complete op c"
  have st: "cc_started h c" "cc_started h c'" "cc_started h ?k"
    using assms(2) started_handler [OF _ assms(3,5)] cc_complete_inv [OF _ assms(3), of h]
    by (auto simp: tx_inv_def cc_started_def cc_count_complete [OF assms(3)])
  then have k: "tx_inv h acc put t ?k"
    using tx_same [OF assms(2)] same_outbound_complete [OF assms(4)] by blast
  show ?thesis
  proof (cases op)
    case (ReadSome s)
    then have c': "c' = cc_on_read h ec data ?k"
      using assms(5) by simp
    then have "same_outbound ?k c' \<or> cc_quiet c'"
      using read_outbound st(3) by (simp add: cc_started_def)
    moreover have "filter is_write_op (cc_ops c') = filter is_write_op (cc_ops ?k)"
      unfolding c' by (rule on_read_filter) simp_all
    ultimately show ?thesis
      using ReadSome tx_same [OF k st(2)] tx_quiet [OF k st(2)] by auto
  next
    case SslShutdown
    then have "cc_shutting_down ?k" "\<not> cc_ready h ?k"
      using cc_invD(9) [of h c] assms(3) st(1) by (auto simp: cc_started_def cc_ready_def cc_complete_def)
    moreover have f: "filter is_write_op (cc_ops c') = filter is_write_op (cc_ops ?k)" "cc_is_writing c' = cc_is_writing ?k"
      using SslShutdown assms(5) by (auto simp: cc_on_shutdown_def split: if_split_asm)
    ultimately have "cc_quiet c' \<or> cc_stuck c'"
      using k quiet_handler [OF _ assms(5)] by (auto simp: tx_inv_def cc_stuck_def cc_count_def)
    then show ?thesis
      using SslShutdown k st(2) f by (auto simp: tx_inv_def tx_rest_def cc_wire_def)
  next
    case (SendTask m)
    have "\<not> is_empty m"
      using cc_invD(3) [of h c op] assms(3) st(1) SendTask by (auto simp: cc_started_def)
    moreover have "accepts_message op c = accepts_message op ?k"
      using SendTask by (simp add: cc_closed_def cc_complete_def)
    ultimately show ?thesis
      using tx_send [OF assms(1) k _ _ st(2)] assms(5) SendTask by simp
  qed (use started_op [OF st(1) assms(3)] assms(4) in auto)
qed

lemma write_done_wire:
  assumes "cc_inv h c" and "op \<in> set (cc_ops c)" and "is_write_op op"
  shows "cc_wire c = [op_data op]" and "cc_wire (cc_complete op c) = []"
    and "cc_finished h c = cc_on_write_message h NoError (cc_complete op c)"
proof -
  have "op \<in> set (filter is_write_op (cc_ops c))" "length (filter is_write_op (cc_ops c)) \<le> 1"
    using assms(2,3) cc_invD(5) [OF assms(1)] by (simp_all add: cc_count_def)
  then have f: "filter is_write_op (cc_ops c) = [op]"
    by (cases "filter is_write_op (cc_ops c)") auto
  then show "cc_wire c = [op_data op]" "cc_finished h c = cc_on_write_message h NoError (cc_complete op c)"
    by (simp_all add: cc_wire_def cc_finished_def)
  show "cc_wire (cc_complete op c) = []"
    using f assms(3) by (simp add: cc_wire_def cc_complete_def filter_remove1_same)
qed

lemma tx_write_done:
  assumes "endian_host h" and "tx_inv h acc put t c" and "op \<in> set (cc_ops c)" and "is_write_op op"
    and "cc_handler h op NoError data (cc_complete op c) = Inr c'" and "t = length (op_data op)"
  shows "tx_inv h acc put 0 c'"
proof -
  have st: "cc_started h c" "cc_started h c'"
    using assms(2) started_handler [OF _ assms(3,5)] by (simp_all add: tx_inv_def)
  then have inv: "cc_inv h c"
    by (simp add: cc_started_def)
  note w = write_done_wire [OF inv assms(3,4)]
  have rest: "tx_rest t c = []"
    using w(1) assms(6) by (simp add: tx_rest_def)
  have "0 < cc_count is_write_op c"
    using assms(3,4) by (rule cc_count_pos)
  then consider (quiet) "cc_quiet c" | (ready) "cc_ready h c" "put @ frames (cc_waiting c) = frames acc"
    using assms(2) rest by (auto simp: tx_inv_def cc_stuck_def)
  then show ?thesis
  proof cases
    case quiet
    then have "cc_quiet c'" "cc_wire c' = []"
      using quiet_handler [OF _ assms(5)] w(2) by (simp_all add: cc_wire_def)
    then show ?thesis
      using assms(2) st(2) rest by (simp add: tx_inv_def tx_rest_def)
  next
    case ready
    have "cc_inflight c \<noteq> []"
      using \<open>0 < cc_count is_write_op c\<close> by (simp add: cc_inflight_def)
    then have r: "cc_ready h c'" "cc_inflight c' @ cc_waiting c' = cc_waiting c"
      using cc_finished_ready [OF ready(1)] w(3) assms(4,5) by (cases op; auto)+
    have wire: "concat (cc_wire c') = frames (cc_inflight c')"
      using cc_wire_ready [OF assms(1) r(1)] by (simp add: frames_def)
    have "put @ tx_rest 0 c' @ frames (cc_waiting c') = frames acc"
      using ready(2) r(2) wire by (simp add: tx_rest_def flip: frames_append(2))
    moreover from this have "prefix (put @ tx_rest 0 c') (frames acc)"
      by (metis append.assoc prefixI)
    ultimately show ?thesis
      using st(2) r(1) by (simp add: tx_inv_def)
  qed
qed

lemma tx_write_failed:
  assumes "tx_inv h acc put t c" and "op \<in> set (cc_ops c)" and "is_write_op op" and "ec \<noteq> NoError"
    and "cc_handler h op ec data (cc_complete op c) = Inr c'"
  shows "tx_inv h acc put 0 c'"
proof -
  have st: "cc_started h c" "cc_started h c'"
    using assms(1) started_handler [OF _ assms(2,5)] by (simp_all add: tx_inv_def)
  let ?k = "(cc_complete op c)\<lparr>cc_message_outbound := Message\<rparr>"
  have c': "c' = cc_handle_write_error ec ?k"
    using assms(3-5) by (cases op) (auto simp: cc_on_write_message_def)
  have k: "cc_held ?k" "cc_stuck ?k"
    using st(1) cc_completed(3) [of h c op] assms(2,3) by (auto simp: cc_started_def cc_stuck_def cc_idle_def)
  have "cc_wire c' = []"
    using write_done_wire(2) [of h c op] st(1) assms(2,3) error_filter(2) [of is_write_op ec ?k]
    by (simp add: c' cc_wire_def cc_started_def)
  moreover have "cc_quiet c' \<or> cc_stuck c'"
    using error_outbound(2) [OF k(1), of ec] k(2) by (auto simp: c')
  moreover have "prefix put (frames acc)"
    using assms(1) append_prefixD by (auto simp: tx_inv_def)
  ultimately show ?thesis
    using st(2) by (auto simp: tx_inv_def tx_rest_def)
qed

section \<open>Both ends\<close>

definition lk_inv :: "host \<Rightarrow> host \<Rightarrow> cluster_link \<Rightarrow> bool" where
  "lk_inv h1 h2 s \<longleftrightarrow>
     tx_inv h1 (lk_accepted s) (lk_received s @ lk_wire s) (lk_transmitted s) (lk_sender s)
     \<and> rx_inv h2 (lk_received s) (lk_receiver s) \<and> list_all (\<lambda>m. \<not> is_empty m) (lk_accepted s)"

text \<open>\<open>send_message\<close> posts no null message, so none is accepted.\<close>

lemma accepted_not_null:
  assumes "cc_started h c" and "op \<in> set (cc_ops c)"
  shows "list_all (\<lambda>m. \<not> is_empty m) (accepts_message op c)"
  using assms by (cases op) (auto simp: cc_started_def cc_inv_def)

lemma tx_transmit:
  assumes "tx_inv h acc put t c" and "WriteMessage b d \<in> set (cc_ops c)" and "t + k \<le> length d"
  shows "tx_inv h acc (put @ take k (drop t d)) (t + k) c"
proof -
  have "cc_wire c = [d]"
    using write_done_wire(1) [of h c "WriteMessage b d"] assms(1,2) by (simp add: tx_inv_def cc_started_def)
  then have "take k (drop t d) @ tx_rest (t + k) c = tx_rest t c"
    by (simp add: tx_rest_def add.commute flip: drop_drop)
  then show ?thesis
    using assms(1,3) \<open>cc_wire c = [d]\<close> by (simp add: tx_inv_def) (metis append.assoc)
qed

lemma lk_step_inv:
  assumes "endian_host h1" and "endian_host h2" and "lk_step h1 h2 s s'" and "lk_inv h1 h2 s"
  shows "lk_inv h1 h2 s'"
proof -
  have tx: "tx_inv h1 (lk_accepted s) (lk_received s @ lk_wire s) (lk_transmitted s) (lk_sender s)"
    and rx: "rx_inv h2 (lk_received s) (lk_receiver s)" and acc: "list_all (\<lambda>m. \<not> is_empty m) (lk_accepted s)"
    using assms(4) by (simp_all add: lk_inv_def)
  from assms(3) show ?thesis
  proof cases
    case (sender_sends m)
    have "same_outbound (lk_sender s) (cc_send_message m (lk_sender s))"
      by (simp add: same_outbound_def cc_send_message_def)
    then show ?thesis
      using sender_sends tx rx acc tx_same [OF tx] started_send by (simp add: lk_inv_def tx_inv_def)
  next
    case (sender_completes op ec data c')
    then show ?thesis
      using tx_other [OF assms(1) tx sender_completes(2-4)] rx acc accepted_not_null [OF _ sender_completes(2), of h1] tx
      by (simp add: lk_inv_def tx_inv_def [of h1 "lk_accepted s"])
  next
    case (bytes_leave b d k)
    then show ?thesis
      using tx_transmit [OF tx bytes_leave(2,3)] rx acc by (simp add: lk_inv_def)
  next
    case (write_completes b d ec data c')
    then show ?thesis
      using tx_write_done [OF assms(1) tx write_completes(2)] tx_write_failed [OF tx write_completes(2), of ec data c'] rx acc
      by (cases "ec = NoError") (auto simp: lk_inv_def)
  next
    case (read_completes b k c')
    then show ?thesis
      using tx acc rx_read [OF assms(2) rx read_completes(2,5)] by (simp add: lk_inv_def)
  next
    case (receiver_completes op ec data c')
    then show ?thesis
      using tx acc rx_other [OF rx receiver_completes(2-4)] by (simp add: lk_inv_def)
  next
    case (receiver_sends m)
    have "cc_count is_read_op (cc_send_message m (lk_receiver s)) = cc_count is_read_op (lk_receiver s)"
      by (simp add: cc_send_message_def)
    moreover have "cc_inbound (cc_send_message m (lk_receiver s)) = cc_inbound (lk_receiver s)"
      "cc_pending (cc_send_message m (lk_receiver s)) = cc_pending (lk_receiver s)"
      by (simp_all add: cc_send_message_def)
    ultimately show ?thesis
      using receiver_sends tx rx acc started_send by (simp add: lk_inv_def rx_inv_def)
  qed
qed

text \<open>The interface of two hosts that can talk to each other.\<close>

locale host_pair = sender: endian_host h1 + receiver: endian_host h2 for h1 h2
begin

lemma step_inv: "lk_step h1 h2 s s' \<Longrightarrow> lk_inv h1 h2 s \<Longrightarrow> lk_inv h1 h2 s'"
  by (rule lk_step_inv [OF sender.endian_host_axioms receiver.endian_host_axioms])

end

sublocale host_pair \<subseteq> link: preserved "lk_step h1 h2" "lk_inv h1 h2"
  by unfold_locales (rule step_inv)

context host_pair
begin

lemma connected_inv: "(lk_step h1 h2)\<^sup>*\<^sup>* s s' \<Longrightarrow> lk_inv h1 h2 s \<Longrightarrow> lk_inv h1 h2 s'"
  by (rule link.steps_inv)

end

interpretation mixed_pair: host_pair little_host big_host
  by unfold_locales

lemma decode_prefix:
  assumes "prefix bs (concat (map frame ps))" and "\<forall>p \<in> set ps. length p < 2 ^ 32"
  shows "prefix (fst (decode_stream bs)) ps"
proof -
  obtain rest where rest: "concat (map frame ps) = bs @ rest"
    using assms(1) by (auto simp: prefix_def)
  have "prefix (fst (decode_stream bs)) (fst (decode_stream (bs @ rest)))"
    by (simp add: decode_append [of bs rest] case_prod_unfold split: option.split)
  moreover have "prefix (fst (decode_stream (bs @ rest))) ps"
    using decode_frames_prefix [OF assms(2)] rest by (auto simp: prefix_def)
  ultimately show ?thesis
    by (rule prefix_order.trans)
qed

lemma lk_connect_inv:
  assumes "cc_ready h1 c" and "cc_inflight c = []" and "cc_socket_open c"
    and "cc_started h2 d" and "cc_pending d = []" and "cc_inbound d = []"
  shows "lk_inv h1 h2 (lk_connect c d)"
proof -
  have "cc_waiting c = []" "cc_wire c = []"
    using cw.drained [OF assms(1,2)] assms(2) by (simp_all add: cc_inflight_def cc_count_def cc_wire_def split: if_split_asm)
  then have "tx_inv h1 [] [] 0 c"
    using assms(1,3) by (simp add: tx_inv_def tx_rest_def cc_started_def cc_ready_def cc_held_def)
  then show ?thesis
    using assms(4-6) by (simp add: lk_inv_def lk_connect_def rx_inv_def)
qed

lemma not_null_messages: "list_all (\<lambda>m. \<not> is_empty m) ms \<Longrightarrow> map from_vector (map message_bytes ms) = ms"
  by (induction ms) (auto simp: message_eq_from_vector [symmetric])

section \<open>Properties\<close>

text \<open>
  C1. A link delivers a prefix. Two connections that finished their handshake and agree on the kind
  of link are joined by it: the sender is ready with nothing in flight, the receiver has nothing
  pending and has processed nothing. Every payload the sender accepts is shorter than \<open>2\<^sup>3\<^sup>2\<close>
  bytes, the longest a length of 32 bits can announce. However sends, writes, reads, failures and
  shutdowns of both ends interleave, the messages that the receiver has processed are a prefix of
  those the sender accepted. They are all of them when no payload is empty (an empty one makes
  the receiver close), the sender is still ready with nothing in flight and the link is empty.
\<close>

theorem cluster_link_prefix:
  assumes "endian_host h1" and "endian_host h2" and "cc_ready h1 c" and "cc_inflight c = []" and "cc_socket_open c"
    and "cc_started h2 d" and "cc_pending d = []" and "cc_inbound d = []" and "cc_safe_link c = cc_safe_link d"
    and "(lk_step h1 h2)\<^sup>*\<^sup>* (lk_connect c d) s" and "\<forall>m \<in> set (lk_accepted s). length (message_bytes m) < 2 ^ 32"
  shows "prefix (cc_inbound (lk_receiver s)) (lk_accepted s)
    \<and> ((\<forall>m \<in> set (lk_accepted s). message_bytes m \<noteq> []) \<and> cc_ready h1 (lk_sender s) \<and> cc_inflight (lk_sender s) = []
        \<and> lk_wire s = [] \<longrightarrow> cc_inbound (lk_receiver s) = lk_accepted s)"
proof -
  let ?ps = "map message_bytes (lk_accepted s)"
  have "host_pair h1 h2"
    using assms(1,2) by (simp add: host_pair_def)
  from host_pair.connected_inv [OF this assms(10) lk_connect_inv [OF assms(3-8)]]
  have inv: "lk_inv h1 h2 s" .
  have ps: "\<forall>p \<in> set ?ps. length p < 2 ^ 32" "frames (lk_accepted s) = concat (map frame ?ps)" "map from_vector ?ps = lk_accepted s"
    using assms(11) not_null_messages [of "lk_accepted s"] inv by (simp_all add: lk_inv_def frames_def)
  have bound: "cc_inbound (lk_receiver s) = map from_vector (fst (decode_stream (lk_received s)))"
    using inv by (simp add: lk_inv_def rx_inv_def)
  have "prefix (lk_received s) (concat (map frame ?ps))"
    using inv ps(2) append_prefixD by (auto simp: lk_inv_def tx_inv_def)
  then have "prefix (cc_inbound (lk_receiver s)) (lk_accepted s)"
    using map_mono_prefix [OF decode_prefix [OF _ ps(1)], of "lk_received s" from_vector] bound ps(3) by simp
  moreover have "cc_inbound (lk_receiver s) = lk_accepted s"
    if r: "cc_ready h1 (lk_sender s)" "cc_inflight (lk_sender s) = []" "lk_wire s = []"
      and full: "\<forall>m \<in> set (lk_accepted s). message_bytes m \<noteq> []"
  proof -
    have "cc_waiting (lk_sender s) = []" "cc_wire (lk_sender s) = []"
      using cw.drained [OF r(1,2)] cc_wire_ready [OF assms(1) r(1)] r(2) by simp_all
    then have "lk_received s = concat (map frame ?ps)"
      using inv r ps(2) by (auto simp: lk_inv_def tx_inv_def tx_rest_def cc_ready_def cc_quiet_def cc_closed_def cc_stuck_def)
    moreover have "list_all sendable ?ps"
      using full assms(11) by (auto simp: list_all_iff sendable_def)
    ultimately show ?thesis
      using bound decode_frames [of ?ps] ps(3) by simp
  qed
  ultimately show ?thesis
    by blast
qed

text \<open>One message over the link: sent, accepted, transmitted, read in one piece, and its write completed.\<close>

theorem cluster_link_prefix_witness:
  "\<exists>s. (lk_step little_host big_host)\<^sup>*\<^sup>* (lk_connect ready_example reading_example) s
     \<and> lk_accepted s = [from_vector [5]] \<and> cc_inbound (lk_receiver s) = [from_vector [5]]"
proof -
  let ?step = "lk_step little_host big_host" and ?m = "from_vector [5]" and ?d = "[1, 0, 0, 0, 5 :: byte]"
  let ?w = "WriteMessage True ?d"
  define s0 where "s0 = lk_connect ready_example reading_example"
  define s1 where "s1 = s0\<lparr>lk_sender := cc_send_message ?m (lk_sender s0)\<rparr>"
  define s2 where "s2 = s1\<lparr>lk_sender := busy_example, lk_accepted := lk_accepted s1 @ accepts_message (SendTask ?m) (lk_sender s1)\<rparr>"
  define s3 where "s3 = s2\<lparr>lk_transmitted := lk_transmitted s2 + 5, lk_wire := lk_wire s2 @ take 5 (drop (lk_transmitted s2) ?d)\<rparr>"
  define r where "r = cc_on_read big_host NoError ?d (cc_complete (ReadSome True) reading_example)"
  define s4 where "s4 = s3\<lparr>lk_receiver := r, lk_wire := drop 5 (lk_wire s3), lk_received := lk_received s3 @ take 5 (lk_wire s3)\<rparr>"
  obtain c where c: "cc_finished little_host busy_example = Inr c" "cc_ready little_host c" "cc_inflight c @ cc_waiting c = []"
    using cc_finished_ready [OF busy_example_ready(1)] busy_example_ready(2,3) by auto
  define s5 where "s5 = s4\<lparr>lk_sender := c, lk_transmitted := 0\<rparr>"
  note defs = s1_def s2_def s3_def s4_def s5_def
  have sent: "cc_complete (SendTask ?m) (cc_send_message ?m ready_example) = ready_example"
    by (simp add: cc_send_message_def cc_start_def cc_complete_def ready_example_def ClusterConnection_def)
  have "?step s0 s1"
    unfolding s1_def by (rule sender_sends)
  moreover have "?step s1 s2"
    unfolding s2_def
    by (rule sender_completes [where ec = NoError and data = "[]"])
      (simp_all add: s1_def s0_def lk_connect_def sent busy_example_ready(4), simp add: cc_send_message_def)
  moreover have "?step s2 s3"
    unfolding s3_def by (rule bytes_leave [of True]) (use busy_example_write in \<open>simp_all add: defs s0_def lk_connect_def\<close>)
  moreover have "?step s3 s4"
    unfolding s4_def
    by (rule read_completes [of True])
      (simp_all add: defs s0_def lk_connect_def r_def read_chunk_size_def reading_example_def cc_read_next_def ClusterConnection_def)
  moreover have "?step s4 s5"
    unfolding s5_def
    by (rule write_completes [of True ?d _ NoError _ "[]"])
      (use busy_example_write c(1) write_done_wire(3) [of little_host busy_example ?w] busy_example_ready(1)
        in \<open>simp_all add: defs s0_def lk_connect_def cc_ready_def\<close>)
  ultimately have steps: "?step\<^sup>*\<^sup>* s0 s5"
    by (meson converse_rtranclp_into_rtranclp rtranclp.rtrancl_refl)
  have s5: "lk_accepted s5 = [?m]" "lk_sender s5 = c" "lk_wire s5 = []"
    by (simp_all add: defs s0_def lk_connect_def cc_closed_def ready_example_def ClusterConnection_def cc_send_message_def)
  have "cc_started big_host reading_example"
    by (simp add: cc_started_def cc_held_def reading_example_def ClusterConnection_def cc_read_next_def cc_inv_def
        cc_count_def cc_start_def mq.wf_empty)
  then have "cc_inbound (lk_receiver s5) = lk_accepted s5"
    using cluster_link_prefix [OF little.endian_host_axioms big.endian_host_axioms ready_example_ok _ _
        reading_example_ok(2,3) _ steps [unfolded s0_def], THEN conjunct2] s5 c
    by (simp add: sendable_def ready_example_def reading_example_def ClusterConnection_def cc_read_next_def cc_start_def)
  then show ?thesis
    using steps s5(1) by (auto simp: s0_def)
qed

end
