(* ===== verification/HappyAst.thy ===== *)
theory HappyAst
  imports IanPrelude
begin

text \<open>
  The syntax tree of the interface language of \<^verbatim>\<open>tools/happy\<close> (\<^verbatim>\<open>src/Ast.hpp\<close>) and its
  printer (\<^verbatim>\<open>src/AstPrint.hpp\<close>). Every node class carries the position \<open>origin\<close> where its
  text begins. Line and column are unbounded integers here; both are bounded by the length of
  the document, so the source's \<open>int\<close> does not overflow on documents below two gigabytes.
\<close>

section \<open>Nodes\<close>

record DocumentPosition =
  dp_file :: string
  dp_line :: int
  dp_column :: int

type_synonym AstIdentifier = string
type_synonym AstString = string
type_synonym AstInteger = int

record AstQualifiedIdentifier =
  qi_space :: "AstIdentifier list"
  qi_name :: AstIdentifier

text \<open>The size of a type that is not an array is left uninitialised by the parser: \<open>None\<close>.\<close>

record AstType =
  ty_identifier :: AstQualifiedIdentifier
  ty_is_array :: bool
  ty_array_size :: "AstInteger option"

record AstStructField =
  sf_origin :: DocumentPosition
  sf_identifier :: AstIdentifier
  sf_type :: AstType

record AstStruct =
  st_origin :: DocumentPosition
  st_identifier :: AstIdentifier
  st_fields :: "AstStructField list"

record AstMappingField =
  mf_origin :: DocumentPosition
  mf_identifier :: AstIdentifier
  mf_mapping_decl :: AstString

record AstMapping =
  mp_origin :: DocumentPosition
  mp_struct_id :: AstIdentifier
  mp_map_category :: AstQualifiedIdentifier
  mp_fields :: "AstMappingField list"

datatype AstEncodingNode =
    AstEncodingField DocumentPosition AstIdentifier AstIdentifier
  | AstEncodingDeltaBlock DocumentPosition "AstEncodingNode list"

record AstEncoding =
  en_origin :: DocumentPosition
  en_struct_id :: AstIdentifier
  en_enco_id :: AstIdentifier
  en_fields :: "AstEncodingNode list"

record AstInclude =
  in_origin :: DocumentPosition
  in_path :: AstString

record AstRoot =
  rt_origin :: DocumentPosition
  rt_includes :: "AstInclude list"
  rt_space :: AstQualifiedIdentifier
  rt_struct_decls :: "AstStruct list"
  rt_map_decls :: "AstMapping list"
  rt_enco_decls :: "AstEncoding list"

section \<open>Printing\<close>

text \<open>Decimal output of an integer by a stream.\<close>

fun show_nat :: "nat \<Rightarrow> string" where
  "show_nat n =
     (if n < 10 then [char_of (48 + n)]
      else show_nat (n div 10) @ [char_of (48 + n mod 10)])"

declare show_nat.simps [simp del]

definition show_int :: "int \<Rightarrow> string" where
  "show_int i = (if i < 0 then CHR ''-'' # show_nat (nat (- i)) else show_nat (nat i))"

definition newline :: string where
  "newline = [CHR 0x0A]"

definition print_qualified_identifier :: "AstQualifiedIdentifier \<Rightarrow> string" where
  "print_qualified_identifier q = concat (map (\<lambda>s. s @ ''.'') (qi_space q)) @ qi_name q"

text \<open>
  The size of an array type is printed; the parser always sets it for such a type, so the
  case of an indeterminate size does not arise for parsed trees.
\<close>

definition print_type :: "AstType \<Rightarrow> string" where
  "print_type t = print_qualified_identifier (ty_identifier t)
     @ (if ty_is_array t
        then ''['' @ (case ty_array_size t of Some n \<Rightarrow> show_int n | None \<Rightarrow> []) @ '']''
        else [])"

definition print_struct_field :: "AstStructField \<Rightarrow> string" where
  "print_struct_field f = sf_identifier f @ '': '' @ print_type (sf_type f)"

definition print_struct :: "AstStruct \<Rightarrow> string" where
  "print_struct d = ''DATA '' @ st_identifier d @ newline @ ''{'' @ newline
     @ concat (map (\<lambda>f. '' '' @ print_struct_field f @ newline) (st_fields d)) @ ''}''"

definition print_include :: "AstInclude \<Rightarrow> string" where
  "print_include i = ''INCLUDE '' @ [CHR 0x27] @ in_path i @ [CHR 0x27]"

definition print_root :: "AstRoot \<Rightarrow> string" where
  "print_root r =
     concat (map (\<lambda>i. print_include i @ newline) (rt_includes r))
     @ (if qi_name (rt_space r) = [] then []
        else ''NAMESPACE '' @ print_qualified_identifier (rt_space r) @ newline)
     @ concat (map (\<lambda>d. print_struct d @ newline) (rt_struct_decls r))"

end
