(* ===== verification/HappyStream.thy ===== *)
theory HappyStream
  imports HappyAst
begin

text \<open>
  The input side of the happy parser: stream readers, the parser object, its buffer and the
  position in the document (\<^verbatim>\<open>tools/happy/src/Parser.hpp\<close>, the first part of \<^verbatim>\<open>Parser.cpp\<close> and
  the reader of \<^verbatim>\<open>Main.cpp\<close>). A reader is an object with a virtual \<open>read\<close>: a state and the
  function that reads from it. The locale \<open>stream_reader\<close> states the contract of that function;
  under it, the buffer always stands for the unread part of the stream.
\<close>

section \<open>Exceptions, readers and the parser object\<close>

text \<open>
  \<open>SignedOverflow\<close> is not an exception of the source: it marks the undefined behaviour of a
  signed addition or multiplication that overflows.
\<close>

datatype parse_exn =
    ParseException DocumentPosition string
  | LogicError string
  | RuntimeError string
  | SignedOverflow

datatype Symbol =
    S_identifier | S_string | S_integer | S_number
  | S_namespace_kw | S_include_kw | S_struct_kw | S_mapping_kw | S_encoding_kw | S_delta_kw
  | S_colon | S_namespace_sep | S_curly_open | S_curly_close | S_bracket_open | S_bracket_close
  | S_eof | S_error | S_invalid

record 'r StreamReader =
  sr_state :: 'r
  sr_read :: "'r \<Rightarrow> nat \<Rightarrow> parse_exn + (string \<times> 'r)"

record 'r Parser =
  ps_reader :: "'r StreamReader"
  ps_pos :: DocumentPosition
  ps_buffer :: string
  ps_buffer_offset :: nat
  ps_next_symbol :: Symbol

definition new_Parser :: "string \<Rightarrow> 'r StreamReader \<Rightarrow> 'r Parser" where
  "new_Parser filename reader =
     \<lparr>ps_reader = reader, ps_pos = \<lparr>dp_file = filename, dp_line = 1, dp_column = 0\<rparr>,
      ps_buffer = [], ps_buffer_offset = 0, ps_next_symbol = S_invalid\<rparr>"

text \<open>
  Standard input: the bytes that remain and, if reading them all ends in an I/O error instead
  of the end of the file, the text of that error. \<^verbatim>\<open>fread\<close> returns fewer bytes than asked for
  only in these two cases.
\<close>

record stdin_file =
  fi_bytes :: string
  fi_error :: "string option"

definition StdinReader_read :: "stdin_file \<Rightarrow> nat \<Rightarrow> parse_exn + (string \<times> stdin_file)" where
  "StdinReader_read f len =
     (let got = take len (fi_bytes f);
          f' = f\<lparr>fi_bytes := drop len (fi_bytes f)\<rparr>
      in case fi_error f of
           None \<Rightarrow> Inr (got, f')
         | Some msg \<Rightarrow> if length got < len then Inl (RuntimeError msg) else Inr (got, f'))"

definition StdinReader :: "stdin_file \<Rightarrow> stdin_file StreamReader" where
  "StdinReader f = \<lparr>sr_state = f, sr_read = StdinReader_read\<rparr>"

section \<open>Parsing computations\<close>

text \<open>
  A computation on the parser returns \<open>None\<close> when its fuel runs out, an exception, or a value
  with the new parser state.
\<close>

type_synonym ('s, 'a) parse = "'s \<Rightarrow> (parse_exn + 'a \<times> 's) option"

definition preturn :: "'a \<Rightarrow> ('s, 'a) parse" where
  "preturn a s = Some (Inr (a, s))"

definition pthrow :: "parse_exn \<Rightarrow> ('s, 'a) parse" where
  "pthrow e s = Some (Inl e)"

definition pbind :: "('s, 'a) parse \<Rightarrow> ('a \<Rightarrow> ('s, 'b) parse) \<Rightarrow> ('s, 'b) parse" where
  "pbind m f s =
     (case m s of
        None \<Rightarrow> None
      | Some (Inl e) \<Rightarrow> Some (Inl e)
      | Some (Inr (a, s')) \<Rightarrow> f a s')"

definition pget :: "('s \<Rightarrow> 'a) \<Rightarrow> ('s, 'a) parse" where
  "pget f s = Some (Inr (f s, s))"

definition pmodify :: "('s \<Rightarrow> 's) \<Rightarrow> ('s, unit) parse" where
  "pmodify f s = Some (Inr ((), f s))"

definition plift :: "('s \<Rightarrow> parse_exn + 'a \<times> 's) \<Rightarrow> ('s, 'a) parse" where
  "plift f s = Some (f s)"

lemma pbind_simps [simp]:
  "m s = None \<Longrightarrow> pbind m f s = None"
  "m s = Some (Inl e) \<Longrightarrow> pbind m f s = Some (Inl e)"
  "m s = Some (Inr (a, s')) \<Longrightarrow> pbind m f s = f a s'"
  by (simp_all add: pbind_def)

lemma parse_simps [simp]:
  "preturn a s = Some (Inr (a, s))" "pthrow e s = Some (Inl e)" "pget g s = Some (Inr (g s, s))"
  "pmodify u s = Some (Inr ((), u s))" "plift k s = Some (k s)"
  by (simp_all add: preturn_def pthrow_def pget_def pmodify_def plift_def)

section \<open>Buffer\<close>

definition NUL :: char where
  "NUL = CHR 0x00"

function fill_and_peek :: "nat \<Rightarrow> 'r Parser \<Rightarrow> parse_exn + (char \<times> 'r Parser)" where
  "fill_and_peek offset p =
     (if length (ps_buffer p) \<le> ps_buffer_offset p + offset
      then
        let want = ps_buffer_offset p + offset + 0x0800 - length (ps_buffer p);
            reader = ps_reader p
        in case sr_read reader (sr_state reader) want of
             Inl e \<Rightarrow> Inl e
           | Inr (chunk, st) \<Rightarrow>
               let p' = p\<lparr>ps_reader := reader\<lparr>sr_state := st\<rparr>, ps_buffer := ps_buffer p @ chunk\<rparr>
               in if chunk = [] then Inr (NUL, p') else fill_and_peek offset p'
      else Inr (ps_buffer p ! (ps_buffer_offset p + offset), p))"
  by pat_completeness auto
termination
  by (relation "measure (\<lambda>(offset, p). ps_buffer_offset p + offset + 1 - length (ps_buffer p))")
    (auto simp flip: length_greater_0_conv)

declare fill_and_peek.simps [simp del]

definition peek_at :: "nat \<Rightarrow> ('r Parser, char) parse" where
  "peek_at offset = plift (fill_and_peek offset)"

definition trim_opportunity :: "('r Parser, unit) parse" where
  "trim_opportunity = pmodify (\<lambda>p.
     if 0x4000 \<le> ps_buffer_offset p
     then p\<lparr>ps_buffer := drop (ps_buffer_offset p) (ps_buffer p), ps_buffer_offset := 0\<rparr>
     else p)"

definition next_column :: "DocumentPosition \<Rightarrow> DocumentPosition" where
  "next_column d = d\<lparr>dp_column := dp_column d + 1\<rparr>"

definition next_line :: "DocumentPosition \<Rightarrow> DocumentPosition" where
  "next_line d = d\<lparr>dp_column := 0, dp_line := dp_line d + 1\<rparr>"

definition char_pos :: "char \<Rightarrow> DocumentPosition \<Rightarrow> DocumentPosition" where
  "char_pos c d = (if c = CHR 0x0A then next_line d else next_column d)"

text \<open>The loop of \<open>advance\<close>: the characters \<open>i, ..., i + k - 1\<close> move the position.\<close>

fun advance_loop :: "nat \<Rightarrow> nat \<Rightarrow> ('r Parser, unit) parse" where
  "advance_loop i 0 = preturn ()"
| "advance_loop i (Suc k) =
     pbind (peek_at i) (\<lambda>c.
     pbind (pmodify (\<lambda>p. p\<lparr>ps_pos := char_pos c (ps_pos p)\<rparr>)) (\<lambda>_.
     advance_loop (Suc i) k))"

definition advance :: "nat \<Rightarrow> ('r Parser, unit) parse" where
  "advance offset =
     pbind (advance_loop 0 offset) (\<lambda>_.
     pbind (pmodify (\<lambda>p. p\<lparr>ps_buffer_offset := ps_buffer_offset p + offset,
                           ps_next_symbol := S_invalid\<rparr>)) (\<lambda>_.
     trim_opportunity))"

definition current_position :: "('r Parser, DocumentPosition) parse" where
  "current_position = pget ps_pos"

end
