(* ===== verification/HappyLexer.thy ===== *)
theory HappyLexer
  imports HappyStream
begin

text \<open>
  The lexical part of the happy parser (\<^verbatim>\<open>Parser.cpp\<close>, from \<open>skip_whitespace\<close> to \<open>parse_integer\<close>,
  and the error reports \<open>expect\<close> and \<open>unexpected\<close>). The loops of the source read a stream of
  unknown length, so each carries fuel: running out of fuel is \<open>None\<close>. \<open>parse_number\<close>, which no
  grammar rule calls, computes with floating-point numbers and is not modelled.
\<close>

section \<open>Characters\<close>

definition is_digit :: "char \<Rightarrow> bool" where
  "is_digit c \<longleftrightarrow> 48 \<le> (of_char c :: nat) \<and> (of_char c :: nat) \<le> 57"

definition is_letter :: "char \<Rightarrow> bool" where
  "is_letter c \<longleftrightarrow> 97 \<le> (of_char c :: nat) \<and> (of_char c :: nat) \<le> 122
     \<or> 65 \<le> (of_char c :: nat) \<and> (of_char c :: nat) \<le> 90"

definition is_ident_char :: "char \<Rightarrow> bool" where
  "is_ident_char c \<longleftrightarrow> is_letter c \<or> is_digit c \<or> c = CHR ''_''"

definition is_blank :: "char \<Rightarrow> bool" where
  "is_blank c \<longleftrightarrow> c = CHR '' '' \<or> c = CHR 0x09 \<or> c = CHR 0x0A \<or> c = CHR 0x0D \<or> c = CHR ''#''"

definition comment_end :: "char \<Rightarrow> bool" where
  "comment_end c \<longleftrightarrow> c = NUL \<or> c = CHR 0x0A \<or> c = CHR 0x0D"

section \<open>Symbols\<close>

fun symbol_str :: "Symbol \<Rightarrow> string" where
  "symbol_str S_identifier = ''identifier''"
| "symbol_str S_string = ''string''"
| "symbol_str S_integer = ''integer''"
| "symbol_str S_number = ''number''"
| "symbol_str S_namespace_kw = ''namespace_kw''"
| "symbol_str S_include_kw = ''include_kw''"
| "symbol_str S_struct_kw = ''struct_kw''"
| "symbol_str S_mapping_kw = ''mapping_kw''"
| "symbol_str S_encoding_kw = ''encoding_kw''"
| "symbol_str S_delta_kw = ''delta_kw''"
| "symbol_str S_colon = ''colon''"
| "symbol_str S_namespace_sep = ''namespace_sep''"
| "symbol_str S_curly_open = ''curly_open''"
| "symbol_str S_curly_close = ''curly_close''"
| "symbol_str S_bracket_open = ''bracket_open''"
| "symbol_str S_bracket_close = ''bracket_close''"
| "symbol_str S_eof = ''eof''"
| "symbol_str S_error = ''error''"
| "symbol_str S_invalid = ''???''"

text \<open>The single-character signs, in the order in which they are tried.\<close>

definition sign_of :: "char \<Rightarrow> Symbol option" where
  "sign_of c =
     (if c = CHR '':'' then Some S_colon
      else if c = CHR ''.'' then Some S_namespace_sep
      else if c = CHR ''{'' then Some S_curly_open
      else if c = CHR ''}'' then Some S_curly_close
      else if c = CHR ''['' then Some S_bracket_open
      else if c = CHR '']'' then Some S_bracket_close
      else None)"

definition keyword_of :: "string \<Rightarrow> Symbol" where
  "keyword_of str =
     (if str = ''NAMESPACE'' then S_namespace_kw
      else if str = ''INCLUDE'' then S_include_kw
      else if str = ''STRUCT'' then S_struct_kw
      else if str = ''MAPPING'' then S_mapping_kw
      else if str = ''ENCODING'' then S_encoding_kw
      else if str = ''DELTA'' then S_delta_kw
      else S_identifier)"

text \<open>How many characters \<open>parse_symbol\<close> skips for a symbol; none for the symbols it refuses.\<close>

fun symbol_length :: "Symbol \<Rightarrow> nat option" where
  "symbol_length S_colon = Some 1"
| "symbol_length S_namespace_sep = Some 1"
| "symbol_length S_curly_open = Some 1"
| "symbol_length S_curly_close = Some 1"
| "symbol_length S_bracket_open = Some 1"
| "symbol_length S_bracket_close = Some 1"
| "symbol_length S_namespace_kw = Some (length ''NAMESPACE'')"
| "symbol_length S_include_kw = Some (length ''INCLUDE'')"
| "symbol_length S_struct_kw = Some (length ''STRUCT'')"
| "symbol_length S_mapping_kw = Some (length ''MAPPING'')"
| "symbol_length S_encoding_kw = Some (length ''ENCODING'')"
| "symbol_length S_delta_kw = Some (length ''DELTA'')"
| "symbol_length _ = None"

definition DEFAULT_ENCODING :: AstIdentifier where
  "DEFAULT_ENCODING = ''DEFAULT''"

section \<open>Whitespace and comments\<close>

definition move_right :: "'r Parser \<Rightarrow> 'r Parser" where
  "move_right p = p\<lparr>ps_buffer_offset := ps_buffer_offset p + 1\<rparr>"

text \<open>A comment, up to the end of its line; the result is the character that ended it.\<close>

fun skip_comment :: "nat \<Rightarrow> ('r Parser, char) parse" where
  "skip_comment 0 = (\<lambda>p. None)"
| "skip_comment (Suc n) =
     pbind (pmodify (\<lambda>p. move_right (p\<lparr>ps_pos := next_column (ps_pos p)\<rparr>))) (\<lambda>_.
     pbind (peek_at 0) (\<lambda>c.
       if comment_end c then preturn c else skip_comment n))"

fun skip_blanks :: "nat \<Rightarrow> char \<Rightarrow> ('r Parser, unit) parse" where
  "skip_blanks 0 c = (\<lambda>p. None)"
| "skip_blanks (Suc n) c =
     (if \<not> is_blank c then preturn ()
      else
        pbind (pmodify (\<lambda>p. p\<lparr>ps_pos :=
            (if c = CHR '' '' \<or> c = CHR 0x09 then next_column (ps_pos p)
             else if c = CHR 0x0A then next_line (ps_pos p)
             else ps_pos p)\<rparr>)) (\<lambda>_.
          if c = CHR ''#'' then pbind (skip_comment n) (skip_blanks n)
          else
            pbind (pmodify move_right) (\<lambda>_.
            pbind (peek_at 0) (skip_blanks n))))"

definition skip_whitespace :: "nat \<Rightarrow> ('r Parser, unit) parse" where
  "skip_whitespace n =
     pbind (peek_at 0) (\<lambda>c.
     pbind (skip_blanks n c) (\<lambda>_.
     trim_opportunity))"

section \<open>The next symbol\<close>

fun scan_number :: "nat \<Rightarrow> nat \<Rightarrow> ('r Parser, Symbol) parse" where
  "scan_number 0 off = (\<lambda>p. None)"
| "scan_number (Suc n) off =
     pbind (peek_at off) (\<lambda>c.
       if is_digit c \<or> c = CHR ''.''
       then if c = CHR ''.'' then preturn S_number else scan_number n (Suc off)
       else preturn S_integer)"

text \<open>The identifier characters from an offset on.\<close>

fun scan_ident :: "nat \<Rightarrow> nat \<Rightarrow> string \<Rightarrow> ('r Parser, string) parse" where
  "scan_ident 0 off str = (\<lambda>p. None)"
| "scan_ident (Suc n) off str =
     pbind (peek_at off) (\<lambda>c.
       if is_ident_char c then scan_ident n (Suc off) (str @ [c]) else preturn str)"

definition classify_symbol :: "nat \<Rightarrow> ('r Parser, Symbol) parse" where
  "classify_symbol n =
     pbind (peek_at 0) (\<lambda>c.
       if c = NUL then preturn S_eof
       else if is_digit c \<or> c = CHR ''-'' \<or> c = CHR ''+'' then scan_number n 1
       else case sign_of c of
           Some s \<Rightarrow> preturn s
         | None \<Rightarrow>
             if c = CHR 0x27 \<or> c = CHR 0x22 then preturn S_string
             else if is_letter c
             then pbind (scan_ident n 1 [c]) (\<lambda>str. preturn (keyword_of str))
             else preturn S_error)"

definition peek_symbol :: "nat \<Rightarrow> ('r Parser, Symbol) parse" where
  "peek_symbol n =
     pbind (pget ps_next_symbol) (\<lambda>s.
       if s \<noteq> S_invalid then preturn s
       else
         pbind (skip_whitespace n) (\<lambda>_.
         pbind (classify_symbol n) (\<lambda>sym.
         pbind (pmodify (\<lambda>p. p\<lparr>ps_next_symbol := sym\<rparr>)) (\<lambda>_.
         preturn sym))))"

section \<open>Errors\<close>

text \<open>Messages are formatted into, and copied between, arrays of 1024 bytes.\<close>

definition throw_at :: "string \<Rightarrow> ('r Parser, 'a) parse" where
  "throw_at message =
     pbind current_position (\<lambda>d. pthrow (ParseException d (take 1023 message)))"

definition unexpected :: "nat \<Rightarrow> Symbol \<Rightarrow> ('r Parser, 'a) parse" where
  "unexpected n expected =
     pbind (peek_symbol n) (\<lambda>s.
       if expected \<noteq> S_invalid
       then throw_at (''Unexpected symbol '' @ symbol_str s @ '', expected '' @ symbol_str expected)
       else throw_at (''Unexpected symbol '' @ symbol_str s))"

definition unexpected_in :: "nat \<Rightarrow> string \<Rightarrow> ('r Parser, 'a) parse" where
  "unexpected_in n context =
     pbind (peek_symbol n) (\<lambda>s.
       throw_at (''Unexpected symbol '' @ symbol_str s @ '' in '' @ context))"

definition expect :: "nat \<Rightarrow> Symbol \<Rightarrow> ('r Parser, unit) parse" where
  "expect n expected =
     pbind (peek_symbol n) (\<lambda>s. if s \<noteq> expected then unexpected n expected else preturn ())"

section \<open>Tokens\<close>

definition parse_symbol :: "nat \<Rightarrow> Symbol \<Rightarrow> ('r Parser, unit) parse" where
  "parse_symbol n symbol =
     pbind (expect n symbol) (\<lambda>_.
       case symbol_length symbol of
         None \<Rightarrow> pthrow (LogicError ''Invalid parse_symbol usage'')
       | Some k \<Rightarrow> pbind (advance k) (\<lambda>_. trim_opportunity))"

definition parse_identifier :: "nat \<Rightarrow> ('r Parser, AstIdentifier) parse" where
  "parse_identifier n =
     pbind (expect n S_identifier) (\<lambda>_.
     pbind (scan_ident n 0 []) (\<lambda>ret.
     pbind (advance (length ret)) (\<lambda>_.
     preturn ret)))"

definition escape_char :: "char \<Rightarrow> char" where
  "escape_char c =
     (if c = CHR ''n'' then CHR 0x0A
      else if c = CHR ''t'' then CHR 0x09
      else if c = CHR ''0'' then NUL
      else c)"

text \<open>The loop of \<open>parse_string\<close>; the result is the length of the literal and its contents.\<close>

fun string_loop :: "nat \<Rightarrow> char \<Rightarrow> nat \<Rightarrow> string \<Rightarrow> ('r Parser, nat \<times> string) parse" where
  "string_loop 0 delim len ret = (\<lambda>p. None)"
| "string_loop (Suc n) delim len ret =
     pbind (peek_at len) (\<lambda>c.
       if c = delim then preturn (len + 1, ret)
       else if c = CHR 0x5C
       then pbind (peek_at (len + 1)) (\<lambda>e.
              string_loop n delim (len + 2) (ret @ [escape_char e]))
       else string_loop n delim (len + 1) (ret @ [c]))"

definition parse_string :: "nat \<Rightarrow> ('r Parser, AstString) parse" where
  "parse_string n =
     pbind (expect n S_string) (\<lambda>_.
     pbind (peek_at 0) (\<lambda>delim.
     pbind (string_loop n delim 1 []) (\<lambda>(len, ret).
     pbind (advance len) (\<lambda>_.
     preturn ret))))"

definition digit_value :: "char \<Rightarrow> int" where
  "digit_value c = int (of_char c) - 48"

definition int64_max :: int where
  "int64_max = 2 ^ 63 - 1"

text \<open>
  The loop of \<open>parse_integer\<close> on a 64-bit signed accumulator; the accumulator is never
  negative, so it can only overflow upwards.
\<close>

fun integer_loop :: "nat \<Rightarrow> nat \<Rightarrow> int \<Rightarrow> ('r Parser, nat \<times> int) parse" where
  "integer_loop 0 len ret = (\<lambda>p. None)"
| "integer_loop (Suc n) len ret =
     pbind (peek_at len) (\<lambda>c.
       if \<not> is_digit c then preturn (len, ret)
       else if int64_max < ret * 10 + digit_value c then pthrow SignedOverflow
       else integer_loop n (len + 1) (ret * 10 + digit_value c))"

definition parse_integer :: "nat \<Rightarrow> ('r Parser, AstInteger) parse" where
  "parse_integer n =
     pbind (expect n S_integer) (\<lambda>_.
     pbind (peek_at 0) (\<lambda>c.
       let negative = (c = CHR ''-'');
           len = (if c = CHR ''-'' \<or> c = CHR ''+'' then 1 else 0)
       in pbind (integer_loop n len 0) (\<lambda>(len, ret).
          pbind (advance len) (\<lambda>_.
          preturn (if negative then - ret else ret)))))"

end
