(* ===== verification/HappyParser.thy ===== *)
theory HappyParser
  imports HappyLexer
begin

text \<open>
  The grammar of the happy parser (\<^verbatim>\<open>Parser.cpp\<close>, from \<open>parse_qualified_identifier\<close> to
  \<open>parse_document\<close>), rule by rule. The loops and the recursion of encoding nodes use the same
  fuel as the lexer.
\<close>

section \<open>Names and types\<close>

text \<open>The loop of \<open>parse_qualified_identifier\<close>, with the spaces read so far and the last name.\<close>

fun qualified_loop ::
    "nat \<Rightarrow> AstIdentifier list \<Rightarrow> AstIdentifier \<Rightarrow> ('r Parser, AstQualifiedIdentifier) parse" where
  "qualified_loop 0 space tmp = (\<lambda>p. None)"
| "qualified_loop (Suc n) space tmp =
     pbind (peek_symbol (Suc n)) (\<lambda>s.
       if s = S_namespace_sep
       then
         pbind (parse_symbol (Suc n) S_namespace_sep) (\<lambda>_.
         pbind (parse_identifier (Suc n)) (\<lambda>tmp'.
         qualified_loop n (space @ [tmp]) tmp'))
       else preturn \<lparr>qi_space = space, qi_name = tmp\<rparr>)"

definition parse_qualified_identifier :: "nat \<Rightarrow> ('r Parser, AstQualifiedIdentifier) parse" where
  "parse_qualified_identifier n =
     pbind (parse_identifier n) (\<lambda>tmp. qualified_loop n [] tmp)"

definition parse_type :: "nat \<Rightarrow> ('r Parser, AstType) parse" where
  "parse_type n =
     pbind (parse_qualified_identifier n) (\<lambda>q.
     pbind (peek_symbol n) (\<lambda>s.
       if s = S_bracket_open
       then
         pbind (parse_symbol n S_bracket_open) (\<lambda>_.
         pbind (parse_integer n) (\<lambda>size.
         pbind (parse_symbol n S_bracket_close) (\<lambda>_.
         preturn \<lparr>ty_identifier = q, ty_is_array = True, ty_array_size = Some size\<rparr>)))
       else preturn \<lparr>ty_identifier = q, ty_is_array = False, ty_array_size = None\<rparr>))"

section \<open>Declarations\<close>

definition parse_include :: "nat \<Rightarrow> ('r Parser, AstInclude) parse" where
  "parse_include n =
     pbind current_position (\<lambda>node_pos.
     pbind (parse_symbol n S_include_kw) (\<lambda>_.
     pbind (parse_string n) (\<lambda>path.
     preturn \<lparr>in_origin = node_pos, in_path = path\<rparr>)))"

definition parse_struct_field :: "nat \<Rightarrow> ('r Parser, AstStructField) parse" where
  "parse_struct_field n =
     pbind current_position (\<lambda>node_pos.
     pbind (parse_identifier n) (\<lambda>field_id.
     pbind (parse_symbol n S_colon) (\<lambda>_.
     pbind (parse_type n) (\<lambda>field_type.
     preturn \<lparr>sf_origin = node_pos, sf_identifier = field_id, sf_type = field_type\<rparr>))))"

text \<open>
  The loop that three declarations share: parse items until the next symbol is the closing
  curly bracket.
\<close>

fun until_close :: "nat \<Rightarrow> (nat \<Rightarrow> ('r Parser, 'a) parse) \<Rightarrow> 'a list \<Rightarrow> ('r Parser, 'a list) parse" where
  "until_close 0 item acc = (\<lambda>p. None)"
| "until_close (Suc n) item acc =
     pbind (peek_symbol (Suc n)) (\<lambda>s.
       if s \<noteq> S_curly_close
       then pbind (item (Suc n)) (\<lambda>x. until_close n item (acc @ [x]))
       else preturn acc)"

definition parse_struct :: "nat \<Rightarrow> ('r Parser, AstStruct) parse" where
  "parse_struct n =
     pbind current_position (\<lambda>node_pos.
     pbind (parse_symbol n S_struct_kw) (\<lambda>_.
     pbind (parse_identifier n) (\<lambda>ident.
     pbind (parse_symbol n S_curly_open) (\<lambda>_.
     pbind (until_close n parse_struct_field []) (\<lambda>fields.
     pbind (parse_symbol n S_curly_close) (\<lambda>_.
     preturn \<lparr>st_origin = node_pos, st_identifier = ident, st_fields = fields\<rparr>))))))"

definition parse_mapping_field :: "nat \<Rightarrow> ('r Parser, AstMappingField) parse" where
  "parse_mapping_field n =
     pbind current_position (\<lambda>node_pos.
     pbind (parse_identifier n) (\<lambda>field_id.
     pbind (parse_symbol n S_colon) (\<lambda>_.
     pbind (parse_string n) (\<lambda>field_mapping.
     preturn \<lparr>mf_origin = node_pos, mf_identifier = field_id, mf_mapping_decl = field_mapping\<rparr>))))"

definition parse_mapping :: "nat \<Rightarrow> ('r Parser, AstMapping) parse" where
  "parse_mapping n =
     pbind current_position (\<lambda>node_pos.
     pbind (parse_symbol n S_mapping_kw) (\<lambda>_.
     pbind (parse_identifier n) (\<lambda>struct_id.
     pbind (parse_symbol n S_colon) (\<lambda>_.
     pbind (parse_qualified_identifier n) (\<lambda>map_category.
     pbind (parse_symbol n S_curly_open) (\<lambda>_.
     pbind (until_close n parse_mapping_field []) (\<lambda>fields.
     pbind (parse_symbol n S_curly_close) (\<lambda>_.
     preturn \<lparr>mp_origin = node_pos, mp_struct_id = struct_id, mp_map_category = map_category,
              mp_fields = fields\<rparr>))))))))"

text \<open>An optional encoding name after a colon.\<close>

definition parse_encoding_name :: "nat \<Rightarrow> ('r Parser, AstIdentifier) parse" where
  "parse_encoding_name n =
     pbind (peek_symbol n) (\<lambda>s.
       if s = S_colon
       then pbind (parse_symbol n S_colon) (\<lambda>_. parse_identifier n)
       else preturn DEFAULT_ENCODING)"

definition parse_encoding_field :: "nat \<Rightarrow> ('r Parser, AstEncodingNode) parse" where
  "parse_encoding_field n =
     pbind current_position (\<lambda>node_pos.
     pbind (parse_identifier n) (\<lambda>field_id.
     pbind (parse_encoding_name n) (\<lambda>field_enco.
     preturn (AstEncodingField node_pos field_id field_enco))))"

fun parse_encoding_node :: "nat \<Rightarrow> ('r Parser, AstEncodingNode) parse"
  and parse_encoding_delta_block :: "nat \<Rightarrow> ('r Parser, AstEncodingNode) parse"
  and encoding_nodes :: "nat \<Rightarrow> AstEncodingNode list \<Rightarrow> ('r Parser, AstEncodingNode list) parse"
where
  "parse_encoding_node 0 = (\<lambda>p. None)"
| "parse_encoding_node (Suc n) =
     pbind (peek_symbol (Suc n)) (\<lambda>s.
       case s of
         S_delta_kw \<Rightarrow> parse_encoding_delta_block n
       | S_identifier \<Rightarrow> parse_encoding_field (Suc n)
       | _ \<Rightarrow> unexpected_in (Suc n) ''encoding_node'')"
| "parse_encoding_delta_block 0 = (\<lambda>p. None)"
| "parse_encoding_delta_block (Suc n) =
     pbind current_position (\<lambda>node_pos.
     pbind (parse_symbol (Suc n) S_delta_kw) (\<lambda>_.
     pbind (peek_symbol (Suc n)) (\<lambda>s.
       case s of
         S_identifier \<Rightarrow>
           pbind (parse_encoding_node n) (\<lambda>x.
           preturn (AstEncodingDeltaBlock node_pos [x]))
       | S_curly_open \<Rightarrow>
           pbind (parse_symbol (Suc n) S_curly_open) (\<lambda>_.
           pbind (encoding_nodes n []) (\<lambda>fields.
           pbind (parse_symbol (Suc n) S_curly_close) (\<lambda>_.
           preturn (AstEncodingDeltaBlock node_pos fields))))
       | _ \<Rightarrow> unexpected_in (Suc n) ''encoding_delta_block'')))"
| "encoding_nodes 0 acc = (\<lambda>p. None)"
| "encoding_nodes (Suc n) acc =
     pbind (peek_symbol (Suc n)) (\<lambda>s.
       if s \<noteq> S_curly_close
       then pbind (parse_encoding_node n) (\<lambda>x. encoding_nodes n (acc @ [x]))
       else preturn acc)"

definition parse_encoding :: "nat \<Rightarrow> ('r Parser, AstEncoding) parse" where
  "parse_encoding n =
     pbind current_position (\<lambda>node_pos.
     pbind (parse_symbol n S_encoding_kw) (\<lambda>_.
     pbind (parse_identifier n) (\<lambda>struct_id.
     pbind (parse_encoding_name n) (\<lambda>enco_id.
     pbind (parse_symbol n S_curly_open) (\<lambda>_.
     pbind (encoding_nodes n []) (\<lambda>fields.
     pbind (parse_symbol n S_curly_close) (\<lambda>_.
     preturn \<lparr>en_origin = node_pos, en_struct_id = struct_id, en_enco_id = enco_id,
              en_fields = fields\<rparr>)))))))"

section \<open>Documents\<close>

fun includes_loop :: "nat \<Rightarrow> AstInclude list \<Rightarrow> ('r Parser, AstInclude list) parse" where
  "includes_loop 0 acc = (\<lambda>p. None)"
| "includes_loop (Suc n) acc =
     pbind (peek_symbol (Suc n)) (\<lambda>s.
       if s = S_include_kw
       then pbind (parse_include (Suc n)) (\<lambda>i. includes_loop n (acc @ [i]))
       else preturn acc)"

definition parse_namespace :: "nat \<Rightarrow> ('r Parser, AstQualifiedIdentifier) parse" where
  "parse_namespace n =
     pbind (peek_symbol n) (\<lambda>s.
       if s = S_namespace_kw
       then pbind (parse_symbol n S_namespace_kw) (\<lambda>_. parse_qualified_identifier n)
       else preturn \<lparr>qi_space = [], qi_name = []\<rparr>)"

fun decls_loop :: "nat \<Rightarrow> AstRoot \<Rightarrow> ('r Parser, AstRoot) parse" where
  "decls_loop 0 node = (\<lambda>p. None)"
| "decls_loop (Suc n) node =
     pbind (peek_symbol (Suc n)) (\<lambda>s.
       case s of
         S_struct_kw \<Rightarrow>
           pbind (parse_struct (Suc n)) (\<lambda>d.
           decls_loop n (node\<lparr>rt_struct_decls := rt_struct_decls node @ [d]\<rparr>))
       | S_mapping_kw \<Rightarrow>
           pbind (parse_mapping (Suc n)) (\<lambda>d.
           decls_loop n (node\<lparr>rt_map_decls := rt_map_decls node @ [d]\<rparr>))
       | S_encoding_kw \<Rightarrow>
           pbind (parse_encoding (Suc n)) (\<lambda>d.
           decls_loop n (node\<lparr>rt_enco_decls := rt_enco_decls node @ [d]\<rparr>))
       | S_eof \<Rightarrow> preturn node
       | _ \<Rightarrow> unexpected_in (Suc n) ''document'')"

definition parse_document :: "nat \<Rightarrow> ('r Parser, AstRoot) parse" where
  "parse_document n =
     pbind current_position (\<lambda>node_pos.
     pbind (includes_loop n []) (\<lambda>includes.
     pbind (parse_namespace n) (\<lambda>space.
     decls_loop n
       \<lparr>rt_origin = node_pos, rt_includes = includes, rt_space = space,
        rt_struct_decls = [], rt_map_decls = [], rt_enco_decls = []\<rparr>)))"

text \<open>\<open>Parser::parse\<close>: the tree or the exception; the parser object does not survive the call.\<close>

definition parse :: "nat \<Rightarrow> string \<Rightarrow> 'r StreamReader \<Rightarrow> (parse_exn + AstRoot) option" where
  "parse n filename reader =
     map_option (map_sum id fst) (parse_document n (new_Parser filename reader))"

section \<open>The program\<close>

text \<open>
  \<open>main\<close>: parse standard input and print the tree. The outcome is the exit status with what was
  written to standard output and standard error; \<open>Undefined\<close> marks a run that overflowed a signed
  integer. \<open>None\<close> is a run that did not end within the fuel.
\<close>

datatype run = Exit int string string | Undefined

fun report :: "parse_exn \<Rightarrow> run" where
  "report (ParseException d message) =
     Exit 1 [] (dp_file d @ '':'' @ show_int (dp_line d) @ '':'' @ show_int (dp_column d) @ '': ''
       @ message @ newline)"
| "report (LogicError message) = Exit 1 [] (message @ newline)"
| "report (RuntimeError message) = Exit 1 [] (message @ newline)"
| "report SignedOverflow = Undefined"

definition happy_main :: "nat \<Rightarrow> stdin_file \<Rightarrow> run option" where
  "happy_main n stdin =
     map_option (\<lambda>r. case r of
         Inl e \<Rightarrow> report e
       | Inr root \<Rightarrow> Exit 0 (print_root root) [])
     (parse n ''<stdin>'' (StdinReader stdin))"

end
