(* ===== verification/HappyReader.thy ===== *)
theory HappyReader
  imports HappyParser
begin

text \<open>
  The contract of stream readers and what it gives the parser. Under the contract the buffer,
  the read offset, the refills and the trimming are invisible: \<open>peek_at\<close> returns the character
  of the unread text at an offset, \<open>advance\<close> drops characters of it. Two parsers over different
  readers whose unread texts agree then behave alike through every rule of the grammar, so the
  result of a parse depends on the text only and not on the sizes of the reads.
\<close>

section \<open>The unread text\<close>

definition char_at :: "string \<Rightarrow> nat \<Rightarrow> char" where
  "char_at s k = (if k < length s then s ! k else NUL)"

definition unread :: "('r \<Rightarrow> string) \<Rightarrow> 'r Parser \<Rightarrow> string" where
  "unread rest p = drop (ps_buffer_offset p) (ps_buffer p) @ rest (sr_state (ps_reader p))"

definition buffered :: "('r \<Rightarrow> string) \<Rightarrow> nat \<Rightarrow> 'r Parser \<Rightarrow> bool" where
  "buffered rest k p \<longleftrightarrow>
     ps_buffer_offset p + k \<le> length (ps_buffer p) \<or> rest (sr_state (ps_reader p)) = []"

lemma unread_update [simp]:
  "unread rest (p\<lparr>ps_pos := d\<rparr>) = unread rest p"
  "unread rest (p\<lparr>ps_next_symbol := s\<rparr>) = unread rest p"
  "buffered rest k (p\<lparr>ps_pos := d\<rparr>) = buffered rest k p"
  "buffered rest k (p\<lparr>ps_next_symbol := s\<rparr>) = buffered rest k p"
  by (simp_all add: unread_def buffered_def)

lemma char_at_drop: "char_at (drop k s) i = char_at s (k + i)"
  by (auto simp: char_at_def)

lemma buffered_mono: "buffered rest k p \<Longrightarrow> j \<le> k \<Longrightarrow> buffered rest j p"
  by (auto simp: buffered_def)

locale stream_reader =
  fixes read :: "'r \<Rightarrow> nat \<Rightarrow> parse_exn + (string \<times> 'r)"
    and rest :: "'r \<Rightarrow> string"
    and good :: "'r \<Rightarrow> bool"
  assumes read_contract: "good r \<Longrightarrow> 0 < n \<Longrightarrow>
    \<exists>cs r'. read r n = Inr (cs, r') \<and> good r' \<and> rest r = cs @ rest r'
      \<and> length cs \<le> n \<and> (cs = [] \<longrightarrow> rest r = [])"
begin

definition ok :: "'r Parser \<Rightarrow> bool" where
  "ok p \<longleftrightarrow> sr_read (ps_reader p) = read \<and> good (sr_state (ps_reader p)) \<and> buffered rest 0 p"

definition same :: "'r Parser \<Rightarrow> 'r Parser \<Rightarrow> bool" where
  "same p p' \<longleftrightarrow> ok p' \<and> unread rest p' = unread rest p \<and> ps_pos p' = ps_pos p
     \<and> ps_next_symbol p' = ps_next_symbol p \<and> ps_buffer_offset p' = ps_buffer_offset p
     \<and> length (ps_buffer p) \<le> length (ps_buffer p')"

lemma ok_update [simp]:
  "ok (p\<lparr>ps_pos := d\<rparr>) = ok p" "ok (p\<lparr>ps_next_symbol := s\<rparr>) = ok p"
  by (simp_all add: ok_def)

lemma same_trans: "same p q \<Longrightarrow> same q r \<Longrightarrow> same p r"
  by (auto simp: same_def)

lemma refill:
  assumes "ok p" and "length (ps_buffer p) \<le> ps_buffer_offset p + k"
    and "read (sr_state (ps_reader p)) (ps_buffer_offset p + k + 2048 - length (ps_buffer p)) = Inr (cs, r)"
  shows "same p (p\<lparr>ps_reader := (ps_reader p)\<lparr>sr_state := r\<rparr>, ps_buffer := ps_buffer p @ cs\<rparr>)"
    and "cs = [] \<Longrightarrow> rest (sr_state (ps_reader p)) = [] \<and> rest r = []"
proof -
  let ?n = "ps_buffer_offset p + k + 2048 - length (ps_buffer p)"
  have "0 < ?n"
    using assms(2) by simp
  then have r: "good r" "rest (sr_state (ps_reader p)) = cs @ rest r"
      "cs = [] \<longrightarrow> rest (sr_state (ps_reader p)) = []"
    using read_contract [of "sr_state (ps_reader p)" ?n] assms by (auto simp: ok_def)
  then show "cs = [] \<Longrightarrow> rest (sr_state (ps_reader p)) = [] \<and> rest r = []"
    by auto
  show "same p (p\<lparr>ps_reader := (ps_reader p)\<lparr>sr_state := r\<rparr>, ps_buffer := ps_buffer p @ cs\<rparr>)"
    using assms(1) r by (auto simp: same_def ok_def unread_def buffered_def)
qed

lemma fill_and_peek_unread:
  assumes "ok p"
  shows "\<exists>p'. fill_and_peek k p = Inr (char_at (unread rest p) k, p') \<and> same p p'
    \<and> buffered rest (Suc k) p'"
  using assms
proof (induction k p rule: fill_and_peek.induct)
  case (1 k p)
  show ?case
  proof (cases "length (ps_buffer p) \<le> ps_buffer_offset p + k")
    case False
    then have "k < length (drop (ps_buffer_offset p) (ps_buffer p))"
      by (simp only: length_drop)
    then have "char_at (unread rest p) k = ps_buffer p ! (ps_buffer_offset p + k)"
      using False by (simp add: char_at_def unread_def nth_append less_diff_conv)
    with False "1.prems" show ?thesis
      by (subst fill_and_peek.simps) (simp add: same_def buffered_def)
  next
    case True
    let ?n = "ps_buffer_offset p + k + 2048 - length (ps_buffer p)"
    obtain cs r where rd: "read (sr_state (ps_reader p)) ?n = Inr (cs, r)"
      using read_contract [of "sr_state (ps_reader p)" ?n] "1.prems" True by (auto simp: ok_def)
    let ?p = "p\<lparr>ps_reader := (ps_reader p)\<lparr>sr_state := r\<rparr>, ps_buffer := ps_buffer p @ cs\<rparr>"
    have same: "same p ?p"
      using refill(1) [OF "1.prems" True rd] .
    have eq: "sr_read (ps_reader p) = read"
      using "1.prems" by (simp add: ok_def)
    show ?thesis
    proof (cases "cs = []")
      case nil: True
      then have "char_at (unread rest p) k = NUL" "rest r = []"
        using refill(2) [OF "1.prems" True rd] True by (auto simp: unread_def char_at_def)
      with True nil rd eq same show ?thesis
        by (subst fill_and_peek.simps) (auto simp: Let_def buffered_def)
    next
      case False
      have "fill_and_peek k p = fill_and_peek k ?p"
        using True rd eq False by (subst fill_and_peek.simps) (simp add: Let_def)
      moreover obtain p' where "fill_and_peek k ?p = Inr (char_at (unread rest ?p) k, p')"
          "same ?p p'" "buffered rest (Suc k) p'"
        using "1.IH" [OF True, of ?n "ps_reader p" "(cs, r)" cs r ?p] rd eq False same
        by (auto simp: same_def)
      ultimately show ?thesis
        using same same_trans [of p ?p p'] by (auto simp: same_def)
    qed
  qed
qed

lemma peek_at_unread:
  assumes "ok p"
  shows "\<exists>p'. peek_at k p = Some (Inr (char_at (unread rest p) k, p')) \<and> same p p'
    \<and> buffered rest (Suc k) p'"
  using fill_and_peek_unread [OF assms, of k] by (auto simp: peek_at_def)

text \<open>The position after the first \<open>k\<close> characters of a text.\<close>

definition moved :: "nat \<Rightarrow> string \<Rightarrow> DocumentPosition \<Rightarrow> DocumentPosition" where
  "moved k s d = fold (\<lambda>i. char_pos (char_at s i)) [0..<k] d"

lemma advance_loop_unread:
  assumes "ok p" and "buffered rest i p"
  shows "\<exists>p'. advance_loop i k p = Some (Inr ((), p')) \<and> ok p' \<and> unread rest p' = unread rest p
    \<and> ps_pos p' = fold (\<lambda>j. char_pos (char_at (unread rest p) j)) [i..<i + k] (ps_pos p)
    \<and> buffered rest (i + k) p'"
  using assms
proof (induction k arbitrary: i p)
  case (Suc k)
  obtain q where q: "peek_at i p = Some (Inr (char_at (unread rest p) i, q))" "same p q"
      "buffered rest (Suc i) q"
    using peek_at_unread [OF Suc.prems(1), of i] by blast
  let ?q = "q\<lparr>ps_pos := char_pos (char_at (unread rest p) i) (ps_pos q)\<rparr>"
  have u: "unread rest ?q = unread rest p" "ps_pos q = ps_pos p"
    using q(2) by (simp_all add: same_def)
  have "ok ?q" "buffered rest (Suc i) ?q"
    using q(2,3) by (simp_all add: same_def)
  from Suc.IH [OF this] obtain p' where p': "advance_loop (Suc i) k ?q = Some (Inr ((), p'))" "ok p'"
      "unread rest p' = unread rest p" "buffered rest (i + Suc k) p'"
      "ps_pos p' = fold (\<lambda>j. char_pos (char_at (unread rest p) j)) [Suc i..<Suc i + k] (ps_pos ?q)"
    using u(1) unfolding u(2) by (auto simp del: upt_Suc)
  have "[i..<i + Suc k] = i # [Suc i..<Suc i + k]"
    by (simp add: upt_conv_Cons del: upt_Suc)
  with p' q(1) u(2) show ?case
    by (simp del: upt_Suc)
qed simp

lemma trim_unread:
  assumes "ok p"
  shows "\<exists>p'. trim_opportunity p = Some (Inr ((), p')) \<and> ok p' \<and> unread rest p' = unread rest p
    \<and> ps_pos p' = ps_pos p \<and> ps_next_symbol p' = ps_next_symbol p"
  using assms by (auto simp: trim_opportunity_def ok_def unread_def buffered_def)

lemma advance_unread:
  assumes "ok p"
  shows "\<exists>p'. advance k p = Some (Inr ((), p')) \<and> ok p' \<and> unread rest p' = drop k (unread rest p)
    \<and> ps_pos p' = moved k (unread rest p) (ps_pos p) \<and> ps_next_symbol p' = S_invalid"
proof -
  have "buffered rest 0 p"
    using assms by (simp add: ok_def)
  then obtain q where q: "advance_loop 0 k p = Some (Inr ((), q))" "ok q" "unread rest q = unread rest p"
      "ps_pos q = moved k (unread rest p) (ps_pos p)" "buffered rest k q"
    using advance_loop_unread [OF assms, of 0 k] by (auto simp: moved_def)
  let ?q = "q\<lparr>ps_buffer_offset := ps_buffer_offset q + k, ps_next_symbol := S_invalid\<rparr>"
  have "ok ?q"
    using q(2,5) by (simp add: ok_def buffered_def)
  moreover have "unread rest ?q = drop k (unread rest p)"
    unfolding q(3) [symmetric] using q(5) by (auto simp: unread_def buffered_def add.commute)
  ultimately show ?thesis
    using trim_unread [of ?q] q(1,4) by (auto simp: advance_def)
qed

lemma move_right_unread:
  assumes "ok p" and "buffered rest 1 p"
  shows "ok (move_right p)" and "unread rest (move_right p) = drop 1 (unread rest p)"
  using assms by (auto simp: ok_def buffered_def unread_def move_right_def)

end

section \<open>Simulation of computations\<close>

text \<open>
  Two computations from related states end alike: both without fuel, both with the same
  exception, or both with the same value and related states.
\<close>

definition msim ::
    "('s \<Rightarrow> 't \<Rightarrow> bool) \<Rightarrow> ('s, 'a) parse \<Rightarrow> ('t, 'a) parse \<Rightarrow> ('s \<Rightarrow> 't \<Rightarrow> bool) \<Rightarrow> bool" where
  "msim R m1 m2 Q \<longleftrightarrow>
     (\<forall>p q. R p q \<longrightarrow> rel_option (rel_sum (=) (rel_prod (=) Q)) (m1 p) (m2 q))"

lemma msimD: "msim R m1 m2 Q \<Longrightarrow> R p q \<Longrightarrow> rel_option (rel_sum (=) (rel_prod (=) Q)) (m1 p) (m2 q)"
  by (simp add: msim_def)

lemma msim_bind:
  assumes "msim R m1 m2 Q" and "\<And>a. msim Q (f1 a) (f2 a) S"
  shows "msim R (pbind m1 f1) (pbind m2 f2) S"
  unfolding msim_def
proof (intro allI impI)
  fix p q
  assume "R p q"
  with assms(1) have "rel_option (rel_sum (=) (rel_prod (=) Q)) (m1 p) (m2 q)"
    by (rule msimD)
  then show "rel_option (rel_sum (=) (rel_prod (=) S)) (pbind m1 f1 p) (pbind m2 f2 q)"
    using assms(2) by (auto simp: pbind_def msim_def elim!: option.rel_cases rel_sum.cases)
qed

lemma msim_return [sim_intros]: "msim R (preturn a) (preturn a) R"
  by (simp add: msim_def)

lemma msim_throw [sim_intros]: "msim R (pthrow e) (pthrow e) Q"
  by (simp add: msim_def)

lemma msim_None [sim_intros]: "msim R (\<lambda>p. None) (\<lambda>p. None) Q"
  by (simp add: msim_def)

lemma msim_modify: "(\<And>p q. R p q \<Longrightarrow> Q (f p) (g q)) \<Longrightarrow> msim R (pmodify f) (pmodify g) Q"
  by (simp add: msim_def)

lemma msim_get: "(\<And>p q. R p q \<Longrightarrow> f p = g q) \<Longrightarrow> msim R (pget f) (pget g) R"
  by (simp add: msim_def)

lemma msim_if [sim_intros]:
  "(b \<Longrightarrow> msim R m1 m2 Q) \<Longrightarrow> (\<not> b \<Longrightarrow> msim R n1 n2 Q) \<Longrightarrow>
   msim R (if b then m1 else n1) (if b then m2 else n2) Q"
  by simp

lemma msim_case_prod [sim_intros]:
  "(\<And>a b. x = (a, b) \<Longrightarrow> msim R (f a b) (g a b) Q) \<Longrightarrow> msim R (case_prod f x) (case_prod g x) Q"
  by (cases x) simp

lemma msim_case_option [sim_intros]:
  "msim R m1 m2 Q \<Longrightarrow> (\<And>a. msim R (f a) (g a) Q) \<Longrightarrow>
   msim R (case_option m1 f x) (case_option m2 g x) Q"
  by (cases x) simp_all

lemma msim_weaken:
  assumes "msim R m1 m2 Q" and "\<And>p q. R' p q \<Longrightarrow> R p q" and "\<And>p q. Q p q \<Longrightarrow> Q' p q"
  shows "msim R' m1 m2 Q'"
  unfolding msim_def
proof (intro allI impI)
  fix p q
  assume "R' p q"
  then have "rel_option (rel_sum (=) (rel_prod (=) Q)) (m1 p) (m2 q)"
    using assms(1,2) by (simp add: msim_def)
  then show "rel_option (rel_sum (=) (rel_prod (=) Q')) (m1 p) (m2 q)"
    using assms(3) by (auto elim!: option.rel_mono_strong sum.rel_mono_strong)
qed

end
