(* ===== verification/HappySegmentation.thy ===== *)
theory HappySegmentation
  imports HappyReader
begin

text \<open>
  The parse does not depend on how the reader cuts the text: two parsers whose readers keep the
  contract and still have the same text to deliver run alike through the lexer and the grammar.
\<close>

section \<open>Two readers of one text\<close>

locale two_readers =
  a: stream_reader read1 rest1 good1 + b: stream_reader read2 rest2 good2
  for read1 :: "'r \<Rightarrow> nat \<Rightarrow> parse_exn + (string \<times> 'r)" and rest1 good1
    and read2 :: "'q \<Rightarrow> nat \<Rightarrow> parse_exn + (string \<times> 'q)" and rest2 good2
begin

definition osim :: "'r Parser \<Rightarrow> 'q Parser \<Rightarrow> bool" where
  "osim p q \<longleftrightarrow> a.ok p \<and> b.ok q \<and> unread rest1 p = unread rest2 q \<and> ps_pos p = ps_pos q
     \<and> ps_next_symbol p = ps_next_symbol q"

text \<open>As \<open>osim\<close>, and the next character, if there is one, is in both buffers.\<close>

definition lsim :: "'r Parser \<Rightarrow> 'q Parser \<Rightarrow> bool" where
  "lsim p q \<longleftrightarrow> osim p q \<and> buffered rest1 1 p \<and> buffered rest2 1 q"

lemma lsim_osim: "lsim p q \<Longrightarrow> osim p q"
  by (simp add: lsim_def)

lemma osim_pos: "osim p q \<Longrightarrow> osim (p\<lparr>ps_pos := f (ps_pos p)\<rparr>) (q\<lparr>ps_pos := f (ps_pos q)\<rparr>)"
  by (simp add: osim_def)

lemma osim_bind [sim_intros]:
  "msim osim m1 m2 osim \<Longrightarrow> (\<And>a. msim osim (f1 a) (f2 a) osim) \<Longrightarrow>
   msim osim (pbind m1 f1) (pbind m2 f2) osim"
  by (rule msim_bind)

lemma peek_at_lsim: "msim osim (peek_at 0) (peek_at 0) lsim"
  unfolding msim_def
proof (intro allI impI)
  fix p q
  assume pq: "osim p q"
  obtain p' where "peek_at 0 p = Some (Inr (char_at (unread rest1 p) 0, p'))" "a.same p p'"
      "buffered rest1 1 p'"
    using a.peek_at_unread [of p 0] pq by (auto simp: osim_def)
  moreover obtain q' where "peek_at 0 q = Some (Inr (char_at (unread rest2 q) 0, q'))" "b.same q q'"
      "buffered rest2 1 q'"
    using b.peek_at_unread [of q 0] pq by (auto simp: osim_def)
  ultimately show "rel_option (rel_sum (=) (rel_prod (=) lsim)) (peek_at 0 p) (peek_at 0 q)"
    using pq by (simp add: osim_def lsim_def a.same_def b.same_def)
qed

lemma peek_at_sim [sim_intros]: "msim osim (peek_at k) (peek_at k) osim"
  unfolding msim_def
proof (intro allI impI)
  fix p q
  assume pq: "osim p q"
  obtain p' where "peek_at k p = Some (Inr (char_at (unread rest1 p) k, p'))" "a.same p p'"
    using a.peek_at_unread [of p k] pq by (auto simp: osim_def)
  moreover obtain q' where "peek_at k q = Some (Inr (char_at (unread rest2 q) k, q'))" "b.same q q'"
    using b.peek_at_unread [of q k] pq by (auto simp: osim_def)
  ultimately show "rel_option (rel_sum (=) (rel_prod (=) osim)) (peek_at k p) (peek_at k q)"
    using pq by (simp add: osim_def a.same_def b.same_def)
qed

lemma trim_sim [sim_intros]: "msim osim trim_opportunity trim_opportunity osim"
  unfolding msim_def
proof (intro allI impI)
  fix p q
  assume pq: "osim p q"
  then show "rel_option (rel_sum (=) (rel_prod (=) osim)) (trim_opportunity p) (trim_opportunity q)"
    using a.trim_unread [of p] b.trim_unread [of q] by (auto simp: osim_def)
qed

lemma advance_sim [sim_intros]: "msim osim (advance k) (advance k) osim"
  unfolding msim_def
proof (intro allI impI)
  fix p q
  assume pq: "osim p q"
  then show "rel_option (rel_sum (=) (rel_prod (=) osim)) (advance k p) (advance k q)"
    using a.advance_unread [of p k] b.advance_unread [of q k] by (auto simp: osim_def)
qed

lemma move_right_sim: "msim lsim (pmodify move_right) (pmodify move_right) osim"
proof (rule msim_modify)
  fix p q
  assume "lsim p q"
  then show "osim (move_right p) (move_right q)"
    using a.move_right_unread [of p] b.move_right_unread [of q]
    by (simp add: lsim_def osim_def) (simp add: move_right_def)
qed

section \<open>Lexer\<close>

lemma skip_comment_sim: "msim lsim (skip_comment n) (skip_comment n) lsim"
proof (induction n)
  case (Suc n)
  have "msim lsim (pmodify (\<lambda>p. move_right (p\<lparr>ps_pos := next_column (ps_pos p)\<rparr>)))
      (pmodify (\<lambda>p. move_right (p\<lparr>ps_pos := next_column (ps_pos p)\<rparr>))) osim"
  proof (rule msim_modify)
    fix p q
    assume "lsim p q"
    then have "lsim (p\<lparr>ps_pos := next_column (ps_pos p)\<rparr>) (q\<lparr>ps_pos := next_column (ps_pos q)\<rparr>)"
      by (simp add: lsim_def osim_pos)
    then show "osim (move_right (p\<lparr>ps_pos := next_column (ps_pos p)\<rparr>))
        (move_right (q\<lparr>ps_pos := next_column (ps_pos q)\<rparr>))"
      using move_right_sim by (simp add: msim_def)
  qed
  then show ?case
    unfolding skip_comment.simps
    by (rule msim_bind [OF _ msim_bind [OF peek_at_lsim msim_if [OF msim_return Suc]]])
qed (simp add: sim_intros)

lemma skip_blanks_sim: "msim lsim (skip_blanks n c) (skip_blanks n c) osim"
proof (induction n arbitrary: c)
  case (Suc n)
  have pos: "msim lsim (pmodify (\<lambda>p. p\<lparr>ps_pos := f (ps_pos p)\<rparr>)) (pmodify (\<lambda>p. p\<lparr>ps_pos := f (ps_pos p)\<rparr>)) lsim"
    for f
    by (rule msim_modify) (simp add: lsim_def osim_pos)
  have "msim lsim (preturn ()) (preturn ()) osim"
    by (rule msim_weaken [OF msim_return]) (auto intro: lsim_osim)
  then show ?case
    unfolding skip_blanks.simps
    by (rule msim_if [OF _ msim_bind [OF pos msim_if [OF msim_bind [OF skip_comment_sim Suc]
        msim_bind [OF move_right_sim msim_bind [OF peek_at_lsim Suc]]]]])
qed (simp add: sim_intros)

lemma skip_whitespace_sim [sim_intros]: "msim osim (skip_whitespace n) (skip_whitespace n) osim"
  unfolding skip_whitespace_def
  by (rule msim_bind [OF peek_at_lsim] msim_bind [OF skip_blanks_sim] trim_sim)+

lemma scan_number_sim [sim_intros]: "msim osim (scan_number n off) (scan_number n off) osim"
  by (induction n arbitrary: off) (simp_all only: scan_number.simps, (intro sim_intros; simp)+)

lemma scan_ident_sim [sim_intros]: "msim osim (scan_ident n off str) (scan_ident n off str) osim"
  by (induction n arbitrary: off str) (simp_all only: scan_ident.simps, (intro sim_intros; simp)+)

lemma classify_symbol_sim [sim_intros]: "msim osim (classify_symbol n) (classify_symbol n) osim"
  unfolding classify_symbol_def by (intro sim_intros)

lemma current_position_sim [sim_intros]: "msim osim current_position current_position osim"
  unfolding current_position_def by (rule msim_get) (simp add: osim_def)

lemma peek_symbol_sim [sim_intros]: "msim osim (peek_symbol n) (peek_symbol n) osim"
proof -
  have "msim osim (pget ps_next_symbol) (pget ps_next_symbol) osim"
    by (rule msim_get) (simp add: osim_def)
  moreover have "msim osim (pmodify (\<lambda>p. p\<lparr>ps_next_symbol := s\<rparr>)) (pmodify (\<lambda>p. p\<lparr>ps_next_symbol := s\<rparr>)) osim" for s
    by (rule msim_modify) (simp add: osim_def)
  ultimately show ?thesis
    unfolding peek_symbol_def by (intro sim_intros) simp_all
qed

lemma throw_at_sim [sim_intros]: "msim osim (throw_at s) (throw_at s) osim"
  unfolding throw_at_def by (intro sim_intros)

lemma unexpected_sim [sim_intros]: "msim osim (unexpected n s) (unexpected n s) osim"
  unfolding unexpected_def by (intro sim_intros)

lemma unexpected_in_sim [sim_intros]: "msim osim (unexpected_in n s) (unexpected_in n s) osim"
  unfolding unexpected_in_def by (intro sim_intros)

lemma expect_sim [sim_intros]: "msim osim (expect n s) (expect n s) osim"
  unfolding expect_def by (intro sim_intros)

lemma parse_symbol_sim [sim_intros]: "msim osim (parse_symbol n s) (parse_symbol n s) osim"
  unfolding parse_symbol_def by (intro sim_intros)

lemma parse_identifier_sim [sim_intros]: "msim osim (parse_identifier n) (parse_identifier n) osim"
  unfolding parse_identifier_def by (intro sim_intros)

lemma string_loop_sim [sim_intros]:
  "msim osim (string_loop n delim len ret) (string_loop n delim len ret) osim"
  by (induction n arbitrary: len ret) (simp_all only: string_loop.simps, (intro sim_intros; simp)+)

lemma parse_string_sim [sim_intros]: "msim osim (parse_string n) (parse_string n) osim"
  unfolding parse_string_def by (intro sim_intros)

lemma integer_loop_sim [sim_intros]: "msim osim (integer_loop n len ret) (integer_loop n len ret) osim"
  by (induction n arbitrary: len ret) (simp_all only: integer_loop.simps, (intro sim_intros; simp)+)

lemma parse_integer_sim [sim_intros]: "msim osim (parse_integer n) (parse_integer n) osim"
  unfolding parse_integer_def Let_def by (intro sim_intros)

section \<open>Grammar\<close>

lemma qualified_loop_sim [sim_intros]: "msim osim (qualified_loop n sp t) (qualified_loop n sp t) osim"
  by (induction n arbitrary: sp t) (simp_all only: qualified_loop.simps, (intro sim_intros; simp)+)

lemma parse_qualified_identifier_sim [sim_intros]:
  "msim osim (parse_qualified_identifier n) (parse_qualified_identifier n) osim"
  unfolding parse_qualified_identifier_def by (intro sim_intros)

lemma parse_type_sim [sim_intros]: "msim osim (parse_type n) (parse_type n) osim"
  unfolding parse_type_def by (intro sim_intros)

lemma parse_include_sim [sim_intros]: "msim osim (parse_include n) (parse_include n) osim"
  unfolding parse_include_def by (intro sim_intros)

lemma parse_struct_field_sim [sim_intros]: "msim osim (parse_struct_field n) (parse_struct_field n) osim"
  unfolding parse_struct_field_def by (intro sim_intros)

lemma until_close_sim [sim_intros]:
  "(\<And>k. msim osim (f k) (g k) osim) \<Longrightarrow> msim osim (until_close n f acc) (until_close n g acc) osim"
  by (induction n arbitrary: acc) (auto intro!: sim_intros)

lemma parse_struct_sim [sim_intros]: "msim osim (parse_struct n) (parse_struct n) osim"
  unfolding parse_struct_def by (intro sim_intros)

lemma parse_mapping_field_sim [sim_intros]:
  "msim osim (parse_mapping_field n) (parse_mapping_field n) osim"
  unfolding parse_mapping_field_def by (intro sim_intros)

lemma parse_mapping_sim [sim_intros]: "msim osim (parse_mapping n) (parse_mapping n) osim"
  unfolding parse_mapping_def by (intro sim_intros)

lemma parse_encoding_name_sim [sim_intros]:
  "msim osim (parse_encoding_name n) (parse_encoding_name n) osim"
  unfolding parse_encoding_name_def by (intro sim_intros)

lemma parse_encoding_field_sim [sim_intros]:
  "msim osim (parse_encoding_field n) (parse_encoding_field n) osim"
  unfolding parse_encoding_field_def by (intro sim_intros)

lemma encoding_sim:
  "msim osim (parse_encoding_node n) (parse_encoding_node n) osim"
  "msim osim (parse_encoding_delta_block n) (parse_encoding_delta_block n) osim"
  "msim osim (encoding_nodes n acc) (encoding_nodes n acc) osim"
proof (induction n arbitrary: acc)
  case (Suc n)
  {
    case 1
    show ?case
      by (auto intro!: sim_intros Suc split: Symbol.split)
  next
    case 2
    show ?case
      by (auto intro!: sim_intros Suc split: Symbol.split)
  next
    case 3
    show ?case
      by (auto intro!: sim_intros Suc)
  }
qed (simp_all add: sim_intros)

lemmas encoding_sims [sim_intros] = encoding_sim

lemma parse_encoding_sim [sim_intros]: "msim osim (parse_encoding n) (parse_encoding n) osim"
  unfolding parse_encoding_def by (intro sim_intros)

lemma includes_loop_sim [sim_intros]: "msim osim (includes_loop n acc) (includes_loop n acc) osim"
  by (induction n arbitrary: acc) (simp_all only: includes_loop.simps, (intro sim_intros; simp)+)

lemma parse_namespace_sim [sim_intros]: "msim osim (parse_namespace n) (parse_namespace n) osim"
  unfolding parse_namespace_def by (intro sim_intros)

lemma decls_loop_sim [sim_intros]: "msim osim (decls_loop n node) (decls_loop n node) osim"
  by (induction n arbitrary: node) (auto intro!: sim_intros split: Symbol.split)

lemma parse_document_sim [sim_intros]: "msim osim (parse_document n) (parse_document n) osim"
  unfolding parse_document_def by (intro sim_intros)

lemma parse_same:
  assumes "good1 r" and "good2 q" and "rest1 r = rest2 q"
  shows "parse n file \<lparr>sr_state = r, sr_read = read1\<rparr> = parse n file \<lparr>sr_state = q, sr_read = read2\<rparr>"
proof -
  let ?p = "new_Parser file \<lparr>sr_state = r, sr_read = read1\<rparr>"
  let ?q = "new_Parser file \<lparr>sr_state = q, sr_read = read2\<rparr>"
  have "osim ?p ?q"
    using assms by (simp add: osim_def a.ok_def b.ok_def unread_def buffered_def new_Parser_def)
  then have "rel_option (rel_sum (=) (rel_prod (=) osim)) (parse_document n ?p) (parse_document n ?q)"
    by (rule msimD [OF parse_document_sim])
  then show ?thesis
    unfolding parse_def by (auto elim!: option.rel_cases rel_sum.cases)
qed

end

end
