(* ===== verification/HappyText.thy ===== *)
theory HappyText
  imports HappyReader
begin

text \<open>
  The lexer as functions of the unread text: \<open>skip_text\<close> drops blanks and comments, \<open>symbol_of\<close>
  classifies the text that follows. Under the contract of readers the lexer of the parser computes
  these functions when its fuel exceeds the length of the unread text, and the cached symbol always
  is the symbol of the unread text (\<open>coherent\<close>).
\<close>

section \<open>Pure lexer\<close>

function skip_text :: "string \<Rightarrow> string" where
  "skip_text [] = []"
| "skip_text (c # s) =
     (if c = CHR ''#'' then skip_text (dropWhile (\<lambda>c. \<not> comment_end c) s)
      else if is_blank c then skip_text s
      else c # s)"
  by pat_completeness auto
termination
  by (relation "measure length") (auto simp: less_Suc_eq_le length_dropWhile_le)

fun symbol_of :: "string \<Rightarrow> Symbol" where
  "symbol_of [] = S_eof"
| "symbol_of (c # s) =
     (if c = NUL then S_eof
      else if is_digit c \<or> c = CHR ''-'' \<or> c = CHR ''+''
      then if char_at (dropWhile is_digit s) 0 = CHR ''.'' then S_number else S_integer
      else case sign_of c of
          Some y \<Rightarrow> y
        | None \<Rightarrow>
            if c = CHR 0x27 \<or> c = CHR 0x22 then S_string
            else if is_letter c then keyword_of (c # takeWhile is_ident_char s)
            else S_error)"

lemma char_at_0_Cons [simp]: "char_at (c # s) 0 = c"
  by (simp add: char_at_def)

lemma is_digit_dot [simp]: "\<not> is_digit (CHR ''.'')"
  by (simp add: is_digit_def)

lemma char_at_0_Nil [simp]: "char_at [] k = NUL"
  by (simp add: char_at_def)

lemma skip_text_idem [simp]: "skip_text (skip_text s) = skip_text s"
  by (induction s rule: skip_text.induct) auto

lemma skip_text_suffix: "\<exists>us. s = us @ skip_text s"
proof (induction s rule: skip_text.induct)
  case (2 c s)
  show ?case
  proof (cases "c = CHR ''#''")
    case True
    then obtain us where "dropWhile (\<lambda>c. \<not> comment_end c) s = us @ skip_text (c # s)"
      using "2.IH"(1) by auto
    then have "c # s = (c # takeWhile (\<lambda>c. \<not> comment_end c) s @ us) @ skip_text (c # s)"
      by (metis append.assoc append_Cons takeWhile_dropWhile_id)
    then show ?thesis
      by blast
  next
    case False
    then show ?thesis
      using "2.IH"(2) by (cases "is_blank c") (auto intro: exI [of _ "c # us" for us])
  qed
qed simp

lemma length_skip_text: "length (skip_text s) \<le> length s"
  using skip_text_suffix [of s] by (metis le_add2 length_append)

lemma set_skip_text: "set (skip_text s) \<subseteq> set s"
  using skip_text_suffix [of s] by (metis Un_upper2 set_append)

lemma sign_of_symbol: "sign_of c = Some y \<Longrightarrow> y \<noteq> S_invalid \<and> symbol_length y = Some 1"
  by (auto simp: sign_of_def split: if_split_asm)

lemma keyword_of_valid: "keyword_of str \<noteq> S_invalid"
  by (simp add: keyword_of_def)

lemma symbol_of_valid [simp]: "symbol_of s \<noteq> S_invalid"
proof (cases s)
  case (Cons c s')
  show ?thesis
  proof (cases "sign_of c")
    case None
    then show ?thesis
      unfolding Cons by (simp add: keyword_of_valid)
  next
    case (Some y)
    then show ?thesis
      unfolding Cons by (simp add: sign_of_symbol)
  qed
qed simp

section \<open>The parser's lexer computes it\<close>

context stream_reader
begin

text \<open>\<open>reaches p t p'\<close>: from \<open>p\<close>, whose cached symbol is kept, to \<open>p'\<close> with the text \<open>t\<close> unread.\<close>

definition reaches :: "'r Parser \<Rightarrow> string \<Rightarrow> 'r Parser \<Rightarrow> bool" where
  "reaches p t p' \<longleftrightarrow> ok p' \<and> unread rest p' = t \<and> ps_next_symbol p' = ps_next_symbol p"

lemma reaches_same: "same p p' \<Longrightarrow> reaches p (unread rest p) p'"
  by (simp add: same_def reaches_def)

lemma peek_at_same: "ok p \<Longrightarrow> \<exists>p'. peek_at k p = Some (Inr (char_at (unread rest p) k, p')) \<and> same p p'"
  using peek_at_unread by blast

lemma skip_comment_text:
  assumes "ok p" and "buffered rest 1 p" and "unread rest p = c # s" and "length s < n"
    and "t = dropWhile (\<lambda>c. \<not> comment_end c) s"
  shows "\<exists>p'. skip_comment n p = Some (Inr (char_at t 0, p')) \<and> reaches p t p' \<and> buffered rest 1 p'"
  using assms
proof (induction n arbitrary: p c s)
  case (Suc n)
  let ?p = "move_right (p\<lparr>ps_pos := next_column (ps_pos p)\<rparr>)"
  have p: "ok ?p" "unread rest ?p = s" "ps_next_symbol ?p = ps_next_symbol p"
    using move_right_unread [of "p\<lparr>ps_pos := next_column (ps_pos p)\<rparr>"] Suc.prems
    by (simp_all add: move_right_def)
  obtain q where q: "peek_at 0 ?p = Some (Inr (char_at s 0, q))" "same ?p q" "buffered rest 1 q"
    using peek_at_unread [OF p(1), of 0] p(2) by auto
  show ?case
  proof (cases "comment_end (char_at s 0)")
    case True
    then have "t = s"
      using Suc.prems(5) by (cases s) (auto simp: char_at_def)
    with True q p show ?thesis
      by (auto simp: reaches_def same_def)
  next
    case False
    then obtain d s' where s: "s = d # s'" "\<not> comment_end d"
      by (cases s) (auto simp: char_at_def comment_end_def)
    have "\<exists>p'. skip_comment n q = Some (Inr (char_at t 0, p')) \<and> reaches q t p' \<and> buffered rest 1 p'"
      using q p s Suc.prems by (intro Suc.IH [of q d s']) (auto simp: same_def)
    with False q p show ?thesis
      by (auto simp: reaches_def same_def)
  qed
qed simp

lemma skip_blanks_comment:
  assumes "ok p" and "buffered rest 1 p" and "unread rest p = CHR ''#'' # s" and "length s < n"
  shows "\<exists>q. skip_blanks (Suc n) (CHR ''#'') p = skip_blanks n (char_at (dropWhile (\<lambda>c. \<not> comment_end c) s) 0) q
    \<and> reaches p (dropWhile (\<lambda>c. \<not> comment_end c) s) q \<and> buffered rest 1 q"
  using skip_comment_text [OF assms] by (auto simp: is_blank_def)

lemma skip_blanks_blank:
  assumes "ok p" and "buffered rest 1 p" and "unread rest p = c # s" and "is_blank c" and "c \<noteq> CHR ''#''"
  shows "\<exists>q. skip_blanks (Suc n) c p = skip_blanks n (char_at s 0) q \<and> reaches p s q \<and> buffered rest 1 q"
proof -
  define d where "d = (if c = CHR '' '' \<or> c = CHR 0x09 then next_column (ps_pos p)
      else if c = CHR 0x0A then next_line (ps_pos p) else ps_pos p)"
  let ?p = "p\<lparr>ps_pos := d\<rparr>"
  have "ok ?p" "buffered rest 1 ?p" "unread rest ?p = c # s"
    using assms(1-3) by simp_all
  then have m: "ok (move_right ?p)" "unread rest (move_right ?p) = s"
    using move_right_unread [of ?p] by simp_all
  obtain q where q: "peek_at 0 (move_right ?p) = Some (Inr (char_at s 0, q))" "same (move_right ?p) q" "buffered rest 1 q"
    using peek_at_unread [OF m(1), of 0] m(2) by auto
  then show ?thesis
    using assms(4,5) m by (auto simp: reaches_def same_def d_def move_right_def)
qed

lemma skip_blanks_text:
  assumes "ok p" and "buffered rest 1 p" and "length (unread rest p) < n"
  shows "\<exists>p'. skip_blanks n (char_at (unread rest p) 0) p = Some (Inr ((), p'))
    \<and> reaches p (skip_text (unread rest p)) p'"
  using assms
proof (induction n arbitrary: p)
  case (Suc n)
  have turn: ?case if "skip_blanks (Suc n) c p = skip_blanks n (char_at t 0) q \<and> reaches p t q \<and> buffered rest 1 q"
      and "unread rest p = c # s" and "length t < n" and "skip_text (c # s) = skip_text t" for c s t q
    using that Suc.IH [of q] by (auto simp: reaches_def char_at_def simp del: skip_blanks.simps)
  show ?case
  proof (cases "unread rest p")
    case Nil
    then show ?thesis
      using Suc.prems by (simp add: char_at_def is_blank_def NUL_def reaches_def)
  next
    case (Cons c s)
    let ?t = "dropWhile (\<lambda>c. \<not> comment_end c) s"
    have len: "length s < n" "length ?t < n"
      using Suc.prems Cons le_less_trans [OF length_dropWhile_le] by auto
    consider (comment) "c = CHR ''#''" | (blank) "c \<noteq> CHR ''#''" "is_blank c" | (other) "\<not> is_blank c"
      by blast
    then show ?thesis
    proof cases
      case comment
      then have "skip_text (c # s) = skip_text ?t"
        by simp
      with comment show ?thesis
        using turn [OF _ Cons len(2)] skip_blanks_comment [OF Suc.prems(1,2) _ len(1)] Cons by blast
    next
      case blank
      then have "skip_text (c # s) = skip_text s"
        by simp
      then show ?thesis
        using turn [OF _ Cons len(1)] skip_blanks_blank [OF Suc.prems(1,2) Cons blank(2,1), of n] by blast
    next
      case other
      then have "c \<noteq> CHR ''#''"
        by (auto simp: is_blank_def)
      with other show ?thesis
        using Suc.prems Cons by (simp add: char_at_def reaches_def)
    qed
  qed
qed simp

lemma skip_whitespace_text:
  assumes "ok p" and "length (unread rest p) < n"
  shows "\<exists>p'. skip_whitespace n p = Some (Inr ((), p')) \<and> reaches p (skip_text (unread rest p)) p'"
proof -
  obtain q where q: "peek_at 0 p = Some (Inr (char_at (unread rest p) 0, q))" "same p q"
      "buffered rest 1 q"
    using peek_at_unread [OF assms(1), of 0] by auto
  then obtain r where r: "skip_blanks n (char_at (unread rest p) 0) q = Some (Inr ((), r))"
      "reaches q (skip_text (unread rest p)) r"
    using skip_blanks_text [of q n] assms(2) by (auto simp: same_def)
  then show ?thesis
    using q trim_unread [of r] by (auto simp: skip_whitespace_def reaches_def same_def)
qed

text \<open>
  A peek followed by a computation: the state changes only in its buffer. \<open>looks p m v\<close> says that
  \<open>m\<close> computes \<open>v\<close> from \<open>p\<close> by peeking only.
\<close>

definition looks :: "'r Parser \<Rightarrow> ('r Parser, 'a) parse \<Rightarrow> 'a \<Rightarrow> bool" where
  "looks p m v \<longleftrightarrow> (\<exists>p'. m p = Some (Inr (v, p')) \<and> same p p')"

lemma looks_return: "ok p \<Longrightarrow> looks p (preturn v) v"
  by (simp add: looks_def same_def)

lemma looks_bind:
  assumes "looks p m u" and "\<And>p'. same p p' \<Longrightarrow> looks p' (f u) v"
  shows "looks p (pbind m f) v"
proof -
  obtain q where q: "m p = Some (Inr (u, q))" "same p q"
    using assms(1) by (auto simp: looks_def)
  moreover obtain p' where "f u q = Some (Inr (v, p'))" "same q p'"
    using assms(2) [OF q(2)] by (auto simp: looks_def)
  ultimately show ?thesis
    using same_trans by (auto simp: looks_def)
qed

lemma looks_peek: "ok p \<Longrightarrow> looks p (peek_at k) (char_at (unread rest p) k)"
  using peek_at_same by (simp add: looks_def)

lemma looks_peek_bind:
  assumes "ok p" and "\<And>p'. same p p' \<Longrightarrow> looks p' (f (char_at (unread rest p) k)) v"
  shows "looks p (pbind (peek_at k) f) v"
  by (rule looks_bind [OF looks_peek [OF assms(1)]]) (rule assms(2))

lemma same_D: "same p p' \<Longrightarrow> ok p' \<and> unread rest p' = unread rest p"
  by (simp add: same_def)

lemma char_at_0_drop: "char_at s k = char_at (drop k s) 0"
  by (simp add: char_at_drop)

lemma drop_step:
  assumes "drop k s = c # s'"
  shows "drop (Suc k) s = s'" and "char_at s k = c"
proof -
  show "drop (Suc k) s = s'"
    using assms by (metis drop_Suc list.sel(3) tl_drop)
  show "char_at s k = c"
    using char_at_0_drop [of s k] assms by (simp add: char_at_def)
qed

lemma scan_number_text:
  assumes "ok p" and "length (drop off (unread rest p)) < n"
  shows "looks p (scan_number n off)
    (if char_at (dropWhile is_digit (drop off (unread rest p))) 0 = CHR ''.'' then S_number else S_integer)"
  using assms
proof (induction n arbitrary: p off)
  case (Suc n)
  show ?case
    unfolding scan_number.simps
  proof (rule looks_peek_bind [OF Suc.prems(1)])
    fix q
    assume q: "same p q"
    then have u: "ok q" "unread rest q = unread rest p"
      by (simp_all add: same_D)
    show "looks q (if is_digit (char_at (unread rest p) off) \<or> char_at (unread rest p) off = CHR ''.''
        then if char_at (unread rest p) off = CHR ''.'' then preturn S_number else scan_number n (Suc off)
        else preturn S_integer)
      (if char_at (dropWhile is_digit (drop off (unread rest p))) 0 = CHR ''.'' then S_number else S_integer)"
    proof (cases "drop off (unread rest p)")
      case Nil
      then show ?thesis
        using u by (simp add: char_at_0_drop [of _ off] char_at_def NUL_def is_digit_def looks_return)
    next
      case (Cons c s)
      then have c: "char_at (unread rest p) off = c" "drop (Suc off) (unread rest q) = s"
        using u drop_step [OF Cons] by simp_all
      have "length (drop (Suc off) (unread rest q)) < n"
        using Suc.prems(2) Cons c by simp
      from Suc.IH [OF u(1) this] show ?thesis
        using u(1) c(1) unfolding Cons c(2)
        by (cases "c = CHR ''.''"; cases "is_digit c") (simp_all add: looks_return)
    qed
  qed
qed simp

lemma scan_ident_text:
  assumes "ok p" and "length (drop off (unread rest p)) < n"
  shows "looks p (scan_ident n off str) (str @ takeWhile is_ident_char (drop off (unread rest p)))"
  using assms
proof (induction n arbitrary: p off str)
  case (Suc n)
  show ?case
    unfolding scan_ident.simps
  proof (rule looks_peek_bind [OF Suc.prems(1)])
    fix q
    assume q: "same p q"
    then have u: "ok q" "unread rest q = unread rest p"
      by (simp_all add: same_D)
    show "looks q (if is_ident_char (char_at (unread rest p) off)
        then scan_ident n (Suc off) (str @ [char_at (unread rest p) off]) else preturn str)
      (str @ takeWhile is_ident_char (drop off (unread rest p)))"
    proof (cases "drop off (unread rest p)")
      case Nil
      then show ?thesis
        using u by (simp add: char_at_0_drop [of _ off] char_at_def NUL_def is_digit_def is_ident_char_def
            is_letter_def looks_return)
    next
      case (Cons c s)
      then have c: "char_at (unread rest p) off = c" "drop (Suc off) (unread rest q) = s"
        using u drop_step [OF Cons] by simp_all
      have "length (drop (Suc off) (unread rest q)) < n"
        using Suc.prems(2) Cons c by simp
      from Suc.IH [OF u(1) this, of "str @ [c]"] show ?thesis
        using u(1) c Cons by (auto simp: looks_return)
    qed
  qed
qed simp

lemma classify_symbol_text:
  assumes "ok p" and "length (unread rest p) < n"
  shows "looks p (classify_symbol n) (symbol_of (unread rest p))"
  unfolding classify_symbol_def
proof (rule looks_peek_bind [OF assms(1)], goal_cases)
  case (1 q)
  then have u: "ok q" "unread rest q = unread rest p" "length (drop 1 (unread rest q)) < n"
    using assms(2) by (auto simp: same_D)
  show ?case
  proof (cases "unread rest p")
    case Nil
    then show ?thesis
      using u(1) by (simp add: char_at_def looks_return)
  next
    case (Cons c s)
    have kw: "looks q (pbind (scan_ident n 1 [c]) (\<lambda>str. preturn (keyword_of str)))
        (keyword_of (c # takeWhile is_ident_char s))"
      by (rule looks_bind [OF scan_ident_text [OF u(1,3), of "[c]"]])
        (use u(2) Cons in \<open>simp add: looks_return same_D\<close>)
    have num: "looks q (scan_number n 1)
        (if char_at (dropWhile is_digit s) 0 = CHR ''.'' then S_number else S_integer)"
      using scan_number_text [OF u(1,3)] u(2) Cons by simp
    have c: "char_at (unread rest p) 0 = c"
      by (simp add: Cons char_at_def)
    show ?thesis
      unfolding c unfolding Cons symbol_of.simps using u(1) kw num
      by (cases "sign_of c") (simp_all add: looks_return)
  qed
qed

section \<open>The cached symbol\<close>

definition coherent :: "'r Parser \<Rightarrow> bool" where
  "coherent p \<longleftrightarrow> ok p \<and> (ps_next_symbol p \<noteq> S_invalid \<longrightarrow>
     ps_next_symbol p = symbol_of (unread rest p) \<and> skip_text (unread rest p) = unread rest p)"

lemma coherent_ok: "coherent p \<Longrightarrow> ok p"
  by (simp add: coherent_def)

text \<open>The state after a look at the next symbol.\<close>

definition at_symbol :: "'r Parser \<Rightarrow> string \<Rightarrow> bool" where
  "at_symbol p t \<longleftrightarrow> ok p \<and> unread rest p = t \<and> skip_text t = t \<and> ps_next_symbol p = symbol_of t"

lemma at_symbol_coherent: "at_symbol p t \<Longrightarrow> coherent p"
  by (simp add: at_symbol_def coherent_def)

lemma peek_symbol_text:
  assumes "coherent p" and "length (unread rest p) < n"
  shows "\<exists>p'. peek_symbol n p = Some (Inr (symbol_of (skip_text (unread rest p)), p'))
    \<and> at_symbol p' (skip_text (unread rest p))"
proof (cases "ps_next_symbol p = S_invalid")
  case True
  obtain q where q: "skip_whitespace n p = Some (Inr ((), q))" "ok q"
      "unread rest q = skip_text (unread rest p)"
    using skip_whitespace_text [OF coherent_ok] assms by (fastforce simp: reaches_def)
  moreover have "length (unread rest q) < n"
    using q(3) assms(2) length_skip_text [of "unread rest p"] by simp
  then obtain r where "classify_symbol n q = Some (Inr (symbol_of (unread rest q), r))" "same q r"
    using classify_symbol_text [OF q(2)] by (auto simp: looks_def)
  ultimately show ?thesis
    using True by (simp add: peek_symbol_def at_symbol_def same_def)
next
  case False
  then show ?thesis
    using assms(1) by (simp add: peek_symbol_def at_symbol_def coherent_def)
qed

end

end
