(* ===== verification/HappyTokens.thy ===== *)
theory HappyTokens
  imports HappyText
begin

text \<open>
  What the token parsers consume and return, as functions of the unread text: symbols and keywords,
  identifiers, string literals (\<open>literal\<close>) and integers (\<open>decimal\<close>), with their error cases.
\<close>

section \<open>Literals and decimals\<close>

text \<open>The contents of a literal after its opening delimiter, and the text after the closing one.\<close>

fun literal :: "char \<Rightarrow> string \<Rightarrow> (string \<times> string) option" where
  "literal d [] = None"
| "literal d [c] = (if c = d then Some ([], []) else None)"
| "literal d (c # e # s) =
     (if c = d then Some ([], e # s)
      else if c = CHR 0x5C then map_option (apfst ((#) (escape_char e))) (literal d s)
      else map_option (apfst ((#) c)) (literal d (e # s)))"

definition decimal :: "string \<Rightarrow> int" where
  "decimal ds = foldl (\<lambda>v c. v * 10 + digit_value c) 0 ds"

lemma literal_shorter: "literal d s = Some (r, u) \<Longrightarrow> length u < length s \<and> set u \<subseteq> set s"
  by (induction d s arbitrary: r rule: literal.induct) (fastforce split: if_split_asm)+

lemma digit_value_nonneg: "is_digit c \<Longrightarrow> 0 \<le> digit_value c"
  by (simp add: is_digit_def digit_value_def)

lemma decimal_fold_mono:
  assumes "list_all is_digit ds" and "0 \<le> v"
  shows "v \<le> foldl (\<lambda>v c. v * 10 + digit_value c) v ds"
  using assms
proof (induction ds arbitrary: v)
  case (Cons c ds)
  then have "0 \<le> digit_value c"
    by (simp add: digit_value_nonneg)
  then have "v \<le> v * 10 + digit_value c" "0 \<le> v * 10 + digit_value c"
    using Cons.prems(2) by auto
  then show ?case
    using Cons by fastforce
qed simp

section \<open>Token parsers\<close>

context stream_reader
begin

definition fresh :: "'r Parser \<Rightarrow> string \<Rightarrow> bool" where
  "fresh p t \<longleftrightarrow> ok p \<and> unread rest p = t \<and> ps_next_symbol p = S_invalid"

lemma fresh_coherent: "fresh p t \<Longrightarrow> coherent p"
  by (simp add: fresh_def coherent_def)

lemma advance_fresh: "ok p \<Longrightarrow> unread rest p = t \<Longrightarrow> \<exists>p'. advance k p = Some (Inr ((), p')) \<and> fresh p' (drop k t)"
  using advance_unread [of p k] by (auto simp: fresh_def)

lemma at_symbol_same: "at_symbol p t \<Longrightarrow> same p q \<Longrightarrow> at_symbol q t"
  by (simp add: at_symbol_def same_def)

lemma at_symbol_peek:
  assumes "at_symbol p t"
  shows "peek_symbol n p = Some (Inr (symbol_of t, p))"
  using assms by (simp add: at_symbol_def peek_symbol_def)

lemma unexpected_text:
  assumes "at_symbol p t"
  shows "unexpected n s p = Some (Inl (ParseException (ps_pos p) (take 1023
      (''Unexpected symbol '' @ symbol_str (symbol_of t)
        @ (if s \<noteq> S_invalid then '', expected '' @ symbol_str s else [])))))"
  by (simp add: unexpected_def throw_at_def current_position_def at_symbol_peek [OF assms])

lemma unexpected_in_text:
  assumes "at_symbol p t"
  shows "unexpected_in n ctx p = Some (Inl (ParseException (ps_pos p) (take 1023
      (''Unexpected symbol '' @ symbol_str (symbol_of t) @ '' in '' @ ctx))))"
  by (simp add: unexpected_in_def throw_at_def current_position_def at_symbol_peek [OF assms])

lemma expect_text:
  assumes "coherent p" and "length (unread rest p) < n" and "t = skip_text (unread rest p)"
  shows "if symbol_of t = s then \<exists>p'. expect n s p = Some (Inr ((), p')) \<and> at_symbol p' t
    else \<exists>d m. expect n s p = Some (Inl (ParseException d m))"
proof -
  obtain q where q: "peek_symbol n p = Some (Inr (symbol_of t, q))" "at_symbol q t"
    using peek_symbol_text [OF assms(1,2)] assms(3) by blast
  then show ?thesis
    by (simp add: expect_def unexpected_text [OF q(2)])
qed

lemma expect_ok:
  assumes "coherent p" and "length (unread rest p) < n" and "symbol_of (skip_text (unread rest p)) = s"
  shows "\<exists>p'. expect n s p = Some (Inr ((), p')) \<and> at_symbol p' (skip_text (unread rest p))"
  using expect_text [OF assms(1,2) refl, of s] assms(3) by simp

lemma expect_error:
  assumes "coherent p" and "length (unread rest p) < n" and "symbol_of (skip_text (unread rest p)) \<noteq> s"
  shows "\<exists>d m. expect n s p = Some (Inl (ParseException d m))"
  using expect_text [OF assms(1,2) refl, of s] assms(3) by simp

lemma parse_symbol_ok:
  assumes "coherent p" and "length (unread rest p) < n" and "symbol_of (skip_text (unread rest p)) = s"
    and "symbol_length s = Some k"
  shows "\<exists>p'. parse_symbol n s p = Some (Inr ((), p')) \<and> fresh p' (drop k (skip_text (unread rest p)))"
proof -
  let ?t = "skip_text (unread rest p)"
  obtain q where q: "expect n s p = Some (Inr ((), q))" "ok q" "unread rest q = ?t"
    using expect_ok [OF assms(1-3)] by (auto simp: at_symbol_def)
  then obtain r where "advance k q = Some (Inr ((), r))" "fresh r (drop k ?t)"
    using advance_fresh by blast
  with q(1) assms(4) show ?thesis
    using trim_unread [of r] by (auto simp: parse_symbol_def fresh_def)
qed

lemma parse_symbol_error:
  assumes "coherent p" and "length (unread rest p) < n" and "symbol_of (skip_text (unread rest p)) \<noteq> s"
  shows "\<exists>d m. parse_symbol n s p = Some (Inl (ParseException d m))"
  using expect_error [OF assms] by (auto simp: parse_symbol_def)

lemma parse_identifier_ok:
  assumes "coherent p" and "length (unread rest p) < n" and "t = skip_text (unread rest p)"
    and "symbol_of t = S_identifier"
  shows "\<exists>p'. parse_identifier n p = Some (Inr (takeWhile is_ident_char t, p'))
    \<and> fresh p' (dropWhile is_ident_char t)"
proof -
  obtain q where q: "expect n S_identifier p = Some (Inr ((), q))" "ok q" "unread rest q = t"
    using expect_ok [OF assms(1,2)] assms(3,4) by (auto simp: at_symbol_def)
  have "length (drop 0 (unread rest q)) < n"
    using assms(2,3) q(3) length_skip_text [of "unread rest p"] by simp
  then obtain r where r: "scan_ident n 0 [] q = Some (Inr (takeWhile is_ident_char t, r))" "same q r"
    using scan_ident_text [OF q(2), of 0 n "[]"] q(3) by (auto simp: looks_def)
  then obtain p' where "advance (length (takeWhile is_ident_char t)) r = Some (Inr ((), p'))"
      "fresh p' (drop (length (takeWhile is_ident_char t)) t)"
    using advance_fresh [of r t] q(3) by (auto simp: same_def)
  with q(1) r(1) show ?thesis
    by (simp add: parse_identifier_def dropWhile_eq_drop)
qed

lemma parse_identifier_error:
  assumes "coherent p" and "length (unread rest p) < n"
    and "symbol_of (skip_text (unread rest p)) \<noteq> S_identifier"
  shows "\<exists>d m. parse_identifier n p = Some (Inl (ParseException d m))"
  using expect_error [OF assms] by (auto simp: parse_identifier_def)

lemma string_loop_escape:
  assumes "ok p" and "drop k (unread rest p) = CHR 0x5C # e # s" and "d \<noteq> CHR 0x5C"
  shows "\<exists>q. string_loop (Suc n) d k acc p = string_loop n d (Suc (Suc k)) (acc @ [escape_char e]) q \<and> same p q
    \<and> drop (Suc (Suc k)) (unread rest p) = s"
proof -
  note first = drop_step [OF assms(2)]
  note second = drop_step [OF first(1)]
  obtain q where q: "peek_at k p = Some (Inr (CHR 0x5C, q))" "same p q"
    using peek_at_same [OF assms(1), of k] first(2) by auto
  obtain q' where q': "peek_at (Suc k) q = Some (Inr (e, q'))" "same q q'"
    using peek_at_same [of q "Suc k"] q(2) second(2) by (auto simp: same_def)
  show ?thesis
    using q(1) q'(1) assms(3) second(1) same_trans [OF q(2) q'(2)] by auto
qed

lemma string_loop_plain:
  assumes "ok p" and "drop k (unread rest p) = c # s" and "c \<noteq> d" and "c \<noteq> CHR 0x5C"
  shows "\<exists>q. string_loop (Suc n) d k acc p = string_loop n d (Suc k) (acc @ [c]) q \<and> same p q
    \<and> drop (Suc k) (unread rest p) = s"
  using peek_at_same [OF assms(1), of k] drop_step [OF assms(2)] assms(3,4) by auto

lemma string_loop_text:
  assumes "ok p" and "d \<noteq> NUL" and "length (drop k (unread rest p)) < n"
    and "literal d (drop k (unread rest p)) = Some (r, u)"
  shows "\<exists>p' k'. string_loop n d k acc p = Some (Inr ((k', acc @ r), p')) \<and> same p p'
    \<and> drop k' (unread rest p) = u"
  using assms
proof (induction n arbitrary: p k acc r)
  case (Suc n)
  let ?t = "unread rest p"
  have turn: ?case if st: "string_loop (Suc n) d k acc p = string_loop n d j (acc @ [x]) q \<and> same p q \<and> drop j ?t = s"
      and le: "length s < n" and r: "r = x # r'" "literal d s = Some (r', u)" for j x q s r'
  proof -
    have "ok q" "unread rest q = ?t"
      using st by (simp_all add: same_def)
    then obtain p' k' where "string_loop n d j (acc @ [x]) q = Some (Inr ((k', (acc @ [x]) @ r'), p'))" "same q p'"
        "drop k' ?t = u"
      using Suc.IH [of q j r' "acc @ [x]"] st le r(2) Suc.prems(2) by auto
    then show ?thesis
      using st r(1) same_trans [of p q p'] by auto
  qed
  obtain c s where s: "drop k ?t = c # s"
    using Suc.prems(4) by (cases "drop k ?t") auto
  consider (close) "c = d" | (escape) "c \<noteq> d" "c = CHR 0x5C" | (plain) "c \<noteq> d" "c \<noteq> CHR 0x5C"
    by blast
  then show ?case
  proof cases
    case close
    then have "r = []" "u = s"
      using Suc.prems(4) s by (cases s; simp)+
    with close show ?thesis
      using peek_at_same [OF Suc.prems(1), of k] drop_step [OF s] by auto
  next
    case escape
    obtain e s' r' where e: "s = e # s'" "r = escape_char e # r'" "literal d s' = Some (r', u)"
      using Suc.prems(4) s escape by (cases s) auto
    have "length s' < n" "drop k ?t = CHR 0x5C # e # s'"
      using Suc.prems(3) s e(1) escape(2) by simp_all
    then show ?thesis
      using string_loop_escape [OF Suc.prems(1), of k e s' d n acc] escape turn [OF _ _ e(2,3)] by blast
  next
    case plain
    obtain r' where r': "r = c # r'" "literal d s = Some (r', u)"
      using Suc.prems(4) s plain by (cases s) auto
    have "length s < n"
      using Suc.prems(3) s by simp
    then show ?thesis
      using string_loop_plain [OF Suc.prems(1) s plain, of n acc] turn [OF _ _ r'] by blast
  qed
qed simp

lemma string_loop_diverges:
  assumes "ok p" and "d \<noteq> NUL" and "literal d (drop k (unread rest p)) = None"
  shows "string_loop n d k acc p = None"
  using assms
proof (induction n arbitrary: p k acc)
  case (Suc n)
  let ?t = "unread rest p"
  obtain q where q: "peek_at k p = Some (Inr (char_at ?t k, q))" "same p q"
    using peek_at_same [OF Suc.prems(1), of k] by auto
  obtain q' where q': "peek_at (Suc k) q = Some (Inr (char_at ?t (Suc k), q'))" "same q q'"
    using peek_at_same [of q "Suc k"] q(2) by (auto simp: same_def)
  have u: "ok q" "unread rest q = ?t" "ok q'" "unread rest q' = ?t"
    using q(2) q'(2) by (simp_all add: same_def)
  have IH: "literal d (drop (Suc k) ?t) = None \<Longrightarrow> string_loop n d (Suc k) a q = None"
    "literal d (drop (Suc (Suc k)) ?t) = None \<Longrightarrow> string_loop n d (Suc (Suc k)) a q' = None" for a
    using Suc.IH [OF u(1) Suc.prems(2)] Suc.IH [OF u(3) Suc.prems(2)] u by simp_all
  show ?case
  proof (cases "drop k ?t")
    case Nil
    then have "char_at ?t k = NUL" "drop (Suc k) ?t = []"
      by (simp_all add: char_at_def)
    then show ?thesis
      using q IH(1) Suc.prems(2) by (auto simp: NUL_def)
  next
    case (Cons c s)
    note c = drop_step [OF Cons]
    show ?thesis
    proof (cases s)
      case Nil
      then have "drop (Suc (Suc k)) ?t = []"
        using c(1) by simp
      then show ?thesis
        using q q' IH Suc.prems(3) Cons Nil c by (auto split: if_split_asm)
    next
      case e: (Cons e s')
      have "drop (Suc (Suc k)) ?t = s'"
        using drop_step(1) [of "Suc k" ?t e s'] c(1) e by simp
      then show ?thesis
        using q q' IH Suc.prems(3) Cons c e by (auto split: if_split_asm)
    qed
  qed
qed simp

lemma symbol_of_string:
  assumes "symbol_of t = S_string"
  obtains d s where "t = d # s" "d = CHR 0x27 \<or> d = CHR 0x22" "d \<noteq> NUL"
proof (cases t)
  case (Cons c s)
  have "sign_of c \<noteq> Some S_string" "keyword_of x \<noteq> S_string" for x
    by (simp_all add: sign_of_def keyword_of_def)
  then have "c = CHR 0x27 \<or> c = CHR 0x22"
    using assms unfolding Cons by (auto split: if_split_asm option.split_asm)
  with Cons show ?thesis
    by (intro that) (auto simp: NUL_def)
qed (use assms in simp)

lemma parse_string_start:
  assumes "coherent p" and "length (unread rest p) < n" and "skip_text (unread rest p) = d # s"
    and "symbol_of (d # s) = S_string"
  shows "\<exists>q. ok q \<and> unread rest q = d # s \<and> parse_string n p =
    pbind (string_loop n d 1 []) (\<lambda>(len, ret). pbind (advance len) (\<lambda>_. preturn ret)) q"
proof -
  obtain q where q: "expect n S_string p = Some (Inr ((), q))" "ok q" "unread rest q = d # s"
    using expect_ok [OF assms(1,2)] assms(3,4) by (auto simp: at_symbol_def)
  obtain r where "peek_at 0 q = Some (Inr (d, r))" "same q r"
    using peek_at_same [OF q(2), of 0] q(3) by (auto simp: char_at_def)
  with q show ?thesis
    by (auto simp: parse_string_def same_def)
qed

lemma parse_string_ok:
  assumes "coherent p" and "length (unread rest p) < n" and "skip_text (unread rest p) = d # s"
    and "symbol_of (d # s) = S_string" and "literal d s = Some (r, u)"
  shows "\<exists>p'. parse_string n p = Some (Inr (r, p')) \<and> fresh p' u"
proof -
  obtain q where q: "ok q" "unread rest q = d # s" "parse_string n p =
      pbind (string_loop n d 1 []) (\<lambda>(len, ret). pbind (advance len) (\<lambda>_. preturn ret)) q"
    using parse_string_start [OF assms(1-4)] by blast
  have "d \<noteq> NUL"
    using assms(4) by (auto simp del: symbol_of.simps elim: symbol_of_string)
  moreover have "length (drop 1 (unread rest q)) < n"
    using assms(2,3) q(2) length_skip_text [of "unread rest p"] by simp
  ultimately obtain k p1 where k: "string_loop n d 1 [] q = Some (Inr ((k, r), p1))" "same q p1"
      "drop k (d # s) = u"
    using string_loop_text [OF q(1), of d 1 n r u "[]"] assms(5) q(2) by auto
  then show ?thesis
    using q(2,3) advance_fresh [of p1 "d # s" k] by (auto simp: same_def)
qed

lemma parse_string_diverges:
  assumes "coherent p" and "length (unread rest p) < n" and "skip_text (unread rest p) = d # s"
    and "symbol_of (d # s) = S_string" and "literal d s = None"
  shows "parse_string n p = None"
proof -
  obtain q where q: "ok q" "unread rest q = d # s" "parse_string n p =
      pbind (string_loop n d 1 []) (\<lambda>(len, ret). pbind (advance len) (\<lambda>_. preturn ret)) q"
    using parse_string_start [OF assms(1-4)] by blast
  have "d \<noteq> NUL"
    using assms(4) by (auto simp del: symbol_of.simps elim: symbol_of_string)
  then have "string_loop n d 1 [] q = None"
    using string_loop_diverges [OF q(1)] assms(5) q(2) by simp
  with q(3) show ?thesis
    by simp
qed

lemma parse_string_error:
  assumes "coherent p" and "length (unread rest p) < n"
    and "symbol_of (skip_text (unread rest p)) \<noteq> S_string"
  shows "\<exists>d m. parse_string n p = Some (Inl (ParseException d m))"
  using expect_error [OF assms] by (auto simp: parse_string_def)

lemma integer_loop_digit:
  assumes "ok p" and "drop k (unread rest p) = c # s" and "is_digit c"
  shows "\<exists>q. same p q \<and> drop (Suc k) (unread rest p) = s \<and> integer_loop (Suc n) k v p
    = (if int64_max < v * 10 + digit_value c then Some (Inl SignedOverflow)
       else integer_loop n (Suc k) (v * 10 + digit_value c) q)"
  using peek_at_same [OF assms(1), of k] drop_step [OF assms(2)] assms(3) by auto

lemma integer_loop_text:
  assumes "ok p" and "length (drop k (unread rest p)) < n" and "ds = takeWhile is_digit (drop k (unread rest p))"
    and "0 \<le> v" and "w = foldl (\<lambda>v c. v * 10 + digit_value c) v ds"
  shows "if w \<le> int64_max \<or> ds = []
    then \<exists>p'. integer_loop n k v p = Some (Inr ((k + length ds, w), p')) \<and> same p p'
    else integer_loop n k v p = Some (Inl SignedOverflow)"
  using assms
proof (induction n arbitrary: p k v ds)
  case (Suc n)
  let ?t = "unread rest p"
  show ?case
  proof (cases ds)
    case Nil
    have "\<not> is_digit NUL"
      by (simp add: NUL_def is_digit_def)
    with Nil have "\<not> is_digit (char_at ?t k)"
      using Suc.prems(3) by (cases "drop k ?t") (auto simp: drop_step(2) split: if_split_asm, simp add: char_at_def)
    with Nil show ?thesis
      using peek_at_same [OF Suc.prems(1), of k] Suc.prems(5) by auto
  next
    case ds: (Cons c es)
    then obtain s where s: "drop k ?t = c # s" "is_digit c" "es = takeWhile is_digit s"
      using Suc.prems(3) by (cases "drop k ?t") (auto split: if_split_asm)
    let ?v = "v * 10 + digit_value c"
    obtain q where q: "same p q" "drop (Suc k) ?t = s" "integer_loop (Suc n) k v p
        = (if int64_max < ?v then Some (Inl SignedOverflow) else integer_loop n (Suc k) ?v q)"
      using integer_loop_digit [OF Suc.prems(1) s(1,2)] by blast
    have v: "0 \<le> ?v" "?v \<le> w"
      using decimal_fold_mono [of es ?v] Suc.prems(4,5) digit_value_nonneg [OF s(2)] ds s(3)
      by (auto simp: list_all_iff dest: set_takeWhileD)
    have u: "ok q" "length (drop (Suc k) (unread rest q)) < n" "es = takeWhile is_digit (drop (Suc k) (unread rest q))"
      using q(1,2) s Suc.prems(2) by (auto simp: same_def)
    have "if w \<le> int64_max \<or> es = []
        then \<exists>p'. integer_loop n (Suc k) ?v q = Some (Inr ((Suc k + length es, w), p')) \<and> same q p'
        else integer_loop n (Suc k) ?v q = Some (Inl SignedOverflow)"
      using Suc.prems(5) ds by (intro Suc.IH [OF u v(1)]) simp
    moreover have "w = ?v" if "es = []"
      using that Suc.prems(5) ds by simp
    ultimately show ?thesis
      using q(3) v(2) ds same_trans [OF q(1)] by (auto simp del: integer_loop.simps split: if_split_asm)
  qed
qed simp

lemma parse_integer_text:
  assumes "coherent p" and "length (unread rest p) < n" and "t = skip_text (unread rest p)"
    and "symbol_of t = S_integer" and "k = (if char_at t 0 = CHR ''-'' \<or> char_at t 0 = CHR ''+'' then 1 else 0)"
    and "v = decimal (takeWhile is_digit (drop k t))"
  shows "if v \<le> int64_max
    then \<exists>p'. parse_integer n p = Some (Inr (if char_at t 0 = CHR ''-'' then - v else v, p'))
           \<and> fresh p' (dropWhile is_digit (drop k t))
    else parse_integer n p = Some (Inl SignedOverflow)"
proof -
  let ?ds = "takeWhile is_digit (drop k t)"
  obtain q0 where q0: "expect n S_integer p = Some (Inr ((), q0))" "ok q0" "unread rest q0 = t"
    using expect_ok [OF assms(1,2)] assms(3,4) by (auto simp: at_symbol_def)
  obtain q where q: "peek_at 0 q0 = Some (Inr (char_at t 0, q))" "same q0 q"
    using peek_at_same [OF q0(2), of 0] q0(3) by auto
  have u: "ok q" "unread rest q = t" "length (drop k (unread rest q)) < n"
    using q q0 assms(2,3) length_skip_text [of "unread rest p"] by (auto simp: same_def)
  have loop: "if v \<le> int64_max \<or> ?ds = []
      then \<exists>p'. integer_loop n k 0 q = Some (Inr ((k + length ?ds, v), p')) \<and> same q p'
      else integer_loop n k 0 q = Some (Inl SignedOverflow)"
    using integer_loop_text [OF u(1,3), of ?ds 0 v] u(2) assms(6) by (simp add: decimal_def)
  have nil: "v \<le> int64_max" if "?ds = []"
    using that assms(6) by (simp add: decimal_def int64_max_def)
  have pi: "parse_integer n p = pbind (integer_loop n k 0)
      (\<lambda>(len, ret). pbind (advance len) (\<lambda>_. preturn (if char_at t 0 = CHR ''-'' then - ret else ret))) q"
    using q0(1) q(1) assms(5) by (simp add: parse_integer_def)
  show ?thesis
  proof (cases "v \<le> int64_max")
    case True
    then obtain r where r: "integer_loop n k 0 q = Some (Inr ((k + length ?ds, v), r))" "same q r"
      using loop by auto
    have "drop (k + length ?ds) t = dropWhile is_digit (drop k t)"
      by (simp add: dropWhile_eq_drop add.commute)
    then show ?thesis
      using True pi r u(2) advance_fresh [of r t "k + length ?ds"] by (auto simp: same_def)
  next
    case False
    then have "integer_loop n k 0 q = Some (Inl SignedOverflow)"
      using loop nil by meson
    with False show ?thesis
      by (simp add: pi)
  qed
qed

lemma parse_integer_error:
  assumes "coherent p" and "length (unread rest p) < n"
    and "symbol_of (skip_text (unread rest p)) \<noteq> S_integer"
  shows "\<exists>d m. parse_integer n p = Some (Inl (ParseException d m))"
  using expect_error [OF assms] by (auto simp: parse_integer_def)

end

end
