(* ===== verification/HappyFuel.thy ===== *)
theory HappyFuel
  imports HappyTokens
begin

text \<open>
  How much fuel the parser needs. More fuel never changes a result (\<open>below\<close>), and once the fuel
  exceeds the length of the unread text by a constant, still more fuel makes no difference at all:
  a parse that does not return then never returns. Every rule of the grammar consumes text before
  it repeats, so the only loop that can run forever is the one that reads a string literal.
\<close>

section \<open>More fuel\<close>

definition below :: "('s, 'a) parse \<Rightarrow> ('s, 'a) parse \<Rightarrow> bool" where
  "below m m' \<longleftrightarrow> (\<forall>p. m p = None \<or> m p = m' p)"

lemma below_refl [fuel_intros]: "below m m"
  by (simp add: below_def)

lemma below_None [fuel_intros]: "below (\<lambda>p. None) m"
  by (simp add: below_def)

lemma below_bind [fuel_intros]:
  assumes "below m m'" and "\<And>a. below (f a) (f' a)"
  shows "below (pbind m f) (pbind m' f')"
  unfolding below_def
proof
  fix p
  have f: "f a q = None \<or> f a q = f' a q" for a q
    using assms(2) by (simp add: below_def)
  consider "m p = None" | "m' p = m p"
    using assms(1) unfolding below_def by metis
  then show "pbind m f p = None \<or> pbind m f p = pbind m' f' p"
    using f by cases (auto simp: pbind_def split: option.split sum.split)
qed

lemma below_if [fuel_intros]:
  "(b \<Longrightarrow> below m m') \<Longrightarrow> (\<not> b \<Longrightarrow> below n n') \<Longrightarrow> below (if b then m else n) (if b then m' else n')"
  by simp

lemma below_case_prod [fuel_intros]:
  "(\<And>a b. below (f a b) (g a b)) \<Longrightarrow> below (case_prod f x) (case_prod g x)"
  by (cases x) simp

lemma below_case_option [fuel_intros]:
  "below m m' \<Longrightarrow> (\<And>a. below (f a) (g a)) \<Longrightarrow> below (case_option m f x) (case_option m' g x)"
  by (cases x) simp_all

lemma below_D: "below m m' \<Longrightarrow> m p \<noteq> None \<Longrightarrow> m' p = m p"
  unfolding below_def by metis

lemma skip_comment_below [fuel_intros]: "n \<le> n' \<Longrightarrow> below (skip_comment n) (skip_comment n')"
proof (induction n arbitrary: n')
  case (Suc n)
  then obtain k where k: "n' = Suc k" "n \<le> k"
    by (cases n') auto
  show ?case
    unfolding k(1) skip_comment.simps using Suc.IH [OF k(2)] by (intro fuel_intros)
qed (simp add: fuel_intros)

lemma skip_blanks_below [fuel_intros]: "n \<le> n' \<Longrightarrow> below (skip_blanks n c) (skip_blanks n' c)"
proof (induction n arbitrary: n' c)
  case (Suc n)
  then obtain k where k: "n' = Suc k" "n \<le> k"
    by (cases n') auto
  show ?case
    unfolding k(1) skip_blanks.simps using Suc.IH [OF k(2)] k(2) by (intro fuel_intros) simp_all
qed (simp add: fuel_intros)

lemma scan_number_below [fuel_intros]: "n \<le> n' \<Longrightarrow> below (scan_number n off) (scan_number n' off)"
proof (induction n arbitrary: n' off)
  case (Suc n)
  then obtain k where k: "n' = Suc k" "n \<le> k"
    by (cases n') auto
  show ?case
    unfolding k(1) scan_number.simps using Suc.IH [OF k(2)] by (intro fuel_intros)
qed (simp add: fuel_intros)

lemma scan_ident_below [fuel_intros]: "n \<le> n' \<Longrightarrow> below (scan_ident n off str) (scan_ident n' off str)"
proof (induction n arbitrary: n' off str)
  case (Suc n)
  then obtain k where k: "n' = Suc k" "n \<le> k"
    by (cases n') auto
  show ?case
    unfolding k(1) scan_ident.simps using Suc.IH [OF k(2)] by (intro fuel_intros)
qed (simp add: fuel_intros)

lemma string_loop_below [fuel_intros]:
  "n \<le> n' \<Longrightarrow> below (string_loop n d k ret) (string_loop n' d k ret)"
proof (induction n arbitrary: n' k ret)
  case (Suc n)
  then obtain j where j: "n' = Suc j" "n \<le> j"
    by (cases n') auto
  show ?case
    unfolding j(1) string_loop.simps using Suc.IH [OF j(2)] by (intro fuel_intros)
qed (simp add: fuel_intros)

lemma integer_loop_below [fuel_intros]:
  "n \<le> n' \<Longrightarrow> below (integer_loop n k ret) (integer_loop n' k ret)"
proof (induction n arbitrary: n' k ret)
  case (Suc n)
  then obtain j where j: "n' = Suc j" "n \<le> j"
    by (cases n') auto
  show ?case
    unfolding j(1) integer_loop.simps using Suc.IH [OF j(2)] by (intro fuel_intros)
qed (simp add: fuel_intros)

lemma peek_symbol_below [fuel_intros]: "n \<le> n' \<Longrightarrow> below (peek_symbol n) (peek_symbol n')"
  unfolding peek_symbol_def skip_whitespace_def classify_symbol_def by (intro fuel_intros)

lemma expect_below [fuel_intros]: "n \<le> n' \<Longrightarrow> below (expect n s) (expect n' s)"
  unfolding expect_def unexpected_def by (intro fuel_intros)

lemma unexpected_in_below [fuel_intros]: "n \<le> n' \<Longrightarrow> below (unexpected_in n s) (unexpected_in n' s)"
  unfolding unexpected_in_def by (intro fuel_intros)

lemma parse_symbol_below [fuel_intros]: "n \<le> n' \<Longrightarrow> below (parse_symbol n s) (parse_symbol n' s)"
  unfolding parse_symbol_def by (intro fuel_intros)

lemma parse_identifier_below [fuel_intros]: "n \<le> n' \<Longrightarrow> below (parse_identifier n) (parse_identifier n')"
  unfolding parse_identifier_def by (intro fuel_intros)

lemma parse_string_below [fuel_intros]: "n \<le> n' \<Longrightarrow> below (parse_string n) (parse_string n')"
  unfolding parse_string_def by (intro fuel_intros)

lemma parse_integer_below [fuel_intros]: "n \<le> n' \<Longrightarrow> below (parse_integer n) (parse_integer n')"
  unfolding parse_integer_def Let_def by (intro fuel_intros)

section \<open>Enough fuel\<close>

definition quoted :: "string \<Rightarrow> bool" where
  "quoted t \<longleftrightarrow> CHR 0x27 \<in> set t \<or> CHR 0x22 \<in> set t"

lemma keyword_length: "symbol_length (keyword_of str) = Some k \<Longrightarrow> length str = k"
  by (auto simp: keyword_of_def split: if_split_asm)

lemma symbol_of_sized:
  assumes "symbol_length (symbol_of t) = Some k"
  shows "k \<le> length t"
proof (cases t)
  case (Cons c s)
  show ?thesis
  proof (cases "sign_of c")
    case None
    then have "symbol_length (keyword_of (c # takeWhile is_ident_char s)) = Some k"
      using assms unfolding Cons by (simp split: if_split_asm)
    from keyword_length [OF this] show ?thesis
      using length_takeWhile_le [of is_ident_char s] Cons by auto
  next
    case (Some y)
    then show ?thesis
      using assms sign_of_symbol [OF Some] unfolding Cons by (simp split: if_split_asm)
  qed
qed (use assms in simp)

lemma symbol_of_identifier: "symbol_of t = S_identifier \<Longrightarrow> \<exists>c s. t = c # s \<and> is_ident_char c"
proof (cases t)
  case (Cons c s)
  assume id: "symbol_of t = S_identifier"
  have "sign_of c \<noteq> Some S_identifier"
    by (simp add: sign_of_def)
  then have "is_letter c"
    using id unfolding Cons by (auto split: if_split_asm option.split_asm)
  then show ?thesis
    using Cons by (simp add: is_ident_char_def)
qed simp

context stream_reader
begin

text \<open>
  \<open>settled k d m m'\<close>: on a text of at most \<open>k\<close> characters, \<open>m\<close> and \<open>m'\<close> agree, return unless the
  text contains a quotation mark, and consume at least \<open>d\<close> characters when they succeed.
\<close>

definition consumes :: "nat \<Rightarrow> 'r Parser \<Rightarrow> 'r Parser \<Rightarrow> bool" where
  "consumes d p p' \<longleftrightarrow> coherent p' \<and> length (unread rest p') + d \<le> length (unread rest p)
     \<and> set (unread rest p') \<subseteq> set (unread rest p)"

definition settled :: "nat \<Rightarrow> nat \<Rightarrow> ('r Parser, 'a) parse \<Rightarrow> ('r Parser, 'a) parse \<Rightarrow> bool" where
  "settled k d m m' \<longleftrightarrow> (\<forall>p. coherent p \<longrightarrow> length (unread rest p) \<le> k \<longrightarrow>
     m p = m' p \<and> (m p = None \<longrightarrow> quoted (unread rest p))
     \<and> (\<forall>a p'. m p = Some (Inr (a, p')) \<longrightarrow> consumes d p p'))"

lemma settled_less: "settled k d m m' \<Longrightarrow> d' \<le> d \<Longrightarrow> settled k d' m m'"
  by (fastforce simp: settled_def consumes_def)

lemma settled_bind:
  assumes "settled k d1 m m'" and "\<And>a j. j + d1 \<le> k \<Longrightarrow> settled j d2 (f a) (f' a)" and "d \<le> d1 + d2"
  shows "settled k d (pbind m f) (pbind m' f')"
  unfolding settled_def
proof (intro allI impI)
  fix p
  assume p: "coherent p" "length (unread rest p) \<le> k"
  then have m: "m p = m' p" "m p = None \<longrightarrow> quoted (unread rest p)"
    "\<And>a p'. m p = Some (Inr (a, p')) \<Longrightarrow> consumes d1 p p'"
    using assms(1) by (simp_all add: settled_def)
  show "pbind m f p = pbind m' f' p \<and> (pbind m f p = None \<longrightarrow> quoted (unread rest p))
      \<and> (\<forall>a p'. pbind m f p = Some (Inr (a, p')) \<longrightarrow> consumes d p p')"
  proof (cases "\<exists>a q. m p = Some (Inr (a, q))")
    case True
    then obtain a q where q: "m p = Some (Inr (a, q))"
      by blast
    have c: "consumes d1 p q"
      using m(3) [OF q] .
    let ?j = "length (unread rest q)"
    have "settled ?j d2 (f a) (f' a)"
      using assms(2) c p(2) by (simp add: consumes_def)
    then have f: "f a q = f' a q" "f a q = None \<longrightarrow> quoted (unread rest q)"
      "\<And>b p'. f a q = Some (Inr (b, p')) \<Longrightarrow> consumes d2 q p'"
      using c by (auto simp: settled_def consumes_def)
    have "consumes d p p'" if "f a q = Some (Inr (b, p'))" for b p'
      using f(3) [OF that] c assms(3) by (auto simp: consumes_def)
    moreover have "quoted (unread rest q) \<longrightarrow> quoted (unread rest p)"
      using c by (auto simp: consumes_def quoted_def)
    ultimately show ?thesis
      using q m(1) f(1,2) by simp
  next
    case False
    then show ?thesis
      using m by (auto simp: pbind_def split: option.splits sum.splits)
  qed
qed

lemma settled_bind0 [fuel_intros]:
  "settled k 0 m m' \<Longrightarrow> (\<And>a j. j \<le> k \<Longrightarrow> settled j d (f a) (f' a)) \<Longrightarrow> settled k d (pbind m f) (pbind m' f')"
  by (rule settled_bind) auto

lemma settled_bind1:
  "settled k 1 m m' \<Longrightarrow> (\<And>a j. j < k \<Longrightarrow> settled j 0 (f a) (f' a)) \<Longrightarrow> d \<le> 1
    \<Longrightarrow> settled k d (pbind m f) (pbind m' f')"
  by (rule settled_bind) auto

lemma settled_return [fuel_intros]: "settled k 0 (preturn a) (preturn a)"
  by (simp add: settled_def consumes_def)

lemma settled_if [fuel_intros]:
  "(b \<Longrightarrow> settled k d m m') \<Longrightarrow> (\<not> b \<Longrightarrow> settled k d n n') \<Longrightarrow>
   settled k d (if b then m else n) (if b then m' else n')"
  by simp

lemma settled_position [fuel_intros]: "settled k 0 current_position current_position"
  by (simp add: settled_def consumes_def current_position_def)

text \<open>A computation that always returns with this much fuel settles.\<close>

lemma settled_total:
  assumes "below m m'" and "\<And>p. coherent p \<Longrightarrow> length (unread rest p) \<le> k \<Longrightarrow>
    (\<exists>e. m p = Some (Inl e)) \<or> (\<exists>a p'. m p = Some (Inr (a, p')) \<and> consumes d p p')"
  shows "settled k d m m'"
  unfolding settled_def
proof (intro allI impI)
  fix p
  assume "coherent p" "length (unread rest p) \<le> k"
  from assms(2) [OF this] show "m p = m' p \<and> (m p = None \<longrightarrow> quoted (unread rest p))
      \<and> (\<forall>a p'. m p = Some (Inr (a, p')) \<longrightarrow> consumes d p p')"
    using below_D [OF assms(1), of p] by auto
qed

lemma fresh_consumes:
  assumes "fresh p' u" and "length u + d \<le> length (unread rest p)" and "set u \<subseteq> set (unread rest p)"
  shows "consumes d p p'"
  using assms by (auto simp: consumes_def fresh_def coherent_def)

lemma at_symbol_consumes: "at_symbol p' (skip_text (unread rest p)) \<Longrightarrow> consumes 0 p p'"
  using at_symbol_coherent length_skip_text set_skip_text by (auto simp: consumes_def at_symbol_def)

lemma peek_symbol_settled [fuel_intros]:
  "k < n \<Longrightarrow> n \<le> n' \<Longrightarrow> settled k 0 (peek_symbol n) (peek_symbol n')"
proof (rule settled_total [OF peek_symbol_below], goal_cases)
  case (2 p)
  then show ?case
    using peek_symbol_text [of p n] at_symbol_consumes by fastforce
qed

lemma unexpected_in_settled [fuel_intros]:
  "k < n \<Longrightarrow> n \<le> n' \<Longrightarrow> settled k d (unexpected_in n s) (unexpected_in n' s)"
proof (rule settled_total [OF unexpected_in_below], goal_cases)
  case (2 p)
  then obtain q where "peek_symbol n p = Some (Inr (symbol_of (skip_text (unread rest p)), q))"
    using peek_symbol_text [of p n] by auto
  then show ?case
    by (simp add: unexpected_in_def throw_at_def current_position_def)
qed

lemma drop_skip_consumes:
  assumes "fresh p' (drop j (skip_text (unread rest p)))" and "j \<le> length (skip_text (unread rest p))"
    and "d \<le> j"
  shows "consumes d p p'"
proof (rule fresh_consumes [OF assms(1)])
  show "length (drop j (skip_text (unread rest p))) + d \<le> length (unread rest p)"
    using assms(2,3) length_skip_text [of "unread rest p"] by simp
  show "set (drop j (skip_text (unread rest p))) \<subseteq> set (unread rest p)"
    using set_skip_text set_drop_subset by fast
qed

lemma parse_symbol_settled [fuel_intros]:
  assumes "k < n" and "n \<le> n'" and "symbol_length s \<noteq> None" and "d \<le> the (symbol_length s)"
  shows "settled k d (parse_symbol n s) (parse_symbol n' s)"
proof (rule settled_total [OF parse_symbol_below [OF assms(2)]])
  fix p
  assume p: "coherent p" "length (unread rest p) \<le> k"
  then have n: "length (unread rest p) < n"
    using assms(1) by simp
  let ?t = "skip_text (unread rest p)"
  obtain j where j: "symbol_length s = Some j" "d \<le> j"
    using assms(3,4) by auto
  show "(\<exists>e. parse_symbol n s p = Some (Inl e))
      \<or> (\<exists>a p'. parse_symbol n s p = Some (Inr (a, p')) \<and> consumes d p p')"
  proof (cases "symbol_of ?t = s")
    case True
    then obtain p' where "parse_symbol n s p = Some (Inr ((), p'))" "fresh p' (drop j ?t)"
      using parse_symbol_ok [OF p(1) n True j(1)] by blast
    moreover have "j \<le> length ?t"
      using symbol_of_sized True j(1) by simp
    ultimately show ?thesis
      using drop_skip_consumes j(2) by blast
  next
    case False
    then show ?thesis
      using parse_symbol_error [OF p(1) n False] by blast
  qed
qed

lemma parse_identifier_settled [fuel_intros]:
  assumes "k < n" and "n \<le> n'" and "d \<le> 1"
  shows "settled k d (parse_identifier n) (parse_identifier n')"
proof (rule settled_total [OF parse_identifier_below [OF assms(2)]])
  fix p
  assume p: "coherent p" "length (unread rest p) \<le> k"
  then have n: "length (unread rest p) < n"
    using assms(1) by simp
  let ?t = "skip_text (unread rest p)"
  show "(\<exists>e. parse_identifier n p = Some (Inl e))
      \<or> (\<exists>a p'. parse_identifier n p = Some (Inr (a, p')) \<and> consumes d p p')"
  proof (cases "symbol_of ?t = S_identifier")
    case True
    then obtain a p' where p': "parse_identifier n p = Some (Inr (a, p'))" "fresh p' (dropWhile is_ident_char ?t)"
      using parse_identifier_ok [OF p(1) n refl True] by blast
    obtain c s where "?t = c # s" "is_ident_char c"
      using symbol_of_identifier [OF True] by blast
    then have "1 \<le> length (takeWhile is_ident_char ?t)"
      by simp
    then show ?thesis
      using p' drop_skip_consumes [of p' "length (takeWhile is_ident_char ?t)" p d] assms(3)
        length_takeWhile_le [of is_ident_char ?t] by (auto simp: dropWhile_eq_drop)
  next
    case False
    then show ?thesis
      using parse_identifier_error [OF p(1) n False] by blast
  qed
qed

lemma parse_integer_settled [fuel_intros]:
  assumes "k < n" and "n \<le> n'"
  shows "settled k 0 (parse_integer n) (parse_integer n')"
proof (rule settled_total [OF parse_integer_below [OF assms(2)]])
  fix p
  assume p: "coherent p" "length (unread rest p) \<le> k"
  then have n: "length (unread rest p) < n"
    using assms(1) by simp
  let ?t = "skip_text (unread rest p)"
  define j :: nat where "j = (if char_at ?t 0 = CHR ''-'' \<or> char_at ?t 0 = CHR ''+'' then 1 else 0)"
  show "(\<exists>e. parse_integer n p = Some (Inl e))
      \<or> (\<exists>a p'. parse_integer n p = Some (Inr (a, p')) \<and> consumes 0 p p')"
  proof (cases "symbol_of ?t = S_integer")
    case True
    have "set (dropWhile is_digit (drop j ?t)) \<subseteq> set (unread rest p)"
      using set_skip_text [of "unread rest p"] by (auto dest!: set_dropWhileD in_set_dropD)
    moreover have "length (dropWhile is_digit (drop j ?t)) \<le> length (unread rest p)"
      using length_skip_text [of "unread rest p"] length_dropWhile_le [of is_digit "drop j ?t"] by simp
    ultimately have "fresh p' (dropWhile is_digit (drop j ?t)) \<Longrightarrow> consumes 0 p p'" for p'
      by (auto intro: fresh_consumes)
    then show ?thesis
      using parse_integer_text [OF p(1) n refl True j_def refl] by (meson linorder_not_le)
  next
    case False
    then show ?thesis
      using parse_integer_error [OF p(1) n False] by blast
  qed
qed

lemma parse_string_settled [fuel_intros]:
  assumes "k < n" and "n \<le> n'"
  shows "settled k 0 (parse_string n) (parse_string n')"
  unfolding settled_def
proof (intro allI impI)
  fix p
  assume p: "coherent p" "length (unread rest p) \<le> k"
  then have n: "length (unread rest p) < n" "length (unread rest p) < n'"
    using assms by simp_all
  let ?t = "skip_text (unread rest p)"
  have ok: "parse_string n p = parse_string n' p \<and> (parse_string n p = None \<longrightarrow> quoted (unread rest p))
      \<and> (\<forall>a p'. parse_string n p = Some (Inr (a, p')) \<longrightarrow> consumes 0 p p')"
    if "(\<exists>e. parse_string n p = Some (Inl e)) \<or> (\<exists>a p'. parse_string n p = Some (Inr (a, p')) \<and> consumes 0 p p')"
    using that below_D [OF parse_string_below [OF assms(2)], of p] by auto
  show "parse_string n p = parse_string n' p \<and> (parse_string n p = None \<longrightarrow> quoted (unread rest p))
      \<and> (\<forall>a p'. parse_string n p = Some (Inr (a, p')) \<longrightarrow> consumes 0 p p')"
  proof (cases "symbol_of ?t = S_string")
    case False
    then show ?thesis
      using parse_string_error [OF p(1) n(1) False] by (intro ok) blast
  next
    case True
    then obtain d s where t: "?t = d # s" "d = CHR 0x27 \<or> d = CHR 0x22"
      by (rule symbol_of_string)
    have str: "symbol_of (d # s) = S_string"
      using True t(1) by simp
    have sub: "set (d # s) \<subseteq> set (unread rest p)"
      using set_skip_text [of "unread rest p"] t(1) by simp
    show ?thesis
    proof (cases "literal d s")
      case None
      have "quoted (unread rest p)"
        using sub t(2) by (auto simp: quoted_def)
      then show ?thesis
        using parse_string_diverges [OF p(1) n(1) t(1) str None]
          parse_string_diverges [OF p(1) n(2) t(1) str None] by simp
    next
      case (Some ru)
      obtain r u where ru: "literal d s = Some (r, u)"
        using Some by (cases ru) simp
      have "length u + 0 \<le> length (unread rest p)" "set u \<subseteq> set (unread rest p)"
        using literal_shorter [OF ru] length_skip_text [of "unread rest p"] t(1) sub by auto
      then show ?thesis
        using parse_string_ok [OF p(1) n(1) t(1) str ru] by (intro ok) (blast intro: fresh_consumes)
    qed
  qed
qed

section \<open>Grammar\<close>

lemma qualified_loop_settled [fuel_intros]:
  "k < n \<Longrightarrow> n \<le> n' \<Longrightarrow> settled k 0 (qualified_loop n sp t) (qualified_loop n' sp t)"
proof (induction n arbitrary: n' k sp t)
  case (Suc n)
  then obtain m where m: "n' = Suc m" "n \<le> m"
    by (cases n') auto
  show ?case
    unfolding m(1) qualified_loop.simps
  proof (rule settled_bind0 [OF _ settled_if])
    fix s j
    assume "j \<le> k" "s = S_namespace_sep"
    show "settled j 0 (pbind (parse_symbol (Suc n) S_namespace_sep) (\<lambda>_.
          pbind (parse_identifier (Suc n)) (\<lambda>tmp'. qualified_loop n (sp @ [t]) tmp')))
        (pbind (parse_symbol (Suc m) S_namespace_sep) (\<lambda>_.
          pbind (parse_identifier (Suc m)) (\<lambda>tmp'. qualified_loop m (sp @ [t]) tmp')))"
      by (rule settled_bind1 [OF parse_symbol_settled settled_bind0 [OF parse_identifier_settled Suc.IH]])
        (use \<open>j \<le> k\<close> Suc.prems m in auto)
  qed (use Suc.prems m in \<open>auto intro: fuel_intros\<close>)
qed simp

lemma parse_qualified_identifier_settled [fuel_intros]:
  "k < n \<Longrightarrow> n \<le> n' \<Longrightarrow> d \<le> 1 \<Longrightarrow>
   settled k d (parse_qualified_identifier n) (parse_qualified_identifier n')"
  unfolding parse_qualified_identifier_def
  by (rule settled_bind1 [OF parse_identifier_settled qualified_loop_settled]) auto

lemma parse_type_settled [fuel_intros]:
  "k < n \<Longrightarrow> n \<le> n' \<Longrightarrow> settled k 0 (parse_type n) (parse_type n')"
  unfolding parse_type_def by (intro fuel_intros) auto

lemma parse_include_settled [fuel_intros]:
  "k < n \<Longrightarrow> n \<le> n' \<Longrightarrow> d \<le> 1 \<Longrightarrow> settled k d (parse_include n) (parse_include n')"
  unfolding parse_include_def
  by (intro settled_bind0 [OF settled_position] settled_bind1 [OF parse_symbol_settled] fuel_intros) auto

lemma parse_struct_field_settled:
  "k < n \<Longrightarrow> n \<le> n' \<Longrightarrow> d \<le> 1 \<Longrightarrow> settled k d (parse_struct_field n) (parse_struct_field n')"
  unfolding parse_struct_field_def
  by (intro settled_bind0 [OF settled_position] settled_bind1 [OF parse_identifier_settled] fuel_intros) auto

lemma parse_mapping_field_settled:
  "k < n \<Longrightarrow> n \<le> n' \<Longrightarrow> d \<le> 1 \<Longrightarrow> settled k d (parse_mapping_field n) (parse_mapping_field n')"
  unfolding parse_mapping_field_def
  by (intro settled_bind0 [OF settled_position] settled_bind1 [OF parse_identifier_settled] fuel_intros) auto

lemma parse_encoding_field_settled:
  "k < n \<Longrightarrow> n \<le> n' \<Longrightarrow> d \<le> 1 \<Longrightarrow> settled k d (parse_encoding_field n) (parse_encoding_field n')"
  unfolding parse_encoding_field_def parse_encoding_name_def
  by (intro settled_bind0 [OF settled_position] settled_bind1 [OF parse_identifier_settled] fuel_intros) auto

lemma until_close_settled:
  assumes "\<And>n n' k. k < n \<Longrightarrow> n \<le> n' \<Longrightarrow> settled k 1 (item n) (item n')"
  shows "k < n \<Longrightarrow> n \<le> n' \<Longrightarrow> settled k 0 (until_close n item acc) (until_close n' item acc)"
proof (induction n arbitrary: n' k acc)
  case (Suc n)
  then obtain m where m: "n' = Suc m" "n \<le> m"
    by (cases n') auto
  show ?case
    unfolding m(1) until_close.simps
  proof (rule settled_bind0 [OF _ settled_if])
    fix s j
    assume "j \<le> k" "s \<noteq> S_curly_close"
    show "settled j 0 (pbind (item (Suc n)) (\<lambda>x. until_close n item (acc @ [x])))
        (pbind (item (Suc m)) (\<lambda>x. until_close m item (acc @ [x])))"
      by (rule settled_bind1 [OF assms Suc.IH]) (use \<open>j \<le> k\<close> Suc.prems m in auto)
  qed (use Suc.prems m in \<open>auto intro: fuel_intros\<close>)
qed simp

lemma parse_struct_settled:
  "k < n \<Longrightarrow> n \<le> n' \<Longrightarrow> d \<le> 1 \<Longrightarrow> settled k d (parse_struct n) (parse_struct n')"
  unfolding parse_struct_def
  by (intro settled_bind0 [OF settled_position] settled_bind1 [OF parse_symbol_settled]
      until_close_settled parse_struct_field_settled fuel_intros) auto

lemma parse_mapping_settled:
  "k < n \<Longrightarrow> n \<le> n' \<Longrightarrow> d \<le> 1 \<Longrightarrow> settled k d (parse_mapping n) (parse_mapping n')"
  unfolding parse_mapping_def
  by (intro settled_bind0 [OF settled_position] settled_bind1 [OF parse_symbol_settled]
      until_close_settled parse_mapping_field_settled fuel_intros) auto

lemma encoding_settled:
  "k + 1 < n \<Longrightarrow> n \<le> n' \<Longrightarrow> d \<le> 1 \<Longrightarrow> settled k d (parse_encoding_node n) (parse_encoding_node n')"
  "k < n \<Longrightarrow> n \<le> n' \<Longrightarrow> d \<le> 1 \<Longrightarrow> settled k d (parse_encoding_delta_block n) (parse_encoding_delta_block n')"
  "k + 2 < n \<Longrightarrow> n \<le> n' \<Longrightarrow> settled k 0 (encoding_nodes n acc) (encoding_nodes n' acc)"
proof (induction n arbitrary: n' k d acc)
  case (Suc n)
  {
    case 1
    then obtain m where m: "n' = Suc m" "n \<le> m"
      by (cases n') auto
    show ?case
      unfolding m(1) parse_encoding_node.simps
      by (rule settled_bind0)
        (use 1 m in \<open>auto intro!: fuel_intros Suc.IH(2) parse_encoding_field_settled split: Symbol.split\<close>)
  next
    case 2
    then obtain m where m: "n' = Suc m" "n \<le> m"
      by (cases n') auto
    show ?case
      unfolding m(1) parse_encoding_delta_block.simps
    proof (rule settled_bind0 [OF settled_position settled_bind [where ?d1.0 = 5 and ?d2.0 = 0]])
      show "settled j 5 (parse_symbol (Suc n) S_delta_kw) (parse_symbol (Suc m) S_delta_kw)" if "j \<le> k" for j
        using that 2 m by (intro fuel_intros) auto
    qed (use 2 m in \<open>auto intro!: fuel_intros Suc.IH split: Symbol.split\<close>)
  next
    case 3
    then obtain m where m: "n' = Suc m" "n \<le> m"
      by (cases n') auto
    show ?case
      unfolding m(1) encoding_nodes.simps
    proof (rule settled_bind0 [OF _ settled_if])
      fix s j
      assume "j \<le> k" "s \<noteq> S_curly_close"
      show "settled j 0 (pbind (parse_encoding_node n) (\<lambda>x. encoding_nodes n (acc @ [x])))
          (pbind (parse_encoding_node m) (\<lambda>x. encoding_nodes m (acc @ [x])))"
        by (rule settled_bind1 [OF Suc.IH(1,3)]) (use \<open>j \<le> k\<close> 3 m in auto)
    qed (use 3 m in \<open>auto intro: fuel_intros\<close>)
  }
qed simp_all

lemma parse_encoding_settled:
  "k + 1 < n \<Longrightarrow> n \<le> n' \<Longrightarrow> d \<le> 1 \<Longrightarrow> settled k d (parse_encoding n) (parse_encoding n')"
  unfolding parse_encoding_def parse_encoding_name_def
  by (intro settled_bind0 [OF settled_position] settled_bind1 [OF parse_symbol_settled]
      encoding_settled(3) fuel_intros) auto

lemma includes_loop_settled [fuel_intros]:
  "k < n \<Longrightarrow> n \<le> n' \<Longrightarrow> settled k 0 (includes_loop n acc) (includes_loop n' acc)"
proof (induction n arbitrary: n' k acc)
  case (Suc n)
  then obtain m where m: "n' = Suc m" "n \<le> m"
    by (cases n') auto
  show ?case
    unfolding m(1) includes_loop.simps
  proof (rule settled_bind0 [OF _ settled_if])
    fix s j
    assume "j \<le> k" "s = S_include_kw"
    show "settled j 0 (pbind (parse_include (Suc n)) (\<lambda>i. includes_loop n (acc @ [i])))
        (pbind (parse_include (Suc m)) (\<lambda>i. includes_loop m (acc @ [i])))"
      by (rule settled_bind1 [OF parse_include_settled Suc.IH]) (use \<open>j \<le> k\<close> Suc.prems m in auto)
  qed (use Suc.prems m in \<open>auto intro: fuel_intros\<close>)
qed simp

lemma parse_namespace_settled [fuel_intros]:
  "k < n \<Longrightarrow> n \<le> n' \<Longrightarrow> settled k 0 (parse_namespace n) (parse_namespace n')"
  unfolding parse_namespace_def by (intro fuel_intros) auto

lemma decls_loop_settled [fuel_intros]:
  "k + 1 < n \<Longrightarrow> n \<le> n' \<Longrightarrow> settled k 0 (decls_loop n node) (decls_loop n' node)"
proof (induction n arbitrary: n' k node)
  case (Suc n)
  then obtain m where m: "n' = Suc m" "n \<le> m"
    by (cases n') auto
  have "settled j 0 (pbind (g (Suc n)) (\<lambda>d. decls_loop n (u d))) (pbind (g (Suc m)) (\<lambda>d. decls_loop m (u d)))"
    if "j \<le> k" and "\<And>i. i \<le> k \<Longrightarrow> settled i 1 (g (Suc n)) (g (Suc m))"
    for j u and g :: "nat \<Rightarrow> ('r Parser, 'x) parse"
    by (rule settled_bind1 [OF that(2) Suc.IH]) (use that Suc.prems m in auto)
  note decl = this
  show ?case
    unfolding m(1) decls_loop.simps
    by (rule settled_bind0) (use Suc.prems m in \<open>auto intro!: fuel_intros decl parse_struct_settled
        parse_mapping_settled parse_encoding_settled split: Symbol.split\<close>)
qed simp

lemma parse_document_settled:
  "k + 1 < n \<Longrightarrow> n \<le> n' \<Longrightarrow> settled k 0 (parse_document n) (parse_document n')"
  unfolding parse_document_def by (intro fuel_intros) auto

lemma parse_settled:
  assumes "good r" and "length (rest r) + 2 \<le> n" and "n \<le> n'" and "reader = \<lparr>sr_state = r, sr_read = read\<rparr>"
  shows "parse n' file reader = parse n file reader" and "\<not> quoted (rest r) \<Longrightarrow> parse n file reader \<noteq> None"
proof -
  let ?p = "new_Parser file reader"
  have p: "coherent ?p" "unread rest ?p = rest r"
    using assms(1,4) by (simp_all add: coherent_def ok_def unread_def buffered_def new_Parser_def)
  have "settled (length (rest r)) 0 (parse_document n) (parse_document n')"
    using assms(2,3) by (intro parse_document_settled) auto
  then have "parse_document n ?p = parse_document n' ?p"
    "parse_document n ?p = None \<longrightarrow> quoted (rest r)"
    using p unfolding settled_def by (metis order_refl)+
  then show "parse n' file reader = parse n file reader"
    "\<not> quoted (rest r) \<Longrightarrow> parse n file reader \<noteq> None"
    by (auto simp: parse_def)
qed

end

section \<open>More fuel, in the grammar\<close>

lemma qualified_loop_below [fuel_intros]: "n \<le> n' \<Longrightarrow> below (qualified_loop n sp t) (qualified_loop n' sp t)"
proof (induction n arbitrary: n' sp t)
  case (Suc n)
  then obtain k where k: "n' = Suc k" "n \<le> k" "Suc n \<le> Suc k"
    by (cases n') auto
  show ?case
    unfolding k(1) qualified_loop.simps using Suc.IH [OF k(2)] k(3) by (intro fuel_intros)
qed (simp add: fuel_intros)

lemma parse_qualified_identifier_below [fuel_intros]:
  "n \<le> n' \<Longrightarrow> below (parse_qualified_identifier n) (parse_qualified_identifier n')"
  unfolding parse_qualified_identifier_def by (intro fuel_intros)

lemma until_close_below:
  assumes "\<And>n n'. n \<le> n' \<Longrightarrow> below (item n) (item n')"
  shows "n \<le> n' \<Longrightarrow> below (until_close n item acc) (until_close n' item acc)"
proof (induction n arbitrary: n' acc)
  case (Suc n)
  then obtain k where k: "n' = Suc k" "n \<le> k" "Suc n \<le> Suc k"
    by (cases n') auto
  show ?case
    unfolding k(1) until_close.simps using Suc.IH [OF k(2)] k(3) by (intro fuel_intros assms)
qed (simp add: fuel_intros)

lemma parse_include_below [fuel_intros]: "n \<le> n' \<Longrightarrow> below (parse_include n) (parse_include n')"
  unfolding parse_include_def by (intro fuel_intros)

lemma parse_struct_below [fuel_intros]: "n \<le> n' \<Longrightarrow> below (parse_struct n) (parse_struct n')"
  unfolding parse_struct_def
  by (intro fuel_intros until_close_below; (unfold parse_struct_field_def parse_type_def)?; (intro fuel_intros)?)

lemma parse_mapping_below [fuel_intros]: "n \<le> n' \<Longrightarrow> below (parse_mapping n) (parse_mapping n')"
  unfolding parse_mapping_def
  by (intro fuel_intros until_close_below; (unfold parse_mapping_field_def)?; (intro fuel_intros)?)

lemma parse_encoding_name_below [fuel_intros]:
  "n \<le> n' \<Longrightarrow> below (parse_encoding_name n) (parse_encoding_name n')"
  unfolding parse_encoding_name_def by (intro fuel_intros)

lemma encoding_below:
  "n \<le> n' \<Longrightarrow> below (parse_encoding_node n :: ('r Parser, _) parse) (parse_encoding_node n')"
  "n \<le> n' \<Longrightarrow> below (parse_encoding_delta_block n :: ('r Parser, _) parse) (parse_encoding_delta_block n')"
  "n \<le> n' \<Longrightarrow> below (encoding_nodes n acc :: ('r Parser, _) parse) (encoding_nodes n' acc)"
proof (induction n arbitrary: n' acc)
  case (Suc n)
  {
    case 1
    then obtain k where k: "n' = Suc k" "n \<le> k" "Suc n \<le> Suc k"
      by (cases n') auto
    show ?case
      unfolding k(1) parse_encoding_node.simps parse_encoding_field_def
      by (rule below_bind) (use k(2,3) in \<open>auto intro!: fuel_intros Suc.IH split: Symbol.split\<close>)
  next
    case 2
    then obtain k where k: "n' = Suc k" "n \<le> k" "Suc n \<le> Suc k"
      by (cases n') auto
    show ?case
      unfolding k(1) parse_encoding_delta_block.simps
      by (intro below_bind) (use k(2,3) in \<open>auto intro!: fuel_intros Suc.IH split: Symbol.split\<close>)
  next
    case 3
    then obtain k where k: "n' = Suc k" "n \<le> k" "Suc n \<le> Suc k"
      by (cases n') auto
    show ?case
      unfolding k(1) encoding_nodes.simps using k(2,3) by (intro fuel_intros Suc.IH)
  }
qed (simp_all add: fuel_intros)

lemma parse_encoding_below [fuel_intros]: "n \<le> n' \<Longrightarrow> below (parse_encoding n) (parse_encoding n')"
  unfolding parse_encoding_def by (intro fuel_intros encoding_below)

lemma includes_loop_below [fuel_intros]: "n \<le> n' \<Longrightarrow> below (includes_loop n acc) (includes_loop n' acc)"
proof (induction n arbitrary: n' acc)
  case (Suc n)
  then obtain k where k: "n' = Suc k" "n \<le> k" "Suc n \<le> Suc k"
    by (cases n') auto
  show ?case
    unfolding k(1) includes_loop.simps using Suc.IH [OF k(2)] k(3) by (intro fuel_intros)
qed (simp add: fuel_intros)

lemma decls_loop_below [fuel_intros]: "n \<le> n' \<Longrightarrow> below (decls_loop n node) (decls_loop n' node)"
proof (induction n arbitrary: n' node)
  case (Suc n)
  then obtain k where k: "n' = Suc k" "n \<le> k" "Suc n \<le> Suc k"
    by (cases n') auto
  show ?case
    unfolding k(1) decls_loop.simps
    by (rule below_bind) (use Suc.IH [OF k(2)] k(3) in \<open>auto intro!: fuel_intros split: Symbol.split\<close>)
qed (simp add: fuel_intros)

lemma parse_document_below: "n \<le> n' \<Longrightarrow> below (parse_document n) (parse_document n')"
  unfolding parse_document_def parse_namespace_def by (intro fuel_intros)

lemma parse_more_fuel: "n \<le> n' \<Longrightarrow> parse n file reader \<noteq> None \<Longrightarrow> parse n' file reader = parse n file reader"
  using below_D [OF parse_document_below] by (fastforce simp: parse_def)

end
