(* ===== verification/HappyRoundtrip.thy ===== *)
theory HappyRoundtrip
  imports HappyFuel
begin

text \<open>
  Reading back what the printer wrote: names, types with their array sizes, includes and the
  namespace of a document. The lemmas give the result of each rule of the grammar on printed text.
\<close>

section \<open>Well-formed names and decimal numbers\<close>

definition wf_ident :: "string \<Rightarrow> bool" where
  "wf_ident s \<longleftrightarrow> s \<noteq> [] \<and> is_letter (hd s) \<and> list_all is_ident_char s \<and> keyword_of s = S_identifier"

definition wf_qualified :: "AstQualifiedIdentifier \<Rightarrow> bool" where
  "wf_qualified q \<longleftrightarrow> list_all wf_ident (qi_space q) \<and> wf_ident (qi_name q)"

text \<open>The text after a name does not continue it.\<close>

definition ends_name :: "string \<Rightarrow> bool" where
  "ends_name u \<longleftrightarrow> \<not> is_ident_char (char_at u 0)"

lemma not_letters: "d \<in> set ('' #-+:.{}[]'' @ [NUL, CHR 0x09, CHR 0x0A, CHR 0x0D, CHR 0x22, CHR 0x27]) \<Longrightarrow> \<not> is_letter d"
  by (auto simp: is_letter_def NUL_def)

lemma letter_plain:
  assumes "is_letter c"
  shows "\<not> is_blank c \<and> c \<noteq> CHR ''#'' \<and> c \<noteq> NUL"
    and "\<not> is_digit c \<and> c \<noteq> CHR ''-'' \<and> c \<noteq> CHR ''+'' \<and> sign_of c = None \<and> c \<noteq> CHR 0x27 \<and> c \<noteq> CHR 0x22"
proof -
  have ne: "c \<noteq> d" if "d \<in> set ('' #-+:.{}[]'' @ [NUL, CHR 0x09, CHR 0x0A, CHR 0x0D, CHR 0x22, CHR 0x27])" for d
    using not_letters [OF that] assms by auto
  show "\<not> is_blank c \<and> c \<noteq> CHR ''#'' \<and> c \<noteq> NUL"
    by (simp add: is_blank_def ne)
  have "\<not> is_digit c"
    using assms unfolding is_letter_def is_digit_def by linarith
  then show "\<not> is_digit c \<and> c \<noteq> CHR ''-'' \<and> c \<noteq> CHR ''+'' \<and> sign_of c = None \<and> c \<noteq> CHR 0x27 \<and> c \<noteq> CHR 0x22"
    by (simp add: sign_of_def ne)
qed

lemma symbol_of_word:
  assumes "is_letter c" and "list_all is_ident_char s" and "ends_name u"
  shows "symbol_of (c # s @ u) = keyword_of (c # s)" and "skip_text (c # s @ u) = c # s @ u"
proof -
  have "takeWhile is_ident_char (s @ u) = s"
    using assms(2,3)
    by (cases u) (auto simp: ends_name_def list_all_iff)
  then show "symbol_of (c # s @ u) = keyword_of (c # s)"
    using letter_plain [OF assms(1)] assms(1) by simp
  show "skip_text (c # s @ u) = c # s @ u"
    using letter_plain [OF assms(1)] by simp
qed

lemma ident_text:
  assumes "wf_ident s" and "ends_name u"
  shows "symbol_of (s @ u) = S_identifier" and "skip_text (s @ u) = s @ u"
    and "takeWhile is_ident_char (s @ u) = s" and "dropWhile is_ident_char (s @ u) = u"
proof -
  obtain c s' where s: "s = c # s'" "is_letter c" "list_all is_ident_char s'" "keyword_of s = S_identifier"
    "list_all is_ident_char s"
    using assms(1) by (cases s) (auto simp: wf_ident_def)
  then show "symbol_of (s @ u) = S_identifier" "skip_text (s @ u) = s @ u"
    using symbol_of_word [OF s(2,3) assms(2)] by simp_all
  show "takeWhile is_ident_char (s @ u) = s" "dropWhile is_ident_char (s @ u) = u"
    using s(5) assms(2) by (cases u; auto simp: ends_name_def list_all_iff dropWhile_append)+
qed

lemma digit_char: "k < 10 \<Longrightarrow> is_digit (char_of (48 + k)) \<and> digit_value (char_of (48 + k)) = int k"
  by (simp add: is_digit_def digit_value_def)

lemma show_nat_digits: "list_all is_digit (show_nat k) \<and> show_nat k \<noteq> []"
  by (induction k rule: show_nat.induct) (subst show_nat.simps, auto simp: digit_char)+

lemma decimal_snoc: "decimal (ds @ [c]) = decimal ds * 10 + digit_value c"
  by (simp add: decimal_def)

lemma decimal_show_nat: "decimal (show_nat k) = int k"
proof (induction k rule: show_nat.induct)
  case (1 k)
  show ?case
  proof (cases "k < 10")
    case True
    then show ?thesis
      by (subst show_nat.simps) (simp add: decimal_def digit_char)
  next
    case False
    then have "decimal (show_nat k) = decimal (show_nat (k div 10)) * 10 + digit_value (char_of (48 + k mod 10))"
      by (subst show_nat.simps) (simp add: decimal_snoc)
    also have "\<dots> = int (k div 10) * 10 + int (k mod 10)"
      using 1 [OF False] digit_char [of "k mod 10"] by simp
    finally show ?thesis
      by presburger
  qed
qed

text \<open>A type that the parser can produce: an array has a size that fits 64 bits, other types have none.\<close>

definition wf_type :: "AstType \<Rightarrow> bool" where
  "wf_type t \<longleftrightarrow> wf_qualified (ty_identifier t)
     \<and> (if ty_is_array t then (case ty_array_size t of Some i \<Rightarrow> \<bar>i\<bar> \<le> int64_max | None \<Rightarrow> False)
        else ty_array_size t = None)"

section \<open>Names, types and declarations read back\<close>

lemma sign_text:
  assumes "sign_of c = Some y"
  shows "symbol_of (c # u) = y" and "skip_text (c # u) = c # u" and "ends_name (c # u)"
  using assms by (auto simp: sign_of_def is_blank_def is_digit_def is_letter_def is_ident_char_def NUL_def
      ends_name_def split: if_split_asm)

lemma sign_of_signs:
  "sign_of (CHR '':'') = Some S_colon" "sign_of (CHR ''.'') = Some S_namespace_sep"
  "sign_of (CHR ''['') = Some S_bracket_open" "sign_of (CHR '']'') = Some S_bracket_close"
  by (simp_all add: sign_of_def)

lemma integer_text:
  assumes "is_digit (char_at u 0) = False" and "char_at u 0 \<noteq> CHR ''.''"
  shows "symbol_of (show_int i @ u) = S_integer" and "skip_text (show_int i @ u) = show_int i @ u"
    and "dropWhile is_digit (drop (if i < 0 then 1 else 0) (show_int i @ u)) = u"
    and "takeWhile is_digit (drop (if i < 0 then 1 else 0) (show_int i @ u)) = show_nat (nat \<bar>i\<bar>)"
    and "char_at (show_int i @ u) 0 = CHR ''-'' \<longleftrightarrow> i < 0" and "char_at (show_int i @ u) 0 \<noteq> CHR ''+''"
proof -
  define ds where "ds = show_nat (nat \<bar>i\<bar>)"
  obtain c s where ds: "ds = c # s" "is_digit c" "list_all is_digit s"
    using show_nat_digits [of "nat \<bar>i\<bar>"] by (cases ds) (auto simp: ds_def)
  have si: "show_int i = (if i < 0 then CHR ''-'' # ds else ds)"
    by (simp add: show_int_def ds_def)
  have "\<not> is_digit (CHR ''-'')" "\<not> is_digit (CHR ''+'')" "\<not> is_digit (CHR ''#'')" "\<not> is_digit NUL"
    "\<not> is_digit (CHR '' '')" "\<not> is_digit (CHR 0x09)" "\<not> is_digit (CHR 0x0A)" "\<not> is_digit (CHR 0x0D)"
    by (simp_all add: is_digit_def NUL_def)
  then have c: "c \<noteq> CHR ''-''" "c \<noteq> CHR ''+''" "c \<noteq> NUL" "c \<noteq> CHR ''#''" "\<not> is_blank c"
    using ds(2) unfolding is_blank_def by blast+
  have m: "\<not> is_blank (CHR ''-'')" "CHR ''-'' \<noteq> NUL" "CHR ''-'' \<noteq> CHR ''#''"
    by (simp_all add: is_blank_def NUL_def)
  have dw: "dropWhile is_digit (s @ u) = u" "takeWhile is_digit (s @ u) = s"
    using ds(3) assms(1) by (cases u; simp add: list_all_iff)+
  show "symbol_of (show_int i @ u) = S_integer" "skip_text (show_int i @ u) = show_int i @ u"
    using dw assms(2) c m ds(2) by (simp_all add: si ds(1))
  show "dropWhile is_digit (drop (if i < 0 then 1 else 0) (show_int i @ u)) = u"
    "takeWhile is_digit (drop (if i < 0 then 1 else 0) (show_int i @ u)) = show_nat (nat \<bar>i\<bar>)"
    using dw ds(2) by (simp_all add: si ds(1) flip: ds_def)
  show "char_at (show_int i @ u) 0 = CHR ''-'' \<longleftrightarrow> i < 0" "char_at (show_int i @ u) 0 \<noteq> CHR ''+''"
    using c by (simp_all add: si ds(1))
qed

lemma literal_plain:
  assumes "d \<notin> set s" and "CHR 0x5C \<notin> set s"
  shows "literal d (s @ d # u) = Some (s, u)"
  using assms
proof (induction s)
  case Nil
  then show ?case
    by (cases u) simp_all
next
  case (Cons c s)
  then show ?case
    by (cases "s @ d # u") auto
qed

definition plain_path :: "string \<Rightarrow> bool" where
  "plain_path s \<longleftrightarrow> CHR 0x27 \<notin> set s \<and> CHR 0x5C \<notin> set s"

lemma quote_text:
  "symbol_of (CHR 0x27 # u) = S_string" "skip_text (CHR '' '' # CHR 0x27 # u) = CHR 0x27 # u"
  by (simp_all add: NUL_def is_digit_def sign_of_def is_blank_def)

lemma skip_newline: "skip_text (newline @ u) = skip_text u"
  by (simp add: newline_def is_blank_def)

definition wf_root :: "AstRoot \<Rightarrow> bool" where
  "wf_root r \<longleftrightarrow> list_all (\<lambda>i. plain_path (in_path i)) (rt_includes r)
     \<and> (if qi_name (rt_space r) = [] then qi_space (rt_space r) = [] else wf_qualified (rt_space r))"

definition print_structs :: "AstStruct list \<Rightarrow> string" where
  "print_structs ds = concat (map (\<lambda>d. print_struct d @ newline) ds)"

lemma print_structs_symbol:
  "symbol_of (skip_text (print_structs ds)) = (if ds = [] then S_eof else S_identifier)"
proof (cases ds)
  case (Cons d es)
  have "symbol_of (skip_text (CHR ''D'' # ''ATA'' @ CHR '' '' # u)) = S_identifier" for u
    using symbol_of_word [of "CHR ''D''" "''ATA''" "CHR '' '' # u"]
    by (simp add: ends_name_def is_ident_char_def is_letter_def is_digit_def keyword_of_def)
  then show ?thesis
    by (simp add: Cons print_structs_def print_struct_def)
qed (simp add: print_structs_def)

definition print_space :: "AstQualifiedIdentifier \<Rightarrow> string" where
  "print_space q = (if qi_name q = [] then [] else ''NAMESPACE '' @ print_qualified_identifier q @ newline)"

lemma print_root_parts:
  "print_root r = concat (map (\<lambda>i. print_include i @ newline) (rt_includes r))
     @ print_space (rt_space r) @ print_structs (rt_struct_decls r)"
  by (simp add: print_root_def print_space_def print_structs_def)

lemma print_space_symbol: "symbol_of (skip_text (print_space q @ print_structs ds)) \<noteq> S_include_kw"
proof (cases "qi_name q = []")
  case True
  then show ?thesis
    by (simp add: print_space_def print_structs_symbol)
next
  case False
  have "symbol_of (skip_text (CHR ''N'' # ''AMESPACE'' @ CHR '' '' # u)) = S_namespace_kw" for u
    using symbol_of_word [of "CHR ''N''" "''AMESPACE''" "CHR '' '' # u"]
    by (simp add: ends_name_def is_ident_char_def is_letter_def is_digit_def keyword_of_def)
  then show ?thesis
    using False by (simp add: print_space_def)
qed

context stream_reader
begin

lemma identifier_read:
  assumes "coherent p" and "length (unread rest p) < n" and "skip_text (unread rest p) = s @ u"
    and "wf_ident s" and "ends_name u"
  shows "\<exists>p'. parse_identifier n p = Some (Inr (s, p')) \<and> fresh p' u"
  using parse_identifier_ok [OF assms(1,2) assms(3) [symmetric]] ident_text [OF assms(4,5)] by simp

lemma sign_read:
  assumes "coherent p" and "length (unread rest p) < n" and "skip_text (unread rest p) = c # u"
    and "sign_of c = Some y"
  shows "\<exists>p'. parse_symbol n y p = Some (Inr ((), p')) \<and> fresh p' u"
  using parse_symbol_ok [OF assms(1,2), of y 1] sign_text [OF assms(4)] sign_of_symbol [OF assms(4)] assms(3)
  by simp

lemma integer_read:
  assumes "coherent p" and "length (unread rest p) < n" and "skip_text (unread rest p) = show_int i @ u"
    and "is_digit (char_at u 0) = False" and "char_at u 0 \<noteq> CHR ''.''" and "\<bar>i\<bar> \<le> int64_max"
  shows "\<exists>p'. parse_integer n p = Some (Inr (i, p')) \<and> fresh p' u"
proof -
  note t = integer_text [OF assms(4,5), of i]
  have "(if char_at (show_int i @ u) 0 = CHR ''-'' \<or> char_at (show_int i @ u) 0 = CHR ''+'' then 1 else 0)
      = (if i < 0 then 1 else 0 :: nat)"
    using t(5,6) by simp
  from parse_integer_text [OF assms(1,2) assms(3) [symmetric] t(1) this [symmetric] refl] show ?thesis
    using assms(6) t(3-5) by (simp add: decimal_show_nat split: if_split_asm)
qed

lemma qualified_loop_read:
  assumes "coherent p" and "length (unread rest p) < n"
    and "skip_text (unread rest p) = skip_text (concat (map (\<lambda>x. CHR ''.'' # x) ns) @ u)"
    and "list_all wf_ident ns" and "ends_name u" and "symbol_of (skip_text u) \<noteq> S_namespace_sep"
  shows "\<exists>p'. qualified_loop n sp t p
      = Some (Inr (\<lparr>qi_space = sp @ butlast (t # ns), qi_name = last (t # ns)\<rparr>, p')) \<and> at_symbol p' (skip_text u)"
  using assms
proof (induction ns arbitrary: p n sp t)
  case Nil
  then obtain m where m: "n = Suc m"
    by (cases n) auto
  then show ?case
    using peek_symbol_text [OF Nil.prems(1,2)] Nil.prems(3,6) by auto
next
  case (Cons x ns)
  then obtain m where m: "n = Suc m"
    by (cases n) auto
  let ?r = "concat (map (\<lambda>x. CHR ''.'' # x) ns) @ u"
  have dot: "skip_text (unread rest p) = CHR ''.'' # x @ ?r"
    using Cons.prems(3) sign_text(2) [OF sign_of_signs(2)] by simp
  have ends: "ends_name ?r"
    using Cons.prems(5) sign_text(3) [OF sign_of_signs(2)] by (cases ns) auto
  have x: "wf_ident x" "list_all wf_ident ns"
    using Cons.prems(4) by simp_all
  obtain q where q: "peek_symbol n p = Some (Inr (S_namespace_sep, q))" "at_symbol q (CHR ''.'' # x @ ?r)"
    using peek_symbol_text [OF Cons.prems(1,2)] dot sign_text(1) [OF sign_of_signs(2)] by auto
  have len: "Suc (length (x @ ?r)) \<le> length (unread rest p)"
    using length_skip_text [of "unread rest p"] dot by simp
  obtain q2 where q2: "parse_symbol n S_namespace_sep q = Some (Inr ((), q2))" "fresh q2 (x @ ?r)"
    using sign_read [OF at_symbol_coherent [OF q(2)] _ _ sign_of_signs(2), of n "x @ ?r"] q(2) len Cons.prems(2)
    by (auto simp: at_symbol_def)
  obtain q3 where q3: "parse_identifier n q2 = Some (Inr (x, q3))" "fresh q3 ?r"
    using identifier_read [OF fresh_coherent [OF q2(2)] _ _ x(1) ends, of n] q2(2) len Cons.prems(2)
      ident_text(2) [OF x(1) ends] by (auto simp: fresh_def)
  obtain p' where "qualified_loop m (sp @ [t]) x q3
      = Some (Inr (\<lparr>qi_space = (sp @ [t]) @ butlast (x # ns), qi_name = last (x # ns)\<rparr>, p'))" "at_symbol p' (skip_text u)"
    using Cons.IH [OF fresh_coherent [OF q3(2)] _ _ x(2) Cons.prems(5,6), of m "sp @ [t]" x] q3(2) len Cons.prems(2) m
    by (auto simp: fresh_def)
  with q(1) q2(1) q3(1) show ?case
    by (simp add: m)
qed

lemma print_qualified_identifier_alt:
  "print_qualified_identifier \<lparr>qi_space = butlast (t # ns), qi_name = last (t # ns)\<rparr>
     = t @ concat (map (\<lambda>x. CHR ''.'' # x) ns)"
  by (induction ns arbitrary: t) (auto simp: print_qualified_identifier_def)

lemma skip_text_qualified:
  assumes "wf_qualified q" and "ends_name u"
  shows "skip_text (print_qualified_identifier q @ u) = print_qualified_identifier q @ u"
proof (cases "qi_space q")
  case Nil
  then show ?thesis
    using ident_text(2) [OF _ assms(2)] assms(1) by (simp add: print_qualified_identifier_def wf_qualified_def)
next
  case (Cons x xs)
  then show ?thesis
    using ident_text(2) [OF _ sign_text(3) [OF sign_of_signs(2)], of x] assms(1)
    by (simp add: print_qualified_identifier_def wf_qualified_def)
qed

lemma qualified_read:
  assumes "coherent p" and "length (unread rest p) < n"
    and "skip_text (unread rest p) = skip_text (print_qualified_identifier q @ u)"
    and "wf_qualified q" and "ends_name u" and "symbol_of (skip_text u) \<noteq> S_namespace_sep"
  shows "\<exists>p'. parse_qualified_identifier n p = Some (Inr (q, p')) \<and> at_symbol p' (skip_text u)"
proof -
  obtain t ns where ns: "qi_space q @ [qi_name q] = t # ns"
    by (cases "qi_space q @ [qi_name q]") auto
  then have q: "q = \<lparr>qi_space = butlast (t # ns), qi_name = last (t # ns)\<rparr>"
    by (simp flip: ns)
  have wf: "wf_ident t" "list_all wf_ident ns"
    using assms(4) arg_cong [OF ns, of "list_all wf_ident"] by (auto simp: wf_qualified_def)
  let ?r = "concat (map (\<lambda>x. CHR ''.'' # x) ns) @ u"
  have ends: "ends_name ?r"
    using assms(5) sign_text(3) [OF sign_of_signs(2)] by (cases ns) auto
  have pq: "print_qualified_identifier q = t @ concat (map (\<lambda>x. CHR ''.'' # x) ns)"
    unfolding q by (rule print_qualified_identifier_alt)
  have tx: "skip_text (unread rest p) = t @ ?r"
    using assms(3) ident_text(2) [OF wf(1) ends] by (simp add: pq)
  obtain p1 where p1: "parse_identifier n p = Some (Inr (t, p1))" "fresh p1 ?r"
    using identifier_read [OF assms(1,2) tx wf(1) ends] by blast
  have "length (unread rest p1) < n"
    using p1(2) assms(2) tx length_skip_text [of "unread rest p"] by (simp add: fresh_def)
  then show ?thesis
    using qualified_loop_read [OF fresh_coherent [OF p1(2)] _ _ wf(2) assms(5,6), of n "[]" t] p1
    by (auto simp: parse_qualified_identifier_def q fresh_def)
qed

text \<open>Types, with the size of an array in brackets.\<close>

lemma array_type_length:
  assumes "length (unread rest p) < n" and "wf_qualified q" and "ends_name a"
    and "skip_text (unread rest p) = skip_text (print_qualified_identifier q @ a)"
  shows "length a < n"
proof -
  obtain v where "skip_text (unread rest p) = v @ a"
    using assms(2-4) skip_text_qualified by simp
  then show ?thesis
    using assms(1) length_skip_text [of "unread rest p"] by simp
qed

lemma array_type_read:
  assumes "coherent p" and "length (unread rest p) < n"
    and "skip_text (unread rest p) = skip_text (print_type t @ u)" and "wf_type t" and "ty_is_array t"
  shows "\<exists>p'. parse_type n p = Some (Inr (t, p')) \<and> fresh p' u"
proof -
  obtain i where i: "ty_array_size t = Some i" "\<bar>i\<bar> \<le> int64_max"
    using assms(4,5) by (auto simp: wf_type_def split: option.split_asm)
  let ?b = "CHR '']'' # u" and ?a = "CHR ''['' # show_int i @ CHR '']'' # u"
  have pt: "print_type t @ u = print_qualified_identifier (ty_identifier t) @ ?a"
    using assms(5) i(1) by (simp add: print_type_def)
  have t: "t = \<lparr>ty_identifier = ty_identifier t, ty_is_array = True, ty_array_size = Some i\<rparr>"
    using assms(5) i(1) by simp
  note open_b = sign_text [OF sign_of_signs(3)] and close_b = sign_text [OF sign_of_signs(4)]
  obtain q where q: "parse_qualified_identifier n p = Some (Inr (ty_identifier t, q))" "at_symbol q ?a"
    using qualified_read [OF assms(1,2), of "ty_identifier t" ?a] assms(3,4) open_b pt
    by (auto simp: wf_type_def)
  have len: "length ?a < n"
    using array_type_length [OF assms(2), of "ty_identifier t" ?a] open_b(3) assms(3,4) pt by (simp add: wf_type_def)
  obtain q1 where q1: "parse_symbol n S_bracket_open q = Some (Inr ((), q1))" "fresh q1 (show_int i @ ?b)"
    using sign_read [OF at_symbol_coherent [OF q(2)] _ _ sign_of_signs(3), of n] q(2) len
    by (auto simp: at_symbol_def)
  have b: "is_digit (char_at ?b 0) = False" "char_at ?b 0 \<noteq> CHR ''.''"
    by (simp_all add: is_digit_def)
  obtain q2 where q2: "parse_integer n q1 = Some (Inr (i, q2))" "fresh q2 ?b"
    using integer_read [OF fresh_coherent [OF q1(2)] _ _ b i(2), of n] q1(2) len integer_text(2) [OF b, of i]
    by (auto simp: fresh_def)
  obtain q3 where q3: "parse_symbol n S_bracket_close q2 = Some (Inr ((), q3))" "fresh q3 u"
    using sign_read [OF fresh_coherent [OF q2(2)] _ _ sign_of_signs(4), of n u] q2(2) len close_b(2)
    by (auto simp: fresh_def)
  show ?thesis
    unfolding parse_type_def
    using q(1) at_symbol_peek [OF q(2)] open_b(1) q1(1) q2(1) q3 t by auto
qed

lemma type_read:
  assumes "coherent p" and "length (unread rest p) < n"
    and "skip_text (unread rest p) = skip_text (print_type t @ u)" and "wf_type t"
    and "ends_name u" and "symbol_of (skip_text u) \<notin> {S_namespace_sep, S_bracket_open}"
  shows "\<exists>p'. parse_type n p = Some (Inr (t, p')) \<and> coherent p' \<and> skip_text (unread rest p') = skip_text u"
proof (cases "ty_is_array t")
  case False
  then have "print_type t = print_qualified_identifier (ty_identifier t)"
    by (simp add: print_type_def)
  moreover have "t = \<lparr>ty_identifier = ty_identifier t, ty_is_array = False, ty_array_size = None\<rparr>"
    using False assms(4) by (simp add: wf_type_def)
  moreover obtain q where q: "parse_qualified_identifier n p = Some (Inr (ty_identifier t, q))" "at_symbol q (skip_text u)"
    using qualified_read [OF assms(1,2), of "ty_identifier t" u] assms(3-6) calculation(1)
    by (auto simp: wf_type_def)
  ultimately show ?thesis
    using assms(6) at_symbol_coherent [OF q(2)]
    by (auto simp: parse_type_def at_symbol_peek [OF q(2)] at_symbol_def)
next
  case True
  then obtain p' where "parse_type n p = Some (Inr (t, p'))" "fresh p' u"
    using array_type_read [OF assms(1-4)] by blast
  then show ?thesis
    using fresh_coherent [of p' u] by (auto simp: fresh_def)
qed

section \<open>Documents read back\<close>

lemma keyword_read:
  assumes "coherent p" and "length (unread rest p) < n" and "skip_text (unread rest p) = skip_text (w @ CHR '' '' # u)"
    and "list_all is_letter w" and "w \<noteq> []" and "keyword_of w = y" and "symbol_length y = Some (length w)"
  shows "peek_symbol n p = Some (Inr (y, q)) \<Longrightarrow> at_symbol q (w @ CHR '' '' # u)"
    and "\<exists>q. peek_symbol n p = Some (Inr (y, q)) \<and> at_symbol q (w @ CHR '' '' # u)"
    and "\<exists>p'. parse_symbol n y p = Some (Inr ((), p')) \<and> fresh p' (CHR '' '' # u)"
proof -
  obtain c s where w: "w = c # s" "is_letter c" "list_all is_ident_char s"
    using assms(4,5) by (cases w) (auto simp: is_ident_char_def list_all_iff)
  have "ends_name (CHR '' '' # u)"
    by (simp add: ends_name_def is_ident_char_def is_letter_def is_digit_def)
  note t = symbol_of_word [OF w(2,3) this]
  have tx: "skip_text (unread rest p) = w @ CHR '' '' # u" "symbol_of (w @ CHR '' '' # u) = y"
    using assms(3,6) t w(1) by simp_all
  show "\<exists>q. peek_symbol n p = Some (Inr (y, q)) \<and> at_symbol q (w @ CHR '' '' # u)"
    using peek_symbol_text [OF assms(1,2)] tx by auto
  then show "peek_symbol n p = Some (Inr (y, q)) \<Longrightarrow> at_symbol q (w @ CHR '' '' # u)"
    by auto
  show "\<exists>p'. parse_symbol n y p = Some (Inr ((), p')) \<and> fresh p' (CHR '' '' # u)"
    using parse_symbol_ok [OF assms(1,2), of y "length w"] tx assms(7) by simp
qed

lemma include_read:
  assumes "coherent p" and "length (unread rest p) < n" and "skip_text (unread rest p) = skip_text (print_include i @ u)"
    and "literal (CHR 0x27) (in_path i @ CHR 0x27 # u) = Some (r, v)"
  shows "\<exists>i' p'. parse_include n p = Some (Inr (i', p')) \<and> in_path i' = r \<and> fresh p' v"
proof -
  let ?s = "in_path i @ CHR 0x27 # u"
  have "skip_text (unread rest p) = skip_text (''INCLUDE'' @ CHR '' '' # CHR 0x27 # ?s)"
    using assms(3) by (simp add: print_include_def)
  then obtain q where q: "parse_symbol n S_include_kw p = Some (Inr ((), q))" "fresh q (CHR '' '' # CHR 0x27 # ?s)"
    using keyword_read(3) [OF assms(1,2), of "''INCLUDE''"] by (auto simp: is_letter_def keyword_of_def)
  have "length (unread rest q) < n"
    using q(2) assms(2,3) length_skip_text [of "unread rest p"]
    by (simp add: fresh_def print_include_def is_blank_def)
  then obtain p' where "parse_string n q = Some (Inr (r, p'))" "fresh p' v"
    using parse_string_ok [OF fresh_coherent [OF q(2)] _ _ quote_text(1) assms(4), of n] q(2) quote_text(2)
    by (auto simp: fresh_def)
  with q(1) show ?thesis
    by (simp add: parse_include_def current_position_def)
qed

text \<open>One turn of the loop over the includes.\<close>

lemma includes_step:
  assumes "coherent p" and "length (unread rest p) < n" and "skip_text (unread rest p) = skip_text (print_include i @ u)"
    and "literal (CHR 0x27) (in_path i @ CHR 0x27 # u) = Some (r, v)"
  shows "\<exists>i' m q. includes_loop n acc p = includes_loop m (acc @ [i']) q \<and> in_path i' = r \<and> fresh q v \<and> length (unread rest q) < m"
proof -
  obtain m where m: "n = Suc m"
    using assms(2) by (cases n) auto
  let ?t = "''INCLUDE'' @ CHR '' '' # CHR 0x27 # in_path i @ CHR 0x27 # u"
  have pi: "print_include i @ u = ?t"
    by (simp add: print_include_def)
  obtain q where q: "peek_symbol n p = Some (Inr (S_include_kw, q))" "at_symbol q ?t"
    using keyword_read(2) [OF assms(1,2) assms(3) [unfolded pi]] by (auto simp: is_letter_def keyword_of_def)
  have len: "length ?t < n"
    using assms(2,3) length_skip_text [of "unread rest p"] pi by (simp add: is_blank_def)
  have "skip_text (unread rest q) = skip_text (print_include i @ u)" "length (unread rest q) < n"
    using q(2) pi len by (simp_all add: at_symbol_def)
  then obtain i' q1 where q1: "parse_include n q = Some (Inr (i', q1))" "in_path i' = r" "fresh q1 v"
    using include_read [OF at_symbol_coherent [OF q(2)] _ _ assms(4)] by blast
  have "length (unread rest q1) < m"
    using q1(3) len m literal_shorter [OF assms(4)] by (simp add: fresh_def)
  then show ?thesis
    using q(1) q1 m by (intro exI [of _ i'] exI [of _ m] exI [of _ q1]) simp
qed

lemma includes_read:
  assumes "coherent p" and "length (unread rest p) < n"
    and "skip_text (unread rest p) = skip_text (concat (map (\<lambda>i. print_include i @ newline) is) @ u)"
    and "list_all (\<lambda>i. plain_path (in_path i)) is" and "symbol_of (skip_text u) \<noteq> S_include_kw"
  shows "\<exists>is' p'. includes_loop n acc p = Some (Inr (acc @ is', p')) \<and> map in_path is' = map in_path is
    \<and> at_symbol p' (skip_text u)"
  using assms
proof (induction "is" arbitrary: p n acc)
  case Nil
  then obtain m where m: "n = Suc m"
    by (cases n) auto
  then show ?case
    using peek_symbol_text [OF Nil.prems(1,2)] Nil.prems(3,5) by auto
next
  case (Cons i "is")
  let ?r = "concat (map (\<lambda>i. print_include i @ newline) is) @ u"
  have lit: "literal (CHR 0x27) (in_path i @ CHR 0x27 # newline @ ?r) = Some (in_path i, newline @ ?r)"
    using Cons.prems(4) by (intro literal_plain) (simp_all add: plain_path_def)
  obtain i' m q where q: "includes_loop n acc p = includes_loop m (acc @ [i']) q" "in_path i' = in_path i"
      "fresh q (newline @ ?r)" "length (unread rest q) < m"
    using includes_step [OF Cons.prems(1,2) _ lit, of acc] Cons.prems(3) by auto
  then obtain is' p' where "includes_loop m (acc @ [i']) q = Some (Inr ((acc @ [i']) @ is', p'))"
      "map in_path is' = map in_path is" "at_symbol p' (skip_text u)"
    using Cons.IH [OF fresh_coherent [OF q(3)] q(4), of "acc @ [i']"] Cons.prems(4,5) skip_newline
    by (auto simp: fresh_def)
  then show ?case
    using q(1,2) by auto
qed

text \<open>A path with an apostrophe is cut there when it is read back.\<close>

lemma includes_loop_extends: "includes_loop n acc p = Some (Inr (res, q)) \<Longrightarrow> \<exists>xs. res = acc @ xs"
proof (induction n arbitrary: acc p)
  case (Suc n)
  then show ?case
    by (fastforce simp: pbind_def split: option.split_asm sum.split_asm if_split_asm)
qed simp

lemma decls_loop_includes: "decls_loop n node p = Some (Inr (t, q)) \<Longrightarrow> rt_includes t = rt_includes node"
proof (induction n arbitrary: node p)
  case (Suc n)
  then show ?case
    by (fastforce simp: pbind_def unexpected_in_def throw_at_def current_position_def
        split: option.split_asm sum.split_asm Symbol.split_asm)
qed simp

lemma includes_cut:
  assumes "coherent p" and "length (unread rest p) < n"
    and "skip_text (unread rest p) = skip_text (concat (map (\<lambda>i. print_include i @ newline) is) @ u)"
    and "\<forall>i \<in> set is. CHR 0x5C \<notin> set (in_path i)" and "\<exists>i \<in> set is. CHR 0x27 \<in> set (in_path i)"
    and "includes_loop n acc p = Some (Inr (acc @ is', p'))"
  shows "map in_path is' \<noteq> map in_path is"
  using assms
proof (induction "is" arbitrary: p n acc is')
  case (Cons i "is")
  let ?r = "newline @ concat (map (\<lambda>i. print_include i @ newline) is) @ u"
  show ?case
  proof (cases "CHR 0x27 \<in> set (in_path i)")
    case True
    then obtain a b where ab: "in_path i = a @ CHR 0x27 # b" "CHR 0x27 \<notin> set a"
      by (meson split_list_first)
    then have "literal (CHR 0x27) (in_path i @ CHR 0x27 # ?r) = Some (a, b @ CHR 0x27 # ?r)"
      using Cons.prems(4) literal_plain [of "CHR 0x27" a "b @ CHR 0x27 # ?r"] by simp
    from includes_step [OF Cons.prems(1,2) _ this, of acc] Cons.prems(3)
    obtain i' m q where q: "includes_loop n acc p = includes_loop m (acc @ [i']) q" "in_path i' = a"
      by auto
    then obtain xs where "is' = i' # xs"
      using includes_loop_extends [of m "acc @ [i']" q "acc @ is'" p'] Cons.prems(6) by auto
    then show ?thesis
      using q(2) ab(1) by simp
  next
    case False
    then have lit: "literal (CHR 0x27) (in_path i @ CHR 0x27 # ?r) = Some (in_path i, ?r)"
      using Cons.prems(4) by (intro literal_plain) simp_all
    obtain i' m q where q: "includes_loop n acc p = includes_loop m (acc @ [i']) q" "in_path i' = in_path i"
        "fresh q ?r" "length (unread rest q) < m"
      using includes_step [OF Cons.prems(1,2) _ lit, of acc] Cons.prems(3) by auto
    then obtain xs where xs: "is' = i' # xs"
      using includes_loop_extends [of m "acc @ [i']" q "acc @ is'" p'] Cons.prems(6) by auto
    have "map in_path xs \<noteq> map in_path is"
      using Cons.IH [OF fresh_coherent [OF q(3)] q(4), of "acc @ [i']" xs] q(1,3) Cons.prems(4-6) False skip_newline
      by (auto simp: fresh_def xs)
    then show ?thesis
      by (simp add: xs)
  qed
qed simp

lemma namespace_read:
  assumes "coherent p" and "length (unread rest p) < n"
    and "if qi_name sp = [] then qi_space sp = [] else wf_qualified sp"
    and "skip_text (unread rest p) = skip_text (print_space sp @ print_structs ds)"
  shows "\<exists>p'. parse_namespace n p = Some (Inr (sp, p')) \<and> at_symbol p' (skip_text (print_structs ds))"
proof (cases "qi_name sp = []")
  let ?D = "print_structs ds"
  case True
  then have "sp = \<lparr>qi_space = [], qi_name = []\<rparr>"
    using assms(3) by simp
  moreover obtain q where "peek_symbol n p = Some (Inr (symbol_of (skip_text ?D), q))" "at_symbol q (skip_text ?D)"
    using peek_symbol_text [OF assms(1,2)] assms(4) True by (auto simp: print_space_def)
  ultimately show ?thesis
    by (auto simp: parse_namespace_def print_structs_symbol)
next
  let ?D = "print_structs ds"
  case False
  let ?u = "print_qualified_identifier sp @ newline @ ?D"
  have wf: "wf_qualified sp"
    using False assms(3) by simp
  have skip: "skip_text (unread rest p) = skip_text (''NAMESPACE'' @ CHR '' '' # ?u)"
    using assms(4) False by (simp add: print_space_def)
  obtain q where q: "peek_symbol n p = Some (Inr (S_namespace_kw, q))" "at_symbol q (''NAMESPACE'' @ CHR '' '' # ?u)"
    using keyword_read(2) [OF assms(1,2) skip] by (auto simp: is_letter_def keyword_of_def)
  have len: "length (''NAMESPACE'' @ CHR '' '' # ?u) < n"
    using assms(2) length_skip_text [of "unread rest p"] skip by (simp add: is_blank_def)
  have "skip_text (unread rest q) = skip_text (''NAMESPACE'' @ CHR '' '' # ?u)" "length (unread rest q) < n"
    using q(2) len by (simp_all add: at_symbol_def)
  then obtain q1 where q1: "parse_symbol n S_namespace_kw q = Some (Inr ((), q1))" "fresh q1 (CHR '' '' # ?u)"
    using keyword_read(3) [OF at_symbol_coherent [OF q(2)], of n "''NAMESPACE''" ?u]
    by (auto simp: is_letter_def keyword_of_def)
  have "ends_name (newline @ ?D)" "symbol_of (skip_text (newline @ ?D)) \<noteq> S_namespace_sep"
    by (simp_all add: skip_newline print_structs_symbol,
        simp add: newline_def ends_name_def is_ident_char_def is_letter_def is_digit_def)
  moreover have "skip_text (unread rest q1) = skip_text ?u" "length (unread rest q1) < n"
    using q1(2) len by (simp_all add: fresh_def is_blank_def)
  ultimately obtain p' where "parse_qualified_identifier n q1 = Some (Inr (sp, p'))" "at_symbol p' (skip_text ?D)"
    using qualified_read [OF fresh_coherent [OF q1(2)] _ _ wf, of n "newline @ ?D"] skip_newline by auto
  then show ?thesis
    using q(1) q1(1) by (simp add: parse_namespace_def)
qed

lemma document_read:
  assumes "coherent p" and "length (unread rest p) < n" and "unread rest p = print_root r" and "wf_root r"
  shows "if rt_struct_decls r = []
    then \<exists>t p'. parse_document n p = Some (Inr (t, p'))
           \<and> map in_path (rt_includes t) = map in_path (rt_includes r) \<and> rt_space t = rt_space r
           \<and> rt_struct_decls t = [] \<and> rt_map_decls t = [] \<and> rt_enco_decls t = []
    else \<exists>d. parse_document n p = Some (Inl (ParseException d ''Unexpected symbol identifier in document''))"
proof -
  let ?D = "print_structs (rt_struct_decls r)"
  let ?N = "print_space (rt_space r) @ ?D"
  have inc: "list_all (\<lambda>i. plain_path (in_path i)) (rt_includes r)"
    and sp: "if qi_name (rt_space r) = [] then qi_space (rt_space r) = [] else wf_qualified (rt_space r)"
    using assms(4) by (simp_all add: wf_root_def)
  obtain is' q where q: "includes_loop n [] p = Some (Inr (is', q))" "map in_path is' = map in_path (rt_includes r)"
      "at_symbol q (skip_text ?N)"
    using includes_read [OF assms(1,2) _ inc print_space_symbol, of "rt_space r" "rt_struct_decls r" "[]"] assms(3)
    by (auto simp: print_root_parts)
  have "length (unread rest q) < n"
    using q(3) assms(2,3) length_skip_text [of ?N] by (simp add: at_symbol_def print_root_parts)
  then obtain q1 where q1: "parse_namespace n q = Some (Inr (rt_space r, q1))" "at_symbol q1 (skip_text ?D)"
    using namespace_read [OF at_symbol_coherent [OF q(3)] _ sp, of n "rt_struct_decls r"] q(3)
    by (auto simp: at_symbol_def)
  obtain m where m: "n = Suc m"
    using assms(2) by (cases n) auto
  have "parse_document n p = decls_loop n \<lparr>rt_origin = ps_pos p, rt_includes = is', rt_space = rt_space r,
        rt_struct_decls = [], rt_map_decls = [], rt_enco_decls = []\<rparr> q1"
    using q(1) q1(1) by (simp add: parse_document_def current_position_def)
  then show ?thesis
    using at_symbol_peek [OF q1(2), of n] q(2) unexpected_in_text [OF q1(2), of n "''document''"]
    by (auto simp: m print_structs_symbol)
qed

lemma document_cut:
  assumes "coherent p" and "length (unread rest p) < n" and "unread rest p = print_root r"
    and "\<forall>i \<in> set (rt_includes r). CHR 0x5C \<notin> set (in_path i)" and "\<exists>i \<in> set (rt_includes r). CHR 0x27 \<in> set (in_path i)"
    and "parse_document n p = Some (Inr (t, p'))"
  shows "map in_path (rt_includes t) \<noteq> map in_path (rt_includes r)"
proof -
  obtain res q where res: "includes_loop n [] p = Some (Inr (res, q))" "rt_includes t = res"
    using assms(6) by (auto simp: parse_document_def current_position_def pbind_def split: option.split_asm sum.split_asm
        dest!: decls_loop_includes)
  then show ?thesis
    using includes_cut [OF assms(1,2) _ assms(4,5), of _ "[]" res q] assms(3) by (auto simp: print_root_parts)
qed

end

end
