(* ===== verification/HappyProps.thy ===== *)
theory HappyProps
  imports HappySegmentation HappyRoundtrip
begin

text \<open>
  Correctness of the happy parser on standard input: the contract of readers holds of the reader
  of the program, the parse depends on the text only, the parser returns on every text without
  string literals and cannot return on an unterminated one, integers have their decimal value or
  overflow, and the printer's output is read back except for structures.
\<close>

section \<open>Readers that keep the contract\<close>

interpretation stdin: stream_reader StdinReader_read fi_bytes "\<lambda>f. fi_error f = None"
  by unfold_locales (auto simp: StdinReader_read_def)

text \<open>A reader that delivers one character per call, such as a terminal in raw mode.\<close>

definition char_read :: "string \<Rightarrow> nat \<Rightarrow> parse_exn + (string \<times> string)" where
  "char_read s n = Inr (take (min 1 n) s, drop (min 1 n) s)"

interpretation single: stream_reader char_read id "\<lambda>s. True"
  by unfold_locales (auto simp: char_read_def)

interpretation stdin_single: two_readers StdinReader_read fi_bytes "\<lambda>f. fi_error f = None" char_read id "\<lambda>s. True"
  by unfold_locales

text \<open>
  C6. The sizes of the reads do not matter. For any reader that keeps the contract of
  \<open>StreamReader::read\<close> (it delivers its text in order, in pieces of at most the requested length,
  and an empty piece only at the end), the result of \<open>Parser::parse\<close> is the result on standard
  input with the same text: the same tree with the same positions, or the same exception.
\<close>

theorem parse_read_sizes:
  assumes "stream_reader rd rest good" and "good r" and "rest r = fi_bytes f" and "fi_error f = None"
  shows "parse n file \<lparr>sr_state = r, sr_read = rd\<rparr> = parse n file (StdinReader f)"
proof -
  have "two_readers rd rest good StdinReader_read fi_bytes (\<lambda>f. fi_error f = None)"
    using assms(1) stdin.stream_reader_axioms by (rule two_readers.intro)
  from two_readers.parse_same [OF this assms(2,4,3)] show ?thesis
    by (simp add: StdinReader_def)
qed

theorem parse_read_sizes_witness:
  "parse 30 ''f'' \<lparr>sr_state = ''STRUCT A { b : C.D [ 3 ] }'', sr_read = char_read\<rparr>
     = parse 30 ''f'' (StdinReader \<lparr>fi_bytes = ''STRUCT A { b : C.D [ 3 ] }'', fi_error = None\<rparr>)"
  by (rule parse_read_sizes [OF single.stream_reader_axioms]) simp_all

text \<open>
  C10. How the parser ends. A result does not change with more fuel. With two units of fuel
  more than the text has characters the parse is decided: still more fuel gives the same, so a parse
  without a result there never returns. And it does return, with a tree or an exception, on every
  text without quotation marks: no loop of the lexer or of the grammar runs forever.
\<close>

theorem parse_decided:
  assumes "fi_error f = None" and "length (fi_bytes f) + 2 \<le> n"
  shows "parse n file (StdinReader f) = parse (length (fi_bytes f) + 2) file (StdinReader f)
    \<and> (\<forall>m. parse m file (StdinReader f) \<noteq> None \<longrightarrow>
         parse m file (StdinReader f) = parse n file (StdinReader f))
    \<and> (\<not> quoted (fi_bytes f) \<longrightarrow> parse n file (StdinReader f) \<noteq> None)"
proof (intro conjI allI impI)
  note settled = stdin.parse_settled [OF assms(1), of _ _ "StdinReader f", OF _ _ StdinReader_def]
  show "parse n file (StdinReader f) = parse (length (fi_bytes f) + 2) file (StdinReader f)"
    by (rule settled(1)) (use assms(2) in auto)
  show "parse n file (StdinReader f) \<noteq> None" if "\<not> quoted (fi_bytes f)"
    by (rule settled(2) [of n n]) (use assms(2) that in auto)
  show "parse m file (StdinReader f) = parse n file (StdinReader f)"
    if m: "parse m file (StdinReader f) \<noteq> None" for m
  proof (cases "m \<le> n")
    case True
    then show ?thesis
      using parse_more_fuel [OF True m] by simp
  next
    case False
    then show ?thesis
      by (intro settled(1)) (use assms(2) in auto)
  qed
qed

theorem parse_decided_witness:
  "parse 100 ''f'' (StdinReader \<lparr>fi_bytes = ''STRUCT A { b : C.D [ 3 ] }'', fi_error = None\<rparr>) \<noteq> None"
  by (rule parse_decided [THEN conjunct2, THEN conjunct2, THEN mp]) (simp_all add: quoted_def)

section \<open>Tokens at the start of a text\<close>

lemma start_coherent:
  "stdin.coherent (new_Parser file (StdinReader \<lparr>fi_bytes = t, fi_error = None\<rparr>))"
  "unread fi_bytes (new_Parser file (StdinReader \<lparr>fi_bytes = t, fi_error = None\<rparr>)) = t"
  by (simp_all add: stdin.coherent_def stdin.ok_def unread_def buffered_def new_Parser_def StdinReader_def)

text \<open>
  C22. String literals. On a text that begins with a quotation mark, after blanks and comments,
  \<open>parse_string\<close> returns the contents of the literal with its escapes replaced when the literal is
  closed, and leaves the text after it unread. When the literal is not closed it never returns,
  whatever its fuel: the loop has no test for the end of the text.
\<close>

theorem parse_string_literals:
  assumes "skip_text t = d # s" and "d = CHR 0x27 \<or> d = CHR 0x22"
    and "p = new_Parser file (StdinReader \<lparr>fi_bytes = t, fi_error = None\<rparr>)"
  shows "(case literal d s of
      Some (r, u) \<Rightarrow> \<forall>n > length t. \<exists>p'. parse_string n p = Some (Inr (r, p')) \<and> unread fi_bytes p' = u
    | None \<Rightarrow> \<forall>n. parse_string n p = None)"
proof -
  have str: "symbol_of (d # s) = S_string"
    using assms(2) by (elim disjE) (simp_all add: NUL_def is_digit_def sign_of_def)
  have p: "stdin.coherent p" "unread fi_bytes p = t"
    by (simp_all add: assms(3) start_coherent)
  then have t: "skip_text (unread fi_bytes p) = d # s"
    using assms(1) by simp
  show ?thesis
  proof (cases "literal d s")
    case None
    have "parse_string n p = None" for n
    proof (cases "length t < n")
      case True
      then show ?thesis
        using stdin.parse_string_diverges [OF p(1) _ t str None] p(2) by simp
    next
      case False
      then have "below (parse_string n) (parse_string (length t + 1) :: (stdin_file Parser, AstString) parse)"
        by (intro parse_string_below) simp
      moreover have "parse_string (length t + 1) p = None"
        using stdin.parse_string_diverges [OF p(1) _ t str None] p(2) by simp
      ultimately show ?thesis
        using below_D [of "parse_string n" "parse_string (length t + 1)" p] by fastforce
    qed
    with None show ?thesis
      by simp
  next
    case (Some ru)
    obtain r u where ru: "literal d s = Some (r, u)"
      using Some by (cases ru) simp
    have "\<exists>p'. parse_string n p = Some (Inr (r, p')) \<and> unread fi_bytes p' = u" if "length t < n" for n
      using stdin.parse_string_ok [OF p(1) _ t str ru, of n] p(2) that unfolding stdin.fresh_def by auto
    with ru show ?thesis
      by simp
  qed
qed

theorem parse_string_literals_witness:
  "(\<forall>n. parse_string n (new_Parser ''f'' (StdinReader \<lparr>fi_bytes = '' \"abc'', fi_error = None\<rparr>)) = None)
   \<and> (\<exists>p'. parse_string 9 (new_Parser ''f'' (StdinReader \<lparr>fi_bytes = ''\"a'' @ [CHR 0x5C] @ ''t\";'', fi_error = None\<rparr>))
       = Some (Inr ([CHR ''a'', CHR 0x09], p')) \<and> unread fi_bytes p' = '';'')"
proof
  show "\<forall>n. parse_string n (new_Parser ''f'' (StdinReader \<lparr>fi_bytes = '' \"abc'', fi_error = None\<rparr>)) = None"
    using parse_string_literals [OF _ _ refl, of "'' \"abc''" "CHR 0x22" "''abc''" "''f''"]
    by (simp add: is_blank_def)
  show "\<exists>p'. parse_string 9 (new_Parser ''f'' (StdinReader \<lparr>fi_bytes = ''\"a'' @ [CHR 0x5C] @ ''t\";'', fi_error = None\<rparr>))
       = Some (Inr ([CHR ''a'', CHR 0x09], p')) \<and> unread fi_bytes p' = '';''"
    using parse_string_literals [OF _ _ refl, of "''\"a'' @ [CHR 0x5C] @ ''t\";''" "CHR 0x22" "''a'' @ [CHR 0x5C] @ ''t\";''" "''f''"]
    by (simp add: is_blank_def escape_char_def)
qed

lemma signed_text:
  assumes "sign \<in> {[], ''-'', ''+''}" and "list_all is_digit ds" and "sign \<noteq> [] \<or> ds \<noteq> []"
    and "dropWhile is_digit (ds @ u) = u" and "char_at u 0 \<noteq> CHR ''.''"
  shows "skip_text (sign @ ds @ u) = sign @ ds @ u \<and> symbol_of (sign @ ds @ u) = S_integer
    \<and> drop (if char_at (sign @ ds @ u) 0 = CHR ''-'' \<or> char_at (sign @ ds @ u) 0 = CHR ''+'' then 1 else 0) (sign @ ds @ u)
      = ds @ u
    \<and> (char_at (sign @ ds @ u) 0 = CHR ''-'' \<longleftrightarrow> sign = ''-'')"
proof (cases "sign = []")
  case False
  then have "sign = ''-'' \<or> sign = ''+''"
    using assms(1) by simp
  then show ?thesis
    using assms(4,5) by (elim disjE) (simp_all add: is_blank_def NUL_def)
next
  case True
  then obtain c s where ds: "ds = c # s" "is_digit c"
    using assms(2,3) by (cases ds) auto
  have "\<not> is_digit (CHR ''-'')" "\<not> is_digit (CHR ''+'')" "\<not> is_digit (CHR ''#'')" "\<not> is_digit NUL"
    "\<not> is_digit (CHR '' '')" "\<not> is_digit (CHR 0x09)" "\<not> is_digit (CHR 0x0A)" "\<not> is_digit (CHR 0x0D)"
    by (simp_all add: is_digit_def NUL_def)
  then have c: "c \<noteq> CHR ''-''" "c \<noteq> CHR ''+''" "c \<noteq> NUL" "c \<noteq> CHR ''#''" "\<not> is_blank c"
    using ds(2) unfolding is_blank_def by blast+
  then show ?thesis
    using True ds assms(4,5) by simp
qed

text \<open>
  C23. Integers. On a decimal integer with an optional sign, \<open>parse_integer\<close> returns its value and
  leaves the text after it unread, as long as the digits denote at most the largest 64-bit signed
  integer; beyond that the accumulation overflows, which is undefined. The smallest 64-bit integer
  overflows as well, since its digits are accumulated before the sign is applied, and a sign without
  digits is read as zero.
\<close>

theorem parse_integer_values:
  assumes "sign \<in> {[], ''-'', ''+''}" and "list_all is_digit ds" and "sign \<noteq> [] \<or> ds \<noteq> []"
    and "\<not> is_digit (char_at u 0)" and "char_at u 0 \<noteq> CHR ''.''" and "length (sign @ ds @ u) < n"
    and "p = new_Parser file (StdinReader \<lparr>fi_bytes = sign @ ds @ u, fi_error = None\<rparr>)"
  shows "if decimal ds \<le> int64_max
    then \<exists>p'. parse_integer n p = Some (Inr (if sign = ''-'' then - decimal ds else decimal ds, p'))
           \<and> unread fi_bytes p' = u
    else parse_integer n p = Some (Inl SignedOverflow)"
proof -
  let ?t = "sign @ ds @ u"
  define k :: nat where "k = (if char_at ?t 0 = CHR ''-'' \<or> char_at ?t 0 = CHR ''+'' then 1 else 0)"
  have p: "stdin.coherent p" "unread fi_bytes p = ?t" "length (unread fi_bytes p) < n"
    using assms(6) by (simp_all add: assms(7) start_coherent)
  have dw: "dropWhile is_digit (ds @ u) = u" "takeWhile is_digit (ds @ u) = ds"
    using assms(2,4) by (cases u; simp add: list_all_iff)+
  have facts: "skip_text ?t = ?t" "symbol_of ?t = S_integer" "drop k ?t = ds @ u" "char_at ?t 0 = CHR ''-'' \<longleftrightarrow> sign = ''-''"
    using signed_text [OF assms(1-3) dw(1) assms(5)] unfolding k_def by blast+
  show ?thesis
    using stdin.parse_integer_text [OF p(1,3), of ?t k "decimal ds"] facts dw p(2) k_def
    unfolding stdin.fresh_def by auto
qed

theorem parse_integer_values_witness:
  "parse_integer 30 (new_Parser ''f'' (StdinReader \<lparr>fi_bytes = ''-9223372036854775808 '', fi_error = None\<rparr>))
     = Some (Inl SignedOverflow)
   \<and> (\<exists>p'. parse_integer 9 (new_Parser ''f'' (StdinReader \<lparr>fi_bytes = ''-]'', fi_error = None\<rparr>))
       = Some (Inr (0, p')) \<and> unread fi_bytes p' = '']'')"
proof
  show "parse_integer 30 (new_Parser ''f'' (StdinReader \<lparr>fi_bytes = ''-9223372036854775808 '', fi_error = None\<rparr>))
     = Some (Inl SignedOverflow)"
    using parse_integer_values [OF _ _ _ _ _ _ refl, of "''-''" "''9223372036854775808''" "'' ''" 30 "''f''"]
    by (simp add: is_digit_def decimal_def digit_value_def int64_max_def)
  show "\<exists>p'. parse_integer 9 (new_Parser ''f'' (StdinReader \<lparr>fi_bytes = ''-]'', fi_error = None\<rparr>))
       = Some (Inr (0, p')) \<and> unread fi_bytes p' = '']''"
    using parse_integer_values [OF _ _ _ _ _ _ refl, of "''-''" "[]" "'']''" 9 "''f''"]
    by (simp add: is_digit_def decimal_def int64_max_def)
qed

section \<open>Printed text read back\<close>

text \<open>
  C25. Types. What the printer writes for a type, an array size included, is read back by
  \<open>parse_type\<close> as the same type, whatever follows it on the next line.
\<close>

theorem print_type_read_back:
  assumes "wf_type t" and "symbol_of (skip_text u) \<notin> {S_namespace_sep, S_bracket_open}"
    and "length (print_type t @ newline @ u) < n"
    and "p = new_Parser file (StdinReader \<lparr>fi_bytes = print_type t @ newline @ u, fi_error = None\<rparr>)"
  shows "\<exists>p'. parse_type n p = Some (Inr (t, p')) \<and> skip_text (unread fi_bytes p') = skip_text u"
proof -
  have p: "stdin.coherent p" "unread fi_bytes p = print_type t @ newline @ u" "length (unread fi_bytes p) < n"
    using assms(3) by (simp_all add: assms(4) start_coherent)
  have "ends_name (newline @ u)"
    by (simp add: ends_name_def newline_def is_ident_char_def is_letter_def is_digit_def)
  then show ?thesis
    using stdin.type_read [OF p(1,3) _ assms(1), of "newline @ u"] p(2) assms(2) skip_newline [of u] by auto
qed

theorem print_type_read_back_witness:
  "\<exists>p'. parse_type 40 (new_Parser ''f'' (StdinReader \<lparr>fi_bytes =
      print_type \<lparr>ty_identifier = \<lparr>qi_space = [''a''], qi_name = ''b1''\<rparr>, ty_is_array = True, ty_array_size = Some (- 12)\<rparr>
        @ newline @ '' x: int'', fi_error = None\<rparr>))
    = Some (Inr (\<lparr>ty_identifier = \<lparr>qi_space = [''a''], qi_name = ''b1''\<rparr>, ty_is_array = True, ty_array_size = Some (- 12)\<rparr>, p'))
    \<and> skip_text (unread fi_bytes p') = ''x: int''"
proof -
  let ?t = "\<lparr>ty_identifier = \<lparr>qi_space = [''a''], qi_name = ''b1''\<rparr>, ty_is_array = True, ty_array_size = Some (- 12)\<rparr>"
  have x: "skip_text '' x: int'' = ''x: int''" "symbol_of ''x: int'' = S_identifier"
    by (simp_all add: is_blank_def NUL_def is_digit_def sign_of_def is_letter_def is_ident_char_def keyword_of_def)
  have wf: "wf_type ?t"
    by (simp add: wf_type_def wf_qualified_def wf_ident_def is_letter_def is_digit_def is_ident_char_def keyword_of_def
        int64_max_def)
  have "length (print_type ?t) = 9"
    by (simp add: print_type_def print_qualified_identifier_def show_int_def show_nat.simps)
  then show ?thesis
    using print_type_read_back [OF wf _ _ refl, of "'' x: int''" 40 "''f''"] x by (simp add: newline_def)
qed

text \<open>
  C20. Documents. Take a tree with a well-formed namespace whose include paths contain no apostrophe and
  no backslash. If it declares no structure, what the printer writes for it is read back with the
  same includes and namespace and no declarations (mappings and encodings are not printed). With a
  structure it is refused: the printer writes \<open>DATA\<close> where the grammar has the keyword \<open>STRUCT\<close>. The
  condition on the paths is needed: the printer writes them between apostrophes without escapes, and
  a printed tree with an apostrophe in one of its include paths, though no backslash in any, is never
  read back with the same paths.
\<close>

theorem print_root_read_back:
  assumes "length (print_root r) < n"
  shows "(wf_root r \<longrightarrow> (if rt_struct_decls r = []
      then \<exists>t. parse n file (StdinReader \<lparr>fi_bytes = print_root r, fi_error = None\<rparr>) = Some (Inr t)
             \<and> map in_path (rt_includes t) = map in_path (rt_includes r) \<and> rt_space t = rt_space r
             \<and> rt_struct_decls t = [] \<and> rt_map_decls t = [] \<and> rt_enco_decls t = []
      else \<exists>d. parse n file (StdinReader \<lparr>fi_bytes = print_root r, fi_error = None\<rparr>)
             = Some (Inl (ParseException d ''Unexpected symbol identifier in document''))))
    \<and> ((\<forall>i \<in> set (rt_includes r). CHR 0x5C \<notin> set (in_path i)) \<and> (\<exists>i \<in> set (rt_includes r). CHR 0x27 \<in> set (in_path i)) \<longrightarrow>
        (\<forall>t. parse n file (StdinReader \<lparr>fi_bytes = print_root r, fi_error = None\<rparr>) = Some (Inr t)
           \<longrightarrow> map in_path (rt_includes t) \<noteq> map in_path (rt_includes r)))"
proof (intro conjI impI allI)
  let ?p = "new_Parser file (StdinReader \<lparr>fi_bytes = print_root r, fi_error = None\<rparr>)"
  have len: "length (unread fi_bytes ?p) < n"
    using assms by (simp add: start_coherent)
  show "if rt_struct_decls r = []
      then \<exists>t. parse n file (StdinReader \<lparr>fi_bytes = print_root r, fi_error = None\<rparr>) = Some (Inr t)
             \<and> map in_path (rt_includes t) = map in_path (rt_includes r) \<and> rt_space t = rt_space r
             \<and> rt_struct_decls t = [] \<and> rt_map_decls t = [] \<and> rt_enco_decls t = []
      else \<exists>d. parse n file (StdinReader \<lparr>fi_bytes = print_root r, fi_error = None\<rparr>)
             = Some (Inl (ParseException d ''Unexpected symbol identifier in document''))" if "wf_root r"
    using stdin.document_read [OF start_coherent(1) len start_coherent(2) that] by (auto simp: parse_def split: if_split_asm)
  fix t
  assume paths: "(\<forall>i \<in> set (rt_includes r). CHR 0x5C \<notin> set (in_path i)) \<and> (\<exists>i \<in> set (rt_includes r). CHR 0x27 \<in> set (in_path i))"
    and "parse n file (StdinReader \<lparr>fi_bytes = print_root r, fi_error = None\<rparr>) = Some (Inr t)"
  then obtain z where z: "parse_document n ?p = Some z" "map_sum id fst z = Inr t"
    unfolding parse_def by blast
  then obtain p' where "parse_document n ?p = Some (Inr (t, p'))"
    by (cases z) auto
  then show "map in_path (rt_includes t) \<noteq> map in_path (rt_includes r)"
    by (rule stdin.document_cut [OF start_coherent(1) len start_coherent(2) conjunct1 [OF paths] conjunct2 [OF paths]])
qed

text \<open>A document with a structure, and one with an apostrophe in its include path.\<close>

theorem print_root_read_back_witness:
  "(\<exists>d. parse 40 ''f'' (StdinReader \<lparr>fi_bytes = print_root
      \<lparr>rt_origin = \<lparr>dp_file = ''f'', dp_line = 1, dp_column = 0\<rparr>, rt_includes = [],
       rt_space = \<lparr>qi_space = [], qi_name = ''foo''\<rparr>,
       rt_struct_decls = [\<lparr>st_origin = \<lparr>dp_file = ''f'', dp_line = 1, dp_column = 0\<rparr>,
         st_identifier = ''A'', st_fields = []\<rparr>], rt_map_decls = [], rt_enco_decls = []\<rparr>, fi_error = None\<rparr>)
    = Some (Inl (ParseException d ''Unexpected symbol identifier in document'')))
   \<and> (\<nexists>t. parse 40 ''f'' (StdinReader \<lparr>fi_bytes = print_root
      \<lparr>rt_origin = \<lparr>dp_file = ''f'', dp_line = 1, dp_column = 0\<rparr>,
       rt_includes = [\<lparr>in_origin = \<lparr>dp_file = ''f'', dp_line = 1, dp_column = 0\<rparr>, in_path = [CHR ''a'', CHR 0x27, CHR ''b'']\<rparr>],
       rt_space = \<lparr>qi_space = [], qi_name = []\<rparr>,
       rt_struct_decls = [], rt_map_decls = [], rt_enco_decls = []\<rparr>, fi_error = None\<rparr>) = Some (Inr t)
      \<and> map in_path (rt_includes t) = [[CHR ''a'', CHR 0x27, CHR ''b'']])"
proof
  let ?pos = "\<lparr>dp_file = ''f'', dp_line = 1, dp_column = 0\<rparr>"
  let ?r = "\<lparr>rt_origin = ?pos, rt_includes = [], rt_space = \<lparr>qi_space = [], qi_name = ''foo''\<rparr>,
       rt_struct_decls = [\<lparr>st_origin = ?pos, st_identifier = ''A'', st_fields = []\<rparr>], rt_map_decls = [], rt_enco_decls = []\<rparr>"
  let ?i = "\<lparr>rt_origin = ?pos, rt_includes = [\<lparr>in_origin = ?pos, in_path = [CHR ''a'', CHR 0x27, CHR ''b'']\<rparr>],
       rt_space = \<lparr>qi_space = [], qi_name = []\<rparr>, rt_struct_decls = [], rt_map_decls = [], rt_enco_decls = []\<rparr>"
  have len: "length (print_root ?r) < 40" "length (print_root ?i) < 40"
    by (simp_all add: print_root_def print_struct_def print_include_def print_qualified_identifier_def newline_def)
  have "wf_root ?r"
    by (simp add: wf_root_def wf_qualified_def wf_ident_def is_letter_def is_digit_def is_ident_char_def keyword_of_def)
  from print_root_read_back [OF len(1), of "''f''", THEN conjunct1, THEN mp, OF this]
  show "\<exists>d. parse 40 ''f'' (StdinReader \<lparr>fi_bytes = print_root ?r, fi_error = None\<rparr>)
    = Some (Inl (ParseException d ''Unexpected symbol identifier in document''))"
    by (simp only: AstRoot.select_convs list.distinct simp_thms if_False)
  show "\<nexists>t. parse 40 ''f'' (StdinReader \<lparr>fi_bytes = print_root ?i, fi_error = None\<rparr>) = Some (Inr t)
      \<and> map in_path (rt_includes t) = [[CHR ''a'', CHR 0x27, CHR ''b'']]"
    using print_root_read_back [OF len(2), of "''f''", THEN conjunct2] by simp
qed

end
