(* ===== verification/HappyNumber.thy ===== *)
theory HappyNumber
  imports HappyProps Complex_Main
begin

text \<open>
  Numbers with a decimal point (\<^verbatim>\<open>Parser::parse_number\<close>), which no rule of the grammar reads yet. A double
  is represented by its rational value, and every floating-point operation, conversion and literal
  is rounded by \<open>rnd\<close>, a parameter: what is relied on is that it has a small relative error in its
  range (\<open>accurate\<close>), which for doubles holds with \<open>u = 2\<^sup>-\<^sup>5\<^sup>3\<close> between the smallest normal and the
  largest finite value.
\<close>

section \<open>Parsing\<close>

type_synonym AstNumber = rat

text \<open>A loop over digits that updates a state with each of them.\<close>

fun digit_loop :: "(char \<Rightarrow> 's \<Rightarrow> 's) \<Rightarrow> nat \<Rightarrow> nat \<Rightarrow> 's \<Rightarrow> ('r Parser, nat \<times> 's) parse" where
  "digit_loop f 0 len st = (\<lambda>p. None)"
| "digit_loop f (Suc n) len st =
     pbind (peek_at len) (\<lambda>c.
       if \<not> is_digit c then preturn (len, st) else digit_loop f n (len + 1) (f c st))"

definition number_digit :: "(rat \<Rightarrow> rat) \<Rightarrow> char \<Rightarrow> AstNumber \<Rightarrow> AstNumber" where
  "number_digit rnd c ret = rnd (rnd (ret * 10) + of_int (digit_value c))"

definition fract_digit :: "(rat \<Rightarrow> rat) \<Rightarrow> char \<Rightarrow> AstNumber \<times> AstNumber \<Rightarrow> AstNumber \<times> AstNumber" where
  "fract_digit rnd c st =
     (let (ret, fract) = st
      in (if c \<noteq> CHR ''0'' then rnd (ret + rnd (of_int (digit_value c) * fract)) else ret,
          rnd (fract * rnd (1 / 10))))"

definition parse_number :: "(rat \<Rightarrow> rat) \<Rightarrow> nat \<Rightarrow> ('r Parser, AstNumber) parse" where
  "parse_number rnd n =
     pbind (peek_symbol n) (\<lambda>s.
       if s = S_integer then pbind (parse_integer n) (\<lambda>i. preturn (rnd (of_int i)))
       else
         pbind (expect n S_number) (\<lambda>_.
         pbind (peek_at 0) (\<lambda>c.
           let negative = (c = CHR ''-'');
               len = (if c = CHR ''-'' \<or> c = CHR ''+'' then 1 else 0)
           in pbind (digit_loop (number_digit rnd) n len 0) (\<lambda>(len, ret).
              pbind (digit_loop (fract_digit rnd) n (len + 1) (ret, rnd (1 / 10))) (\<lambda>(len, ret, fract).
              pbind (advance len) (\<lambda>_.
              preturn (if negative then - ret else ret)))))))"

section \<open>What is computed\<close>

text \<open>The computation on the digits alone.\<close>

definition float_value :: "(rat \<Rightarrow> rat) \<Rightarrow> string \<Rightarrow> string \<Rightarrow> rat" where
  "float_value rnd ds fs =
     fst (foldl (\<lambda>st c. fract_digit rnd c st) (foldl (\<lambda>st c. number_digit rnd c st) 0 ds, rnd (1 / 10)) fs)"

context stream_reader
begin

lemma digit_loop_text:
  assumes "ok p" and "length (drop k (unread rest p)) < n" and "ds = takeWhile is_digit (drop k (unread rest p))"
  shows "\<exists>p'. digit_loop f n k st p = Some (Inr ((k + length ds, foldl (\<lambda>st c. f c st) st ds), p')) \<and> same p p'"
  using assms
proof (induction n arbitrary: p k st ds)
  case (Suc n)
  let ?t = "unread rest p"
  obtain q where q: "peek_at k p = Some (Inr (char_at ?t k, q))" "same p q"
    using peek_at_same [OF Suc.prems(1), of k] by auto
  show ?case
  proof (cases "is_digit (char_at ?t k)")
    case False
    then have "ds = []"
      using Suc.prems(3) by (cases "drop k ?t") (auto simp: drop_step(2))
    with False q show ?thesis
      by simp
  next
    case True
    have "\<not> is_digit NUL"
      by (simp add: NUL_def is_digit_def)
    with True obtain c s where s: "drop k ?t = c # s" "is_digit c"
      by (cases "drop k ?t") (auto simp: drop_step(2), simp add: char_at_def)
    note c = drop_step [OF s(1)]
    define es where "es = takeWhile is_digit s"
    have ds: "ds = c # es"
      using Suc.prems(3) s by (simp add: es_def)
    have u: "ok q" "length (drop (Suc k) (unread rest q)) < n" "es = takeWhile is_digit (drop (Suc k) (unread rest q))"
      using q(2) c(1) s(1) Suc.prems(2) by (auto simp: same_def es_def)
    show ?thesis
      using Suc.IH [OF u, of "f c st"] q c(2) s(2) ds same_trans [OF q(2)] by auto
  qed
qed simp

lemma parse_number_text:
  assumes "coherent p" and "length (unread rest p) < n" and "t = skip_text (unread rest p)" and "symbol_of t = S_number"
    and "k = (if char_at t 0 = CHR ''-'' \<or> char_at t 0 = CHR ''+'' then 1 else 0)"
    and "drop k t = ds @ CHR ''.'' # fs @ w" and "list_all is_digit ds" and "list_all is_digit fs" and "\<not> is_digit (char_at w 0)"
  shows "\<exists>p'. parse_number rnd n p
      = Some (Inr (if char_at t 0 = CHR ''-'' then - float_value rnd ds fs else float_value rnd ds fs, p'))
    \<and> fresh p' w"
proof -
  obtain q0 where q0: "peek_symbol n p = Some (Inr (S_number, q0))" "at_symbol q0 t"
    using peek_symbol_text [OF assms(1,2)] assms(3,4) by auto
  then have q0': "coherent q0" "length (unread rest q0) < n" "skip_text (unread rest q0) = t"
    using assms(2,3) length_skip_text [of "unread rest p"] by (auto simp: at_symbol_def coherent_def)
  obtain q1 where q1: "expect n S_number q0 = Some (Inr ((), q1))" "ok q1" "unread rest q1 = t"
    using expect_ok [OF q0'(1,2)] q0'(3) assms(4) by (auto simp: at_symbol_def)
  obtain q where q: "peek_at 0 q1 = Some (Inr (char_at t 0, q))" "same q1 q"
    using peek_at_same [OF q1(2), of 0] q1(3) by auto
  have u: "ok q" "unread rest q = t" "length t < n"
    using q q1 assms(2,3) length_skip_text [of "unread rest p"] by (auto simp: same_def)
  have ds: "takeWhile is_digit (drop k t) = ds" "takeWhile is_digit (drop (k + length ds + 1) t) = fs"
      "drop (k + length ds + 1 + length fs) t = w"
  proof -
    show "takeWhile is_digit (drop k t) = ds"
      using assms(7) by (simp add: assms(6) list_all_iff)
    have d: "drop (k + length ds + 1) t = fs @ w"
      using arg_cong [OF assms(6), of "drop (length ds + 1)"] by (simp add: add.commute)
    then show "takeWhile is_digit (drop (k + length ds + 1) t) = fs"
      using assms(8,9) by (cases w) (auto simp: list_all_iff)
    show "drop (k + length ds + 1 + length fs) t = w"
      using arg_cong [OF d, of "drop (length fs)"] by (simp add: add.commute)
  qed
  have len: "length (drop k t) < n" "length (drop (k + length ds + 1) t) < n"
    using u(3) by simp_all
  obtain r where r: "digit_loop (number_digit rnd) n k 0 q
      = Some (Inr ((k + length ds, foldl (\<lambda>st c. number_digit rnd c st) 0 ds), r))" "same q r"
    using digit_loop_text [OF u(1), of k n ds "number_digit rnd" 0] u(2) len(1) ds(1) by metis
  then have r': "ok r" "unread rest r = t"
    using u by (auto simp: same_def)
  obtain r2 where r2: "digit_loop (fract_digit rnd) n (k + length ds + 1) (foldl (\<lambda>st c. number_digit rnd c st) 0 ds, rnd (1 / 10)) r
      = Some (Inr ((k + length ds + 1 + length fs,
          foldl (\<lambda>st c. fract_digit rnd c st) (foldl (\<lambda>st c. number_digit rnd c st) 0 ds, rnd (1 / 10)) fs), r2))" "same r r2"
    using digit_loop_text [OF r'(1), of "k + length ds + 1" n fs "fract_digit rnd"] r'(2) len(2) ds(2) by metis
  have "ok r2" "unread rest r2 = t"
    using r2(2) r' by (auto simp: same_def)
  then obtain p' where "advance (k + length ds + 1 + length fs) r2 = Some (Inr ((), p'))" "fresh p' w"
    using advance_fresh [of r2 t "k + length ds + 1 + length fs"] ds(3) by auto
  then show ?thesis
    using q0(1) q1(1) q(1) r(1) r2(1) assms(5)
    by (auto simp: parse_number_def float_value_def split: prod.split)
qed

end

section \<open>Rounding errors\<close>

definition accurate :: "(rat \<Rightarrow> rat) \<Rightarrow> rat \<Rightarrow> rat \<Rightarrow> rat \<Rightarrow> bool" where
  "accurate rnd u lo hi \<longleftrightarrow> 0 \<le> u \<and> u < 1 \<and>
     (\<forall>x. x = 0 \<or> (lo \<le> x \<and> x \<le> hi) \<longrightarrow> (1 - u) * x \<le> rnd x \<and> rnd x \<le> (1 + u) * x)"

text \<open>\<open>y\<close> approximates \<open>x\<close> with the error of \<open>k\<close> roundings.\<close>

definition near :: "rat \<Rightarrow> nat \<Rightarrow> rat \<Rightarrow> rat \<Rightarrow> bool" where
  "near u k x y \<longleftrightarrow> 0 \<le> x \<and> (1 - u) ^ k * x \<le> y \<and> y \<le> (1 + u) ^ k * x"

lemma near_refl: "0 \<le> x \<Longrightarrow> near u 0 x x"
  by (simp add: near_def)

lemma near_mono:
  assumes "near u k x y" and "k \<le> k'" and "0 \<le> u" and "u < 1"
  shows "near u k' x y"
proof -
  have "(1 - u) ^ k' \<le> (1 - u) ^ k" "(1 + u) ^ k \<le> (1 + u) ^ k'"
    using assms(2-4) by (simp_all add: power_decreasing power_increasing)
  then have "(1 - u) ^ k' * x \<le> (1 - u) ^ k * x" "(1 + u) ^ k * x \<le> (1 + u) ^ k' * x"
    using assms(1) by (simp_all add: near_def mult_right_mono)
  then show ?thesis
    using assms(1) by (simp add: near_def)
qed

lemma near_add: "near u k x y \<Longrightarrow> near u k x' y' \<Longrightarrow> near u k (x + x') (y + y')"
  by (simp add: near_def distrib_left)

lemma near_nonneg: "near u k x y \<Longrightarrow> 0 \<le> u \<Longrightarrow> u < 1 \<Longrightarrow> 0 \<le> y"
  unfolding near_def by (meson diff_ge_0_iff_ge less_imp_le mult_nonneg_nonneg order_trans zero_le_power)

lemma near_mult:
  assumes "near u k x y" and "near u j x' y'" and "0 \<le> u" and "u < 1"
  shows "near u (k + j) (x * x') (y * y')"
proof -
  note nn = near_nonneg [OF assms(1,3,4)] near_nonneg [OF assms(2,3,4)]
  have y: "0 \<le> x" "(1 - u) ^ k * x \<le> y" "y \<le> (1 + u) ^ k * x" "0 \<le> x'" "(1 - u) ^ j * x' \<le> y'" "y' \<le> (1 + u) ^ j * x'"
    using assms(1,2) by (simp_all only: near_def)
  have "0 \<le> (1 - u) ^ j * x'" "0 \<le> (1 + u) ^ k * x"
    using y(1,4) assms(3,4) by simp_all
  then have "((1 - u) ^ k * x) * ((1 - u) ^ j * x') \<le> y * y'" "y * y' \<le> ((1 + u) ^ k * x) * ((1 + u) ^ j * x')"
    using y nn by (simp_all only: mult_mono)
  moreover have "(a ^ k * x) * (a ^ j * x') = a ^ (k + j) * (x * x')" for a :: rat
    by (simp add: power_add)
  ultimately show ?thesis
    using y(1,4) unfolding near_def by (metis mult_nonneg_nonneg)
qed

lemma near_rnd:
  assumes "accurate rnd u lo hi" and "near u k x y" and "y = 0 \<or> (lo \<le> y \<and> y \<le> hi)"
  shows "near u (Suc k) x (rnd y)"
proof -
  have u: "0 \<le> u" "u < 1" and r: "(1 - u) * y \<le> rnd y" "rnd y \<le> (1 + u) * y"
    using assms(1,3) by (auto simp: accurate_def)
  have "(1 - u) * ((1 - u) ^ k * x) \<le> (1 - u) * y" "(1 + u) * y \<le> (1 + u) * ((1 + u) ^ k * x)"
    using assms(2) u by (auto simp: near_def intro!: mult_left_mono)
  then show ?thesis
    using r assms(2) by (simp add: near_def mult_ac)
qed

text \<open>A rounded value is in the range if the exact one is, with the error of at most \<open>m\<close> roundings.\<close>

definition in_range :: "rat \<Rightarrow> nat \<Rightarrow> rat \<Rightarrow> rat \<Rightarrow> rat \<Rightarrow> bool" where
  "in_range u m lo hi x \<longleftrightarrow> x = 0 \<or> (lo \<le> (1 - u) ^ m * x \<and> (1 + u) ^ m * x \<le> hi)"

lemma near_step:
  assumes "accurate rnd u lo hi" and "near u k x y" and "in_range u m lo hi x" and "k \<le> m"
  shows "near u (Suc k) x (rnd y)"
proof -
  have u: "0 \<le> u" "u < 1"
    using assms(1) by (auto simp: accurate_def)
  have "near u m x y"
    using near_mono [OF assms(2,4) u] .
  then have "y = 0 \<or> (lo \<le> y \<and> y \<le> hi)"
    using assms(3) by (auto simp: near_def in_range_def)
  then show ?thesis
    using near_rnd [OF assms(1,2)] by blast
qed

lemma in_range_between:
  assumes "lo \<le> (1 - u) ^ m * l" and "(1 + u) ^ m * h \<le> hi" and "x = 0 \<or> (l \<le> x \<and> x \<le> h)" and "0 \<le> u" and "u < 1"
  shows "in_range u m lo hi x"
  using assms unfolding in_range_def
  by (auto intro: order_trans [OF assms(1)] order_trans [OF _ assms(2)] intro!: mult_left_mono)

section \<open>The error of the computation\<close>

definition number_value :: "string \<Rightarrow> string \<Rightarrow> rat" where
  "number_value ds fs = of_int (decimal ds) + of_int (decimal fs) / 10 ^ length fs"

lemma digit_value_bounds: "is_digit c \<Longrightarrow> 0 \<le> digit_value c \<and> digit_value c \<le> 9"
  by (auto simp: is_digit_def digit_value_def)

lemma decimal_bounds: "list_all is_digit ds \<Longrightarrow> 0 \<le> decimal ds \<and> decimal ds < 10 ^ length ds"
proof (induction ds rule: rev_induct)
  case (snoc c ds)
  then show ?case
    using digit_value_bounds [of c] by (auto simp: decimal_snoc)
qed (simp add: decimal_def)

text \<open>A fraction of a power of ten that is not zero is at least its unit.\<close>

lemma unit_le:
  assumes "0 \<le> i" and "i \<noteq> 0"
  shows "1 / 10 ^ n \<le> (of_int i :: rat) / 10 ^ n"
  using assms by (intro divide_right_mono) simp_all

lemma number_digits_near:
  assumes "accurate rnd u lo hi" and "list_all is_digit ds" and "2 * length ds \<le> m"
    and "lo \<le> (1 - u) ^ m * l" and "l \<le> 1" and "(1 + u) ^ m * 10 ^ d \<le> hi" and "length ds \<le> d"
  shows "near u (2 * length ds) (of_int (decimal ds)) (foldl (\<lambda>st c. number_digit rnd c st) 0 ds)"
  using assms(2,3,7)
proof (induction ds rule: rev_induct)
  case Nil
  then show ?case
    by (simp add: near_def decimal_def)
next
  case (snoc c ds)
  let ?v = "foldl (\<lambda>st c. number_digit rnd c st) 0 ds"
  have u: "0 \<le> u" "u < 1"
    using assms(1) by (auto simp: accurate_def)
  have "10 ^ length (ds @ [c]) \<le> (10 :: int) ^ d"
    by (rule power_increasing) (use snoc.prems(3) in simp_all)
  then have b: "0 \<le> decimal ds" "decimal ds * 10 \<le> 10 ^ d" "decimal (ds @ [c]) \<le> 10 ^ d" "0 \<le> decimal (ds @ [c])"
    using decimal_bounds [of ds] decimal_bounds [OF snoc.prems(1)] snoc.prems(1) digit_value_bounds [of c]
    by (auto simp: decimal_snoc)
  have range: "in_range u m lo hi (of_int i)" if "0 \<le> i" "i \<le> 10 ^ d" for i
  proof (rule in_range_between [OF assms(4,6) _ u])
    have "(of_int i :: rat) \<le> of_int (10 ^ d)"
      using that(2) by (simp only: of_int_le_iff)
    then show "of_int i = (0 :: rat) \<or> (l \<le> of_int i \<and> of_int i \<le> (10 :: rat) ^ d)"
      using that assms(5) by (cases "i = 0") (auto intro: order_trans [of l 1])
  qed
  have "near u (2 * length ds) (of_int (decimal ds)) ?v"
    using snoc by simp
  then have "near u (2 * length ds + 0) (of_int (decimal ds) * 10) (?v * 10)"
    by (rule near_mult [OF _ near_refl u]) simp
  then have "near u (Suc (2 * length ds)) (of_int (decimal ds) * 10) (rnd (?v * 10))"
    using near_step [OF assms(1), of "2 * length ds" "of_int (decimal ds) * 10" "?v * 10" m] range [of "decimal ds * 10"] b snoc.prems(2)
    by simp
  moreover have "near u (Suc (2 * length ds)) (of_int (digit_value c)) (of_int (digit_value c))"
    using snoc.prems(1) digit_value_bounds [of c] by (intro near_mono [OF near_refl _ u]) simp_all
  ultimately have "near u (Suc (2 * length ds)) (of_int (decimal (ds @ [c]))) (rnd (?v * 10) + of_int (digit_value c))"
    by (simp add: decimal_snoc near_add)
  from near_step [OF assms(1) this range] b snoc.prems(2) show ?case
    by (simp add: number_digit_def)
qed

lemma number_value_snoc:
  "number_value ds (fs @ [c]) = number_value ds fs + of_int (digit_value c) * (1 / 10 ^ Suc (length fs))"
  by (simp add: number_value_def decimal_snoc field_simps)

lemma number_value_cases:
  assumes "list_all is_digit ds" and "list_all is_digit fs"
  shows "0 \<le> number_value ds fs" and "number_value ds fs \<le> 10 ^ length ds"
    and "number_value ds fs = 0 \<or> 1 / 10 ^ length fs \<le> number_value ds fs"
proof -
  let ?i = "decimal ds * 10 ^ length fs + decimal fs"
  note b = decimal_bounds [OF assms(1)] decimal_bounds [OF assms(2)]
  have v: "number_value ds fs = of_int ?i / 10 ^ length fs"
    by (simp add: number_value_def add_divide_distrib)
  have "?i \<le> (decimal ds + 1) * 10 ^ length fs"
    using b by (simp add: distrib_right)
  also have "\<dots> \<le> 10 ^ length ds * 10 ^ length fs"
    using b by (intro mult_right_mono) simp_all
  finally have "(of_int ?i :: rat) \<le> of_int (10 ^ length ds * 10 ^ length fs)"
    by (simp only: of_int_le_iff)
  then show "number_value ds fs \<le> 10 ^ length ds"
    by (simp add: v divide_le_eq)
  show "number_value ds fs = 0 \<or> 1 / 10 ^ length fs \<le> number_value ds fs"
    using unit_le [of ?i "length fs"] b by (cases "?i = 0") (auto simp: v simp del: of_int_add of_int_mult)
  show "0 \<le> number_value ds fs"
    using b by (simp add: number_value_def)
qed

text \<open>An arithmetic whose range holds every value met with \<open>d\<close> digits before and \<open>f\<close> after the point.\<close>

definition fits :: "(rat \<Rightarrow> rat) \<Rightarrow> rat \<Rightarrow> rat \<Rightarrow> rat \<Rightarrow> nat \<Rightarrow> nat \<Rightarrow> nat \<Rightarrow> bool" where
  "fits rnd u lo hi d f m \<longleftrightarrow> accurate rnd u lo hi \<and> m = 2 * (d + f) + 1
     \<and> lo \<le> (1 - u) ^ m * (1 / 10 ^ (f + 1)) \<and> (1 + u) ^ m * 10 ^ d \<le> hi"

lemma fits_D:
  assumes "fits rnd u lo hi d f m"
  shows "accurate rnd u lo hi" and "0 \<le> u" and "u < 1" and "m = 2 * (d + f) + 1"
    and "lo \<le> (1 - u) ^ m * (1 / 10 ^ (f + 1))" and "(1 + u) ^ m * 10 ^ d \<le> hi"
  using assms unfolding fits_def accurate_def by blast+

lemma tenth_power_mono: "k \<le> k' \<Longrightarrow> (1 :: rat) / 10 ^ k' \<le> 1 / 10 ^ k"
  by (intro divide_left_mono power_increasing) simp_all

lemma tenth_power_le: "(1 :: rat) / 10 ^ k \<le> 10 ^ d"
proof -
  have "(1 :: rat) / 10 ^ k \<le> 1 / 10 ^ 0"
    by (rule tenth_power_mono) simp
  also have "\<dots> \<le> 10 ^ d"
    by simp
  finally show ?thesis .
qed

lemma fits_range:
  assumes "fits rnd u lo hi d f m" and "x = 0 \<or> 1 / 10 ^ k \<le> x" and "x \<le> 10 ^ d" and "k \<le> f + 1"
  shows "in_range u m lo hi x"
  using assms(2,3) tenth_power_mono [OF assms(4)]
  by (intro in_range_between [OF fits_D(5,6) [OF assms(1)] _ fits_D(2,3) [OF assms(1)]]) auto

lemma tenth_near:
  assumes "fits rnd u lo hi d f m"
  shows "near u (Suc 0) (1 / 10) (rnd (1 / 10))"
  using near_step [OF fits_D(1) [OF assms] near_refl fits_range [OF assms, of _ 1]] tenth_power_le [of 1 d] by simp

text \<open>The weight of the next digit, and the value with one more digit.\<close>

lemma weight_near:
  assumes "fits rnd u lo hi d f m" and "near u (2 * j + 1) (1 / 10 ^ Suc j) fract" and "j < f"
  shows "near u (2 * Suc j + 1) (1 / 10 ^ Suc (Suc j)) (rnd (fract * rnd (1 / 10)))"
proof -
  have "near u (2 * j + 1 + Suc 0) (1 / 10 ^ Suc j * (1 / 10)) (fract * rnd (1 / 10))"
    by (rule near_mult [OF assms(2) tenth_near [OF assms(1)] fits_D(2,3) [OF assms(1)]])
  then have "near u (2 * j + 2) (1 / 10 ^ Suc (Suc j)) (fract * rnd (1 / 10))"
    by simp
  from near_step [OF fits_D(1) [OF assms(1)] this fits_range [OF assms(1), of _ "Suc (Suc j)"]] show ?thesis
    using assms(3) tenth_power_le [of "Suc (Suc j)" d] fits_D(4) [OF assms(1)] by simp
qed

lemma digit_term_near:
  assumes "fits rnd u lo hi d f m" and "near u (2 * j + 1) (1 / 10 ^ Suc j) fract" and "j < f" and "is_digit c"
  shows "near u (2 * j + 2) (of_int (digit_value c) * (1 / 10 ^ Suc j)) (rnd (of_int (digit_value c) * fract))"
proof -
  let ?x = "of_int (digit_value c) * (1 / 10 ^ Suc j) :: rat"
  note c = digit_value_bounds [OF assms(4)]
  have "?x = 0 \<or> 1 / 10 ^ Suc j \<le> ?x"
    using unit_le [of "digit_value c" "Suc j"] c by (cases "digit_value c = 0") auto
  moreover have "(of_int (digit_value c) :: rat) \<le> 10 * 1"
    using c by simp
  then have "?x \<le> (10 * 1) * (1 / 10 ^ Suc j)"
    by (rule mult_right_mono) simp
  then have "?x \<le> 10 ^ d"
    using tenth_power_le [of j d] by simp
  ultimately have "in_range u m lo hi ?x"
    using assms(3) by (intro fits_range [OF assms(1), of _ "Suc j"]) simp_all
  moreover have "near u (0 + (2 * j + 1)) ?x (of_int (digit_value c) * fract)"
    using c by (intro near_mult [OF near_refl assms(2) fits_D(2,3) [OF assms(1)]]) simp
  ultimately show ?thesis
    using near_step [OF fits_D(1) [OF assms(1)]] assms(3) fits_D(4) [OF assms(1)] by fastforce
qed

lemma digit_added_near:
  assumes fits: "fits rnd u lo hi (length ds) f m" and ds: "list_all is_digit ds"
    and fs: "list_all is_digit (fs @ [c])" "length fs < f"
    and ret: "near u (2 * (length ds + length fs) + 1) (number_value ds fs) ret"
    and fract: "near u (2 * length fs + 1) (1 / 10 ^ Suc (length fs)) fract"
  shows "near u (2 * (length ds + length (fs @ [c])) + 1) (number_value ds (fs @ [c]))
    (rnd (ret + rnd (of_int (digit_value c) * fract)))"
proof -
  let ?k = "2 * (length ds + length fs) + 2"
  note u = fits_D(2,3) [OF fits]
  have "near u ?k (of_int (digit_value c) * (1 / 10 ^ Suc (length fs))) (rnd (of_int (digit_value c) * fract))"
    using fs by (intro near_mono [OF digit_term_near [OF fits fract] _ u]) simp_all
  moreover have "near u ?k (number_value ds fs) ret"
    by (rule near_mono [OF ret _ u]) simp
  ultimately have "near u ?k (number_value ds (fs @ [c])) (ret + rnd (of_int (digit_value c) * fract))"
    unfolding number_value_snoc by (rule near_add [rotated])
  from near_step [OF fits_D(1) [OF fits] this fits_range [OF fits, of _ "length (fs @ [c])"]] show ?thesis
    using number_value_cases [OF ds fs(1)] fs(2) fits_D(4) [OF fits] by simp
qed

lemma fract_digits_near:
  assumes fits: "fits rnd u lo hi (length ds) f m" and ds: "list_all is_digit ds"
    and fs: "list_all is_digit fs" "length fs \<le> f"
    and st: "(ret, fract) = foldl (\<lambda>st c. fract_digit rnd c st) (foldl (\<lambda>st c. number_digit rnd c st) 0 ds, rnd (1 / 10)) fs"
  shows "near u (2 * (length ds + length fs) + 1) (number_value ds fs) ret
    \<and> near u (2 * length fs + 1) (1 / 10 ^ Suc (length fs)) fract"
  using fs st
proof (induction fs arbitrary: ret fract rule: rev_induct)
  case Nil
  have "near u (2 * length ds) (of_int (decimal ds)) (foldl (\<lambda>st c. number_digit rnd c st) 0 ds)"
    using tenth_power_le [of "f + 1" 0] fits_D(4) [OF fits]
    by (intro number_digits_near [OF fits_D(1) [OF fits] ds _ fits_D(5) [OF fits] _ fits_D(6) [OF fits]]) simp_all
  from near_mono [OF this _ fits_D(2,3) [OF fits], of "Suc (2 * length ds)"] show ?case
    using Nil(3) tenth_near [OF fits] by (simp add: number_value_def decimal_def)
next
  case (snoc c fs)
  obtain ret0 fract0 where st0: "(ret0, fract0)
      = foldl (\<lambda>st c. fract_digit rnd c st) (foldl (\<lambda>st c. number_digit rnd c st) 0 ds, rnd (1 / 10)) fs"
    by (metis surj_pair)
  have IH: "near u (2 * (length ds + length fs) + 1) (number_value ds fs) ret0"
      "near u (2 * length fs + 1) (1 / 10 ^ Suc (length fs)) fract0"
    using snoc.IH [OF _ _ st0] snoc.prems(1,2) by simp_all
  have step: "(ret, fract) = fract_digit rnd c (ret0, fract0)"
    using snoc.prems(3) unfolding st0 by simp
  have "near u (2 * (length ds + length (fs @ [c])) + 1) (number_value ds (fs @ [c])) ret"
  proof (cases "c = CHR ''0''")
    case True
    then have "number_value ds (fs @ [c]) = number_value ds fs" "ret = ret0"
      using step by (simp_all add: number_value_snoc digit_value_def fract_digit_def)
    then show ?thesis
      using near_mono [OF IH(1) _ fits_D(2,3) [OF fits]] by simp
  next
    case False
    then show ?thesis
      using step digit_added_near [OF fits ds snoc.prems(1) _ IH] snoc.prems(2) by (simp add: fract_digit_def)
  qed
  moreover have "fract = rnd (fract0 * rnd (1 / 10))"
    using step by (simp add: fract_digit_def)
  ultimately show ?case
    using weight_near [OF fits IH(2)] snoc.prems(2) by simp
qed

section \<open>Properties\<close>

lemma signed_number_text:
  assumes "sign \<in> {[], ''-'', ''+''}" and "list_all is_digit ds" and "sign \<noteq> [] \<or> ds \<noteq> []"
  shows "skip_text (sign @ ds @ CHR ''.'' # w) = sign @ ds @ CHR ''.'' # w \<and> symbol_of (sign @ ds @ CHR ''.'' # w) = S_number
    \<and> drop (if char_at (sign @ ds @ CHR ''.'' # w) 0 = CHR ''-'' \<or> char_at (sign @ ds @ CHR ''.'' # w) 0 = CHR ''+'' then 1 else 0)
        (sign @ ds @ CHR ''.'' # w) = ds @ CHR ''.'' # w
    \<and> (char_at (sign @ ds @ CHR ''.'' # w) 0 = CHR ''-'' \<longleftrightarrow> sign = ''-'')"
proof (cases "sign = []")
  case False
  then have "sign = ''-'' \<or> sign = ''+''"
    using assms(1) by simp
  moreover have "dropWhile is_digit (ds @ CHR ''.'' # w) = CHR ''.'' # w"
    using assms(2) by (simp add: list_all_iff)
  ultimately show ?thesis
    by (elim disjE) (simp_all add: is_blank_def NUL_def)
next
  case True
  then obtain c s where ds: "ds = c # s" "is_digit c"
    using assms(2,3) by (cases ds) auto
  have "dropWhile is_digit (s @ CHR ''.'' # w) = CHR ''.'' # w"
    using assms(2) ds by (simp add: list_all_iff)
  moreover have "\<not> is_digit (CHR ''-'')" "\<not> is_digit (CHR ''+'')" "\<not> is_digit (CHR ''#'')" "\<not> is_digit NUL"
    "\<not> is_digit (CHR '' '')" "\<not> is_digit (CHR 0x09)" "\<not> is_digit (CHR 0x0A)" "\<not> is_digit (CHR 0x0D)"
    by (simp_all add: is_digit_def NUL_def)
  then have "c \<noteq> CHR ''-''" "c \<noteq> CHR ''+''" "c \<noteq> NUL" "c \<noteq> CHR ''#''" "\<not> is_blank c"
    using ds(2) unfolding is_blank_def by blast+
  ultimately show ?thesis
    using True ds by simp
qed

text \<open>
  C24. Numbers with a decimal point. On a sign, \<open>d\<close> digits, a point and \<open>f\<close> digits, with an arithmetic
  that is accurate to a relative error of \<open>u\<close> in a range that holds the values met, \<open>parse_number\<close>
  returns a number within the error of \<open>2 (d + f) + 1\<close> roundings of the decimal value, and leaves the
  text after it unread.
\<close>

theorem parse_number_accuracy:
  assumes "accurate rnd u lo hi" and "sign \<in> {[], ''-'', ''+''}" and "list_all is_digit ds" and "list_all is_digit fs"
    and "sign \<noteq> [] \<or> ds \<noteq> []" and "\<not> is_digit (char_at w 0)" and "m = 2 * (length ds + length fs) + 1"
    and "lo \<le> (1 - u) ^ m * (1 / 10 ^ (length fs + 1))" and "(1 + u) ^ m * 10 ^ length ds \<le> hi"
    and "length (sign @ ds @ CHR ''.'' # fs @ w) < n"
    and "p = new_Parser filename (StdinReader \<lparr>fi_bytes = sign @ ds @ CHR ''.'' # fs @ w, fi_error = None\<rparr>)"
  shows "\<exists>v p'. parse_number rnd n p = Some (Inr (if sign = ''-'' then - v else v, p')) \<and> unread fi_bytes p' = w
    \<and> (1 - u) ^ m * number_value ds fs \<le> v \<and> v \<le> (1 + u) ^ m * number_value ds fs"
proof -
  let ?t = "sign @ ds @ CHR ''.'' # fs @ w"
  have p: "stdin.coherent p" "unread fi_bytes p = ?t" "length (unread fi_bytes p) < n"
    using assms(10) by (simp_all add: assms(11) start_coherent)
  note t = signed_number_text [OF assms(2,3,5), of "fs @ w"]
  have "\<exists>p'. parse_number rnd n p = Some (Inr (if char_at ?t 0 = CHR ''-'' then - float_value rnd ds fs else float_value rnd ds fs, p'))
      \<and> stdin.fresh p' w"
    using t p(2) assms(3,4,6) by (intro stdin.parse_number_text [OF p(1,3) _ _ refl]) auto
  moreover have "near u m (number_value ds fs) (float_value rnd ds fs)"
    using fract_digits_near [OF _ assms(3,4) order_refl prod.collapse, of rnd u lo hi m] assms(1,7-9)
    by (simp add: float_value_def fits_def)
  ultimately show ?thesis
    using t by (auto simp: near_def stdin.fresh_def)
qed

text \<open>A fixed-point arithmetic with sixty binary places.\<close>

definition fixed_point :: "rat \<Rightarrow> rat" where
  "fixed_point x = of_int \<lfloor>x * 2 ^ 60\<rfloor> / 2 ^ 60"

lemma fixed_point_accurate: "accurate fixed_point (1 / 2 ^ 52) (1 / 2 ^ 8) (2 ^ 100)"
proof -
  have "(1 - 1 / 2 ^ 52) * x \<le> fixed_point x \<and> fixed_point x \<le> (1 + 1 / 2 ^ 52) * x" if "1 / 2 ^ 8 \<le> x" for x
  proof -
    have "of_int \<lfloor>x * 2 ^ 60\<rfloor> \<le> x * 2 ^ 60" "x * 2 ^ 60 \<le> of_int \<lfloor>x * 2 ^ 60\<rfloor> + 1"
      by linarith+
    then have "fixed_point x \<le> x" "x \<le> fixed_point x + 1 / 2 ^ 60"
      by (simp_all add: fixed_point_def divide_le_eq le_divide_eq distrib_right)
    then show ?thesis
      using that by simp
  qed
  then show ?thesis
    by (auto simp: accurate_def fixed_point_def)
qed

theorem parse_number_accuracy_witness:
  "\<exists>v p'. parse_number fixed_point 12 (new_Parser ''f'' (StdinReader \<lparr>fi_bytes = ''-2.5;'', fi_error = None\<rparr>)) = Some (Inr (- v, p'))
     \<and> unread fi_bytes p' = '';'' \<and> (1 - 1 / 2 ^ 52) ^ 5 * (5 / 2) \<le> v \<and> v \<le> (1 + 1 / 2 ^ 52) ^ 5 * (5 / 2)"
  using parse_number_accuracy [OF fixed_point_accurate, where sign = "''-''" and ds = "''2''" and fs = "''5''" and w = "'';''"
      and m = 5 and n = 12 and filename = "''f''" and p = "new_Parser ''f'' (StdinReader \<lparr>fi_bytes = ''-2.5;'', fi_error = None\<rparr>)"]
  by (simp add: is_digit_def number_value_def decimal_def digit_value_def power_divide)

end
