(* ===== verification/HappySound.thy ===== *)
theory HappySound
  imports HappyProps
begin

text \<open>
  Well-formedness of the trees the parser returns. Every rule of the grammar is given its
  postcondition once (\<open>yields\<close>); the rules compose by those of the rules they call, whatever fuel
  they run with.
\<close>

section \<open>Well-formed trees\<close>

definition sound_struct :: "AstStruct \<Rightarrow> bool" where
  "sound_struct d \<longleftrightarrow> wf_ident (st_identifier d)
     \<and> list_all (\<lambda>f. wf_ident (sf_identifier f) \<and> wf_type (sf_type f)) (st_fields d)"

definition sound_mapping :: "AstMapping \<Rightarrow> bool" where
  "sound_mapping d \<longleftrightarrow> wf_ident (mp_struct_id d) \<and> wf_qualified (mp_map_category d)
     \<and> list_all (\<lambda>f. wf_ident (mf_identifier f)) (mp_fields d)"

fun sound_node :: "AstEncodingNode \<Rightarrow> bool" where
  "sound_node (AstEncodingField origin field_id enco_id) \<longleftrightarrow> wf_ident field_id \<and> wf_ident enco_id"
| "sound_node (AstEncodingDeltaBlock origin nodes) \<longleftrightarrow> list_all sound_node nodes"

definition sound_encoding :: "AstEncoding \<Rightarrow> bool" where
  "sound_encoding d \<longleftrightarrow> wf_ident (en_struct_id d) \<and> wf_ident (en_enco_id d) \<and> list_all sound_node (en_fields d)"

definition sound_root :: "AstRoot \<Rightarrow> bool" where
  "sound_root t \<longleftrightarrow>
     (if qi_name (rt_space t) = [] then qi_space (rt_space t) = [] else wf_qualified (rt_space t))
     \<and> list_all sound_struct (rt_struct_decls t) \<and> list_all sound_mapping (rt_map_decls t)
     \<and> list_all sound_encoding (rt_enco_decls t)"

lemma word_text:
  assumes "symbol_of t = S_identifier"
  shows "wf_ident (takeWhile is_ident_char t)"
proof (cases t)
  case (Cons c s)
  have "sign_of c \<noteq> Some S_identifier"
    using sign_of_symbol by fastforce
  then have c: "is_letter c" "keyword_of (c # takeWhile is_ident_char s) = S_identifier"
    using assms Cons by (auto split: if_split_asm option.split_asm)
  then have "is_ident_char c"
    by (simp add: is_ident_char_def)
  then show ?thesis
    using c Cons by (auto simp: wf_ident_def list_all_iff dest: set_takeWhileD)
qed (use assms in simp)

lemma wf_default: "wf_ident DEFAULT_ENCODING"
  by (simp add: wf_ident_def DEFAULT_ENCODING_def is_letter_def is_ident_char_def keyword_of_def)

section \<open>Postconditions\<close>

context stream_reader
begin

definition yields :: "('a \<Rightarrow> bool) \<Rightarrow> ('r Parser, 'a) parse \<Rightarrow> bool" where
  "yields P m \<longleftrightarrow> (\<forall>p a p'. coherent p \<longrightarrow> m p = Some (Inr (a, p')) \<longrightarrow> coherent p' \<and> P a)"

lemma yields_bind:
  assumes "yields Q m" and "\<And>a. Q a \<Longrightarrow> yields P (f a)"
  shows "yields P (pbind m f)"
  unfolding yields_def
proof (intro allI impI)
  fix p a p'
  assume p: "coherent p" "pbind m f p = Some (Inr (a, p'))"
  then obtain b q where "m p = Some (Inr (b, q))" "f b q = Some (Inr (a, p'))"
    by (auto simp: pbind_def split: option.split_asm sum.split_asm)
  then show "coherent p' \<and> P a"
    using p(1) assms unfolding yields_def by blast
qed

lemma yields_return: "P a \<Longrightarrow> yields P (preturn a)"
  by (simp add: yields_def)

lemma yields_fail: "yields P (\<lambda>p. None)"
  by (simp add: yields_def)

lemma yields_if: "(b \<Longrightarrow> yields P m) \<Longrightarrow> (\<not> b \<Longrightarrow> yields P m') \<Longrightarrow> yields P (if b then m else m')"
  by simp

lemma yields_weaken: "yields Q m \<Longrightarrow> (\<And>a. Q a \<Longrightarrow> P a) \<Longrightarrow> yields P m"
  unfolding yields_def by blast

text \<open>A primitive has the postcondition it has with enough fuel.\<close>

lemma yields_fuel:
  assumes "\<And>n n'. n \<le> n' \<Longrightarrow> below (m n) (m n')"
    and "\<And>p n. coherent p \<Longrightarrow> length (unread rest p) < n \<Longrightarrow>
      (\<exists>e. m n p = Some (Inl e)) \<or> (\<exists>a p'. m n p = Some (Inr (a, p')) \<and> coherent p' \<and> P a) \<or> m n p = None"
  shows "yields P (m n)"
  unfolding yields_def
proof (intro allI impI)
  fix p a p'
  assume p: "coherent p" "m n p = Some (Inr (a, p'))"
  define n' where "n' = max n (Suc (length (unread rest p)))"
  have "m n' p = m n p"
    using below_D [OF assms(1), of n n' p] p(2) by (simp add: n'_def)
  then show "coherent p' \<and> P a"
    using assms(2) [OF p(1), of n'] p(2) by (auto simp: n'_def)
qed

lemma peek_symbol_yields: "yields (\<lambda>s. True) (peek_symbol n)"
proof (rule yields_fuel [OF peek_symbol_below])
  fix p n
  assume "coherent p" "length (unread rest p) < n"
  then show "(\<exists>e. peek_symbol n p = Some (Inl e)) \<or> (\<exists>a p'. peek_symbol n p = Some (Inr (a, p')) \<and> coherent p' \<and> True)
      \<or> peek_symbol n p = None"
    using peek_symbol_text [of p n] at_symbol_coherent by fastforce
qed

lemma parse_symbol_yields:
  assumes "symbol_length s = Some k"
  shows "yields (\<lambda>u. True) (parse_symbol n s)"
proof (rule yields_fuel [OF parse_symbol_below])
  fix p n
  assume p: "coherent p" "length (unread rest p) < n"
  show "(\<exists>e. parse_symbol n s p = Some (Inl e)) \<or> (\<exists>a p'. parse_symbol n s p = Some (Inr (a, p')) \<and> coherent p' \<and> True)
      \<or> parse_symbol n s p = None"
    using parse_symbol_ok [OF p _ assms] parse_symbol_error [OF p, of s] fresh_coherent by blast
qed

lemma parse_identifier_yields: "yields wf_ident (parse_identifier n)"
proof (rule yields_fuel [OF parse_identifier_below])
  fix p n
  assume p: "coherent p" "length (unread rest p) < n"
  show "(\<exists>e. parse_identifier n p = Some (Inl e))
      \<or> (\<exists>a p'. parse_identifier n p = Some (Inr (a, p')) \<and> coherent p' \<and> wf_ident a) \<or> parse_identifier n p = None"
    using parse_identifier_ok [OF p refl] parse_identifier_error [OF p] word_text fresh_coherent by blast
qed

lemma parse_integer_yields: "yields (\<lambda>i. \<bar>i\<bar> \<le> int64_max) (parse_integer n)"
proof (rule yields_fuel [OF parse_integer_below])
  fix p n
  assume p: "coherent p" "length (unread rest p) < n"
  let ?t = "skip_text (unread rest p)"
  define k where "k = (if char_at ?t 0 = CHR ''-'' \<or> char_at ?t 0 = CHR ''+'' then 1 else 0 :: nat)"
  have "0 \<le> decimal (takeWhile is_digit (drop k ?t))"
    unfolding decimal_def by (rule decimal_fold_mono) (auto simp: list_all_iff dest: set_takeWhileD)
  then show "(\<exists>e. parse_integer n p = Some (Inl e))
      \<or> (\<exists>a p'. parse_integer n p = Some (Inr (a, p')) \<and> coherent p' \<and> \<bar>a\<bar> \<le> int64_max) \<or> parse_integer n p = None"
    using parse_integer_text [OF p refl _ k_def refl] parse_integer_error [OF p] fresh_coherent
    by (cases "symbol_of ?t = S_integer") (fastforce split: if_split_asm)+
qed

lemma parse_string_yields: "yields (\<lambda>s. True) (parse_string n)"
proof (rule yields_fuel [OF parse_string_below])
  fix p n
  assume p: "coherent p" "length (unread rest p) < n"
  show "(\<exists>e. parse_string n p = Some (Inl e))
      \<or> (\<exists>a p'. parse_string n p = Some (Inr (a, p')) \<and> coherent p' \<and> True) \<or> parse_string n p = None"
  proof (cases "symbol_of (skip_text (unread rest p)) = S_string")
    case True
    then obtain d s where ds: "skip_text (unread rest p) = d # s"
      by (cases "skip_text (unread rest p)") auto
    then show ?thesis
      using parse_string_ok [OF p ds] parse_string_diverges [OF p ds] True fresh_coherent
      by (cases "literal d s") fastforce+
  qed (use parse_string_error [OF p] in blast)
qed

lemma unexpected_in_yields: "yields P (unexpected_in n ctx)"
  unfolding unexpected_in_def throw_at_def
  by (rule yields_bind [OF peek_symbol_yields]) (simp add: yields_def current_position_def)

lemma position_yields: "yields (\<lambda>d. True) current_position"
  by (simp add: yields_def current_position_def)

section \<open>The grammar\<close>

lemma symbol_yields_bind:
  "symbol_length s = Some k \<Longrightarrow> (\<And>a. yields P (f a)) \<Longrightarrow> yields P (pbind (parse_symbol n s) f)"
  by (rule yields_bind [OF parse_symbol_yields])

lemma qualified_loop_yields: "list_all wf_ident sp \<Longrightarrow> wf_ident tmp \<Longrightarrow> yields wf_qualified (qualified_loop n sp tmp)"
proof (induction n arbitrary: sp tmp)
  case (Suc n)
  then show ?case
    by (auto intro!: yields_bind [OF peek_symbol_yields] yields_bind [OF parse_identifier_yields] symbol_yields_bind
        yields_return simp: wf_qualified_def)
qed (simp add: yields_fail)

lemma parse_qualified_identifier_yields: "yields wf_qualified (parse_qualified_identifier n)"
  unfolding parse_qualified_identifier_def
  by (rule yields_bind [OF parse_identifier_yields]) (simp add: qualified_loop_yields)

lemma parse_type_yields: "yields wf_type (parse_type n)"
  unfolding parse_type_def
  by (auto intro!: yields_bind [OF parse_qualified_identifier_yields] yields_bind [OF peek_symbol_yields]
      yields_bind [OF parse_integer_yields] symbol_yields_bind yields_return simp: wf_type_def)

lemma until_close_yields:
  assumes "\<And>n. yields P (item n)"
  shows "list_all P acc \<Longrightarrow> yields (list_all P) (until_close n item acc)"
proof (induction n arbitrary: acc)
  case (Suc n)
  then show ?case
    by (auto intro!: yields_bind [OF peek_symbol_yields] yields_bind [OF assms] yields_return)
qed (simp add: yields_fail)

lemma parse_struct_field_yields: "yields (\<lambda>f. wf_ident (sf_identifier f) \<and> wf_type (sf_type f)) (parse_struct_field n)"
  unfolding parse_struct_field_def
  by (auto intro!: yields_bind [OF position_yields] yields_bind [OF parse_identifier_yields]
      yields_bind [OF parse_type_yields] symbol_yields_bind yields_return)

lemma parse_struct_yields: "yields sound_struct (parse_struct n)"
  unfolding parse_struct_def
  by (auto intro!: yields_bind [OF position_yields] yields_bind [OF parse_identifier_yields]
      yields_bind [OF until_close_yields [OF parse_struct_field_yields]] symbol_yields_bind yields_return
      simp: sound_struct_def)

lemma parse_mapping_field_yields: "yields (\<lambda>f. wf_ident (mf_identifier f)) (parse_mapping_field n)"
  unfolding parse_mapping_field_def
  by (auto intro!: yields_bind [OF position_yields] yields_bind [OF parse_identifier_yields]
      yields_bind [OF parse_string_yields] symbol_yields_bind yields_return)

lemma parse_mapping_yields: "yields sound_mapping (parse_mapping n)"
  unfolding parse_mapping_def
  by (auto intro!: yields_bind [OF position_yields] yields_bind [OF parse_identifier_yields]
      yields_bind [OF parse_qualified_identifier_yields]
      yields_bind [OF until_close_yields [OF parse_mapping_field_yields]] symbol_yields_bind yields_return
      simp: sound_mapping_def)

lemma parse_encoding_name_yields: "yields wf_ident (parse_encoding_name n)"
  unfolding parse_encoding_name_def
  by (auto intro!: yields_bind [OF peek_symbol_yields] symbol_yields_bind parse_identifier_yields yields_return wf_default)

lemma parse_encoding_field_yields: "yields sound_node (parse_encoding_field n)"
  unfolding parse_encoding_field_def
  by (auto intro!: yields_bind [OF position_yields] yields_bind [OF parse_identifier_yields]
      yields_bind [OF parse_encoding_name_yields] yields_return)

lemma encoding_yields:
  "yields sound_node (parse_encoding_node n)"
  "yields sound_node (parse_encoding_delta_block n)"
  "list_all sound_node acc \<Longrightarrow> yields (list_all sound_node) (encoding_nodes n acc)"
proof (induction n arbitrary: acc)
  case (Suc n)
  {
    case 1
    show ?case
      by (auto intro!: yields_bind [OF peek_symbol_yields] Suc.IH parse_encoding_field_yields unexpected_in_yields
          split: Symbol.split)
  next
    case 2
    show ?case
      by (auto intro!: yields_bind [OF position_yields] yields_bind [OF peek_symbol_yields] yields_bind [OF Suc.IH(1)]
          yields_bind [OF Suc.IH(3)] symbol_yields_bind yields_return unexpected_in_yields split: Symbol.split)
  next
    case 3
    then show ?case
      by (auto intro!: yields_bind [OF peek_symbol_yields] yields_bind [OF Suc.IH(1)] Suc.IH(3) yields_return)
  }
qed (simp_all add: yields_fail)

lemma parse_encoding_yields: "yields sound_encoding (parse_encoding n)"
  unfolding parse_encoding_def
  by (auto intro!: yields_bind [OF position_yields] yields_bind [OF parse_identifier_yields]
      yields_bind [OF parse_encoding_name_yields] yields_bind [OF encoding_yields(3)] symbol_yields_bind yields_return
      simp: sound_encoding_def)

lemma parse_include_yields: "yields (\<lambda>i. True) (parse_include n)"
  unfolding parse_include_def
  by (auto intro!: yields_bind [OF position_yields] yields_bind [OF parse_string_yields] symbol_yields_bind yields_return)

lemma includes_loop_yields: "yields (\<lambda>is. True) (includes_loop n acc)"
proof (induction n arbitrary: acc)
  case (Suc n)
  then show ?case
    by (auto intro!: yields_bind [OF peek_symbol_yields] yields_bind [OF parse_include_yields] yields_return)
qed (simp add: yields_fail)

lemma decls_loop_yields: "sound_root node \<Longrightarrow> yields sound_root (decls_loop n node)"
proof (induction n arbitrary: node)
  case (Suc n)
  have "yields sound_root (case s of
         S_struct_kw \<Rightarrow>
           pbind (parse_struct (Suc n)) (\<lambda>d. decls_loop n (node\<lparr>rt_struct_decls := rt_struct_decls node @ [d]\<rparr>))
       | S_mapping_kw \<Rightarrow>
           pbind (parse_mapping (Suc n)) (\<lambda>d. decls_loop n (node\<lparr>rt_map_decls := rt_map_decls node @ [d]\<rparr>))
       | S_encoding_kw \<Rightarrow>
           pbind (parse_encoding (Suc n)) (\<lambda>d. decls_loop n (node\<lparr>rt_enco_decls := rt_enco_decls node @ [d]\<rparr>))
       | S_eof \<Rightarrow> preturn node
       | _ \<Rightarrow> unexpected_in (Suc n) ''document'')" for s
    using Suc.prems
    by (auto intro!: yields_bind [OF parse_struct_yields] yields_bind [OF parse_mapping_yields]
        yields_bind [OF parse_encoding_yields] Suc.IH unexpected_in_yields yields_return
        simp: sound_root_def split: Symbol.split)
  then show ?case
    by (auto intro: yields_bind [OF peek_symbol_yields])
qed (simp add: yields_fail)

lemma parse_namespace_yields:
  "yields (\<lambda>q. if qi_name q = [] then qi_space q = [] else wf_qualified q) (parse_namespace n)"
proof -
  have "yields (\<lambda>q. if qi_name q = [] then qi_space q = [] else wf_qualified q) (parse_qualified_identifier n)"
    by (rule yields_weaken [OF parse_qualified_identifier_yields]) (auto simp: wf_qualified_def wf_ident_def)
  then show ?thesis
    unfolding parse_namespace_def
    by (intro yields_bind [OF peek_symbol_yields] yields_if symbol_yields_bind yields_return) simp_all
qed

lemma parse_document_yields: "yields sound_root (parse_document n)"
  unfolding parse_document_def
  by (intro yields_bind [OF position_yields] yields_bind [OF includes_loop_yields] yields_bind [OF parse_namespace_yields]
      decls_loop_yields) (simp add: sound_root_def)

lemma parse_yields:
  assumes "good r" and "parse n filename \<lparr>sr_state = r, sr_read = read\<rparr> = Some (Inr t)"
  shows "sound_root t"
proof -
  let ?p = "new_Parser filename \<lparr>sr_state = r, sr_read = read\<rparr>"
  have "coherent ?p"
    using assms(1) by (simp add: coherent_def ok_def unread_def buffered_def new_Parser_def)
  moreover obtain p' where "parse_document n ?p = Some (Inr (t, p'))"
  proof -
    obtain x where x: "parse_document n ?p = Some x" "map_sum id fst x = Inr t"
      using assms(2) by (auto simp: parse_def)
    then show thesis
      using that by (cases x) auto
  qed
  ultimately show ?thesis
    using parse_document_yields [of n] unfolding yields_def by blast
qed

end

section \<open>Properties\<close>

text \<open>
  C21. The parser builds well-formed trees. Whatever text a reader delivers, in a tree that
  \<open>Parser::parse\<close> returns every name is an identifier that starts with a letter and is no keyword,
  every type has a well-formed name and an array size exactly when it is an array, and that size is a
  64-bit integer.
\<close>

theorem parse_sound:
  assumes "stream_reader rd rest good" and "good r"
    and "parse n filename \<lparr>sr_state = r, sr_read = rd\<rparr> = Some (Inr t)"
  shows "sound_root t"
  by (rule stream_reader.parse_yields [OF assms])

definition example_root :: AstRoot where
  "example_root = \<lparr>rt_origin = \<lparr>dp_file = ''f'', dp_line = 1, dp_column = 0\<rparr>, rt_includes = [],
     rt_space = \<lparr>qi_space = [''a''], qi_name = ''foo''\<rparr>, rt_struct_decls = [], rt_map_decls = [], rt_enco_decls = []\<rparr>"

theorem parse_sound_witness:
  "\<exists>t. parse 40 ''f'' (StdinReader \<lparr>fi_bytes = print_root example_root, fi_error = None\<rparr>) = Some (Inr t)
     \<and> qi_name (rt_space t) = ''foo'' \<and> sound_root t"
proof -
  let ?f = "\<lparr>fi_bytes = print_root example_root, fi_error = None\<rparr>"
  have wf: "wf_root example_root" "length (print_root example_root) < 40"
    by (simp_all add: example_root_def wf_root_def wf_qualified_def wf_ident_def is_letter_def is_digit_def is_ident_char_def
        keyword_of_def print_root_def print_qualified_identifier_def newline_def)
  then have "length (unread fi_bytes (new_Parser ''f'' (StdinReader ?f))) < 40"
    by (simp add: start_coherent)
  from stdin.document_read [OF start_coherent(1) this start_coherent(2) wf(1)] obtain t where
    t: "parse 40 ''f'' (StdinReader ?f) = Some (Inr t)" "rt_space t = rt_space example_root"
    by (auto simp: parse_def example_root_def)
  have "sound_root t"
    using parse_sound [OF stdin.stream_reader_axioms, of ?f 40 "''f''" t] t(1) by (simp add: StdinReader_def)
  with t show ?thesis
    by (simp add: example_root_def)
qed

end
