(* ===== verification/HappyGrammar.thy ===== *)
theory HappyGrammar
  imports HappySound
begin

text \<open>
  The interface language as a grammar. \<open>tokens\<close> cuts a text into tokens; the inductive predicates
  relate a list of tokens to the tree it stands for, one predicate for each rule of the grammar.
  Positions are no part of the language: the trees of the grammar have all origins \<open>nowhere\<close>, and
  \<open>erase_root\<close> forgets the positions of a parsed tree.
\<close>

section \<open>Tokens\<close>

text \<open>
  A token that no rule accepts carries the symbol it begins with: a real number, an unterminated
  string, an integer beyond 64 bits, a character that begins no token.
\<close>

datatype token =
    T_symbol Symbol
  | T_name string
  | T_string string
  | T_integer int
  | T_bad Symbol

definition integer_sign :: "string \<Rightarrow> nat" where
  "integer_sign u = (if char_at u 0 = CHR ''-'' \<or> char_at u 0 = CHR ''+'' then 1 else 0)"

definition integer_token :: "string \<Rightarrow> token \<times> string" where
  "integer_token u =
     (let v = decimal (takeWhile is_digit (drop (integer_sign u) u))
      in if v \<le> int64_max
         then (T_integer (if char_at u 0 = CHR ''-'' then - v else v), dropWhile is_digit (drop (integer_sign u) u))
         else (T_bad S_integer, []))"

definition string_token :: "string \<Rightarrow> token \<times> string" where
  "string_token u = (case literal (hd u) (tl u) of Some (r, v) \<Rightarrow> (T_string r, v) | None \<Rightarrow> (T_bad S_string, []))"

definition next_token :: "string \<Rightarrow> (token \<times> string) option" where
  "next_token s =
     (let u = skip_text s; y = symbol_of u
      in if y = S_eof then None
         else Some
           (if y = S_identifier then (T_name (takeWhile is_ident_char u), dropWhile is_ident_char u)
            else if y = S_string then string_token u
            else if y = S_integer then integer_token u
            else case symbol_length y of
                Some k \<Rightarrow> (T_symbol y, drop k u)
              | None \<Rightarrow> (T_bad y, [])))"

lemma symbol_length_pos: "symbol_length y = Some k \<Longrightarrow> 0 < k"
  by (cases y) auto

lemma symbol_of_integer:
  assumes "symbol_of u = S_integer"
  shows "\<exists>c s. u = c # s \<and> (is_digit c \<or> c = CHR ''-'' \<or> c = CHR ''+'')"
proof (cases u)
  case (Cons c s)
  have "sign_of c \<noteq> Some S_integer" "keyword_of w \<noteq> S_integer" for w
    by (simp_all add: sign_of_def keyword_of_def)
  then show ?thesis
    using assms unfolding Cons by (auto split: if_split_asm option.split_asm)
qed (use assms in simp)

lemma integer_rest:
  assumes "symbol_of u = S_integer"
  shows "length (dropWhile is_digit (drop (integer_sign u) u)) < length u"
proof -
  obtain c s where u: "u = c # s" "is_digit c \<or> c = CHR ''-'' \<or> c = CHR ''+''"
    using symbol_of_integer [OF assms] by blast
  then show ?thesis
    using length_dropWhile_le [of is_digit s] by (auto simp: integer_sign_def less_Suc_eq_le)
qed

lemma token_shorter:
  assumes "next_token s = Some (x, u)" and w: "w = skip_text s"
  shows "length u < length w"
proof -
  have ne: "symbol_of w \<noteq> S_eof"
    using assms by (simp add: next_token_def Let_def split: if_split_asm)
  then obtain c v where cv: "w = c # v"
    by (cases w) simp_all
  consider (name) "symbol_of w = S_identifier" | (string) "symbol_of w = S_string" | (integer) "symbol_of w = S_integer"
    | (other) "symbol_of w \<notin> {S_eof, S_identifier, S_string, S_integer}"
    using ne by blast
  then show ?thesis
  proof cases
    case name
    then have "u = dropWhile is_ident_char w"
      using assms by (simp add: next_token_def Let_def)
    then show ?thesis
      using symbol_of_identifier [OF name] length_dropWhile_le [of is_ident_char v] cv by auto
  next
    case string
    then have "(x, u) = string_token w"
      using assms by (simp add: next_token_def Let_def)
    then show ?thesis
      using literal_shorter [of c v] cv by (auto simp: string_token_def split: option.split_asm)
  next
    case integer
    then have "(x, u) = integer_token w"
      using assms by (simp add: next_token_def Let_def)
    then show ?thesis
      using integer_rest [OF integer] cv by (auto simp: integer_token_def Let_def split: if_split_asm)
  next
    case other
    then show ?thesis
      using assms(1) symbol_of_sized [of w] symbol_length_pos [of "symbol_of w"] cv ne
      unfolding next_token_def w [symmetric] Let_def by (auto split: option.split_asm)
  qed
qed

lemma next_token_shorter: "next_token s = Some (x, u) \<Longrightarrow> length u < length s"
  using token_shorter [OF _ refl] length_skip_text [of s] by fastforce

function tokens :: "string \<Rightarrow> token list" where
  "tokens s = (case next_token s of None \<Rightarrow> [] | Some (x, u) \<Rightarrow> x # tokens u)"
  by pat_completeness auto
termination
  by (relation "measure length") (auto intro: next_token_shorter)

declare tokens.simps [simp del]

text \<open>The symbol the parser sees before a list of tokens.\<close>

fun symbol_of_token :: "token \<Rightarrow> Symbol" where
  "symbol_of_token (T_symbol y) = y"
| "symbol_of_token (T_name x) = S_identifier"
| "symbol_of_token (T_string x) = S_string"
| "symbol_of_token (T_integer i) = S_integer"
| "symbol_of_token (T_bad y) = y"

fun first_symbol :: "token list \<Rightarrow> Symbol" where
  "first_symbol [] = S_eof"
| "first_symbol (x # ts) = symbol_of_token x"

section \<open>Trees without positions\<close>

definition nowhere :: DocumentPosition where
  "nowhere = \<lparr>dp_file = [], dp_line = 0, dp_column = 0\<rparr>"

definition erase_include :: "AstInclude \<Rightarrow> AstInclude" where
  "erase_include i = i\<lparr>in_origin := nowhere\<rparr>"

definition erase_struct_field :: "AstStructField \<Rightarrow> AstStructField" where
  "erase_struct_field f = f\<lparr>sf_origin := nowhere\<rparr>"

definition erase_struct :: "AstStruct \<Rightarrow> AstStruct" where
  "erase_struct d = d\<lparr>st_origin := nowhere, st_fields := map erase_struct_field (st_fields d)\<rparr>"

definition erase_mapping_field :: "AstMappingField \<Rightarrow> AstMappingField" where
  "erase_mapping_field f = f\<lparr>mf_origin := nowhere\<rparr>"

definition erase_mapping :: "AstMapping \<Rightarrow> AstMapping" where
  "erase_mapping d = d\<lparr>mp_origin := nowhere, mp_fields := map erase_mapping_field (mp_fields d)\<rparr>"

primrec erase_node :: "AstEncodingNode \<Rightarrow> AstEncodingNode" where
  "erase_node (AstEncodingField d x e) = AstEncodingField nowhere x e"
| "erase_node (AstEncodingDeltaBlock d ns) = AstEncodingDeltaBlock nowhere (map erase_node ns)"

definition erase_encoding :: "AstEncoding \<Rightarrow> AstEncoding" where
  "erase_encoding d = d\<lparr>en_origin := nowhere, en_fields := map erase_node (en_fields d)\<rparr>"

definition erase_root :: "AstRoot \<Rightarrow> AstRoot" where
  "erase_root t =
     \<lparr>rt_origin = nowhere, rt_includes = map erase_include (rt_includes t), rt_space = rt_space t,
      rt_struct_decls = map erase_struct (rt_struct_decls t), rt_map_decls = map erase_mapping (rt_map_decls t),
      rt_enco_decls = map erase_encoding (rt_enco_decls t)\<rparr>"

section \<open>The grammar\<close>

text \<open>Any number of phrases of one kind.\<close>

inductive g_many :: "(token list \<Rightarrow> 'a \<Rightarrow> bool) \<Rightarrow> token list \<Rightarrow> 'a list \<Rightarrow> bool" for R where
  none: "g_many R [] []"
| more: "R ts x \<Longrightarrow> g_many R us xs \<Longrightarrow> g_many R (ts @ us) (x # xs)"

lemma g_many_mono [mono]: "(\<And>ts x. R ts x \<longrightarrow> Q ts x) \<Longrightarrow> g_many R ts xs \<longrightarrow> g_many Q ts xs"
proof
  assume le: "\<And>ts x. R ts x \<longrightarrow> Q ts x" and "g_many R ts xs"
  from this(2) show "g_many Q ts xs"
    by induction (auto intro: g_many.intros simp: le)
qed

inductive g_qualified :: "token list \<Rightarrow> AstQualifiedIdentifier \<Rightarrow> bool" where
  name: "g_qualified [T_name x] \<lparr>qi_space = [], qi_name = x\<rparr>"
| member: "g_qualified ts q \<Longrightarrow>
    g_qualified (T_name x # T_symbol S_namespace_sep # ts) (q\<lparr>qi_space := x # qi_space q\<rparr>)"

inductive g_type :: "token list \<Rightarrow> AstType \<Rightarrow> bool" where
  single: "g_qualified ts q \<Longrightarrow> g_type ts \<lparr>ty_identifier = q, ty_is_array = False, ty_array_size = None\<rparr>"
| sized: "g_qualified ts q \<Longrightarrow>
    g_type (ts @ [T_symbol S_bracket_open, T_integer i, T_symbol S_bracket_close])
      \<lparr>ty_identifier = q, ty_is_array = True, ty_array_size = Some i\<rparr>"

inductive g_include :: "token list \<Rightarrow> AstInclude \<Rightarrow> bool" where
  "g_include [T_symbol S_include_kw, T_string path] \<lparr>in_origin = nowhere, in_path = path\<rparr>"

inductive g_struct_field :: "token list \<Rightarrow> AstStructField \<Rightarrow> bool" where
  "g_type ts t \<Longrightarrow>
    g_struct_field (T_name x # T_symbol S_colon # ts) \<lparr>sf_origin = nowhere, sf_identifier = x, sf_type = t\<rparr>"

inductive g_struct :: "token list \<Rightarrow> AstStruct \<Rightarrow> bool" where
  "g_many g_struct_field ts fs \<Longrightarrow>
    g_struct (T_symbol S_struct_kw # T_name x # T_symbol S_curly_open # ts @ [T_symbol S_curly_close])
      \<lparr>st_origin = nowhere, st_identifier = x, st_fields = fs\<rparr>"

inductive g_mapping_field :: "token list \<Rightarrow> AstMappingField \<Rightarrow> bool" where
  "g_mapping_field [T_name x, T_symbol S_colon, T_string m] \<lparr>mf_origin = nowhere, mf_identifier = x, mf_mapping_decl = m\<rparr>"

inductive g_mapping :: "token list \<Rightarrow> AstMapping \<Rightarrow> bool" where
  "g_qualified qs q \<Longrightarrow> g_many g_mapping_field ts fs \<Longrightarrow>
    g_mapping (T_symbol S_mapping_kw # T_name x # T_symbol S_colon # qs
        @ T_symbol S_curly_open # ts @ [T_symbol S_curly_close])
      \<lparr>mp_origin = nowhere, mp_struct_id = x, mp_map_category = q, mp_fields = fs\<rparr>"

inductive g_encoding_name :: "token list \<Rightarrow> AstIdentifier \<Rightarrow> bool" where
  omitted: "g_encoding_name [] DEFAULT_ENCODING"
| named: "g_encoding_name [T_symbol S_colon, T_name e] e"

inductive g_node :: "token list \<Rightarrow> AstEncodingNode \<Rightarrow> bool" where
  field: "g_encoding_name ts e \<Longrightarrow> g_node (T_name x # ts) (AstEncodingField nowhere x e)"
| delta_field: "g_encoding_name ts e \<Longrightarrow>
    g_node (T_symbol S_delta_kw # T_name x # ts) (AstEncodingDeltaBlock nowhere [AstEncodingField nowhere x e])"
| delta_block: "g_many g_node ts ns \<Longrightarrow>
    g_node (T_symbol S_delta_kw # T_symbol S_curly_open # ts @ [T_symbol S_curly_close]) (AstEncodingDeltaBlock nowhere ns)"

inductive g_encoding :: "token list \<Rightarrow> AstEncoding \<Rightarrow> bool" where
  "g_encoding_name es e \<Longrightarrow> g_many g_node ts ns \<Longrightarrow>
    g_encoding (T_symbol S_encoding_kw # T_name x # es @ T_symbol S_curly_open # ts @ [T_symbol S_curly_close])
      \<lparr>en_origin = nowhere, en_struct_id = x, en_enco_id = e, en_fields = ns\<rparr>"

inductive g_namespace :: "token list \<Rightarrow> AstQualifiedIdentifier \<Rightarrow> bool" where
  global: "g_namespace [] \<lparr>qi_space = [], qi_name = []\<rparr>"
| inside: "g_qualified ts q \<Longrightarrow> g_namespace (T_symbol S_namespace_kw # ts) q"

text \<open>Declarations of the three kinds, in any order.\<close>

inductive g_decls :: "token list \<Rightarrow> AstStruct list \<Rightarrow> AstMapping list \<Rightarrow> AstEncoding list \<Rightarrow> bool" where
  no_decl: "g_decls [] [] [] []"
| struct_decl: "g_struct ts d \<Longrightarrow> g_decls us ss ms es \<Longrightarrow> g_decls (ts @ us) (d # ss) ms es"
| map_decl: "g_mapping ts d \<Longrightarrow> g_decls us ss ms es \<Longrightarrow> g_decls (ts @ us) ss (d # ms) es"
| enco_decl: "g_encoding ts d \<Longrightarrow> g_decls us ss ms es \<Longrightarrow> g_decls (ts @ us) ss ms (d # es)"

inductive g_document :: "token list \<Rightarrow> AstRoot \<Rightarrow> bool" where
  "g_many g_include is incs \<Longrightarrow> g_namespace ns q \<Longrightarrow> g_decls ds ss ms es \<Longrightarrow>
    g_document (is @ ns @ ds)
      \<lparr>rt_origin = nowhere, rt_includes = incs, rt_space = q, rt_struct_decls = ss, rt_map_decls = ms, rt_enco_decls = es\<rparr>"

end
