(* ===== verification/HappyWp.thy ===== *)
theory HappyWp
  imports HappyGrammar
begin

text \<open>
  Proof rules for running the parser on the tokens of a text. \<open>at p ts\<close>: the tokens \<open>ts\<close> are unread in
  the state \<open>p\<close>. \<open>wlp\<close> is the weakest liberal precondition of a computation, \<open>comes\<close> the weakest
  precondition of a family of computations for all large fuels. The functions of the lexer get one
  rule for either.
\<close>

section \<open>Tokens and symbols\<close>

lemma tokens_skip [simp]: "tokens (skip_text s) = tokens s"
  by (simp add: tokens.simps [of s] tokens.simps [of "skip_text s"] next_token_def)

lemma next_token_eof: "next_token s = None \<longleftrightarrow> symbol_of (skip_text s) = S_eof"
  by (simp add: next_token_def Let_def)

lemma tokens_Cons: "next_token s = Some (x, u) \<Longrightarrow> tokens s = x # tokens u"
  by (simp add: tokens.simps [of s])

lemma tokens_name:
  "symbol_of (skip_text s) = S_identifier \<Longrightarrow>
    tokens s = T_name (takeWhile is_ident_char (skip_text s)) # tokens (dropWhile is_ident_char (skip_text s))"
  by (rule tokens_Cons) (simp add: next_token_def Let_def)

lemma tokens_string:
  assumes "symbol_of (skip_text s) = S_string" and "skip_text s = d # v"
  shows "literal d v = Some (r, u) \<Longrightarrow> tokens s = T_string r # tokens u"
    and "literal d v = None \<Longrightarrow> tokens s = T_bad S_string # tokens []"
  using assms by (auto intro!: tokens_Cons simp: next_token_def string_token_def)

lemma tokens_integer:
  assumes "symbol_of (skip_text s) = S_integer" and "t = skip_text s"
    and "v = decimal (takeWhile is_digit (drop (integer_sign t) t))"
  shows "tokens s = (if v \<le> int64_max
      then T_integer (if char_at t 0 = CHR ''-'' then - v else v) # tokens (dropWhile is_digit (drop (integer_sign t) t))
      else T_bad S_integer # tokens [])"
proof -
  have "next_token s = Some (integer_token t)"
    using assms(1,2) by (simp add: next_token_def)
  then show ?thesis
    by (simp add: tokens_Cons integer_token_def Let_def assms(3))
qed

lemma tokens_symbol:
  assumes "symbol_of (skip_text s) = y" and "symbol_length y = Some k"
  shows "tokens s = T_symbol y # tokens (drop k (skip_text s))"
  using assms by (intro tokens_Cons) (cases y; simp add: next_token_def)

lemma first_symbol_tokens: "first_symbol (tokens s) = symbol_of (skip_text s)"
proof (cases "next_token s")
  case None
  then show ?thesis
    using next_token_eof [of s] by (simp add: tokens.simps [of s])
next
  case (Some xu)
  then obtain x u where xu: "next_token s = Some (x, u)"
    by (cases xu) simp
  then have "symbol_of_token x = symbol_of (skip_text s)"
    by (auto simp: next_token_def Let_def string_token_def integer_token_def
        split: if_split_asm option.split_asm)
  then show ?thesis
    by (simp add: tokens_Cons [OF xu])
qed

text \<open>The token for a symbol that the parser can skip.\<close>

lemma tokens_first_symbol:
  assumes "first_symbol (tokens s) = y" and "symbol_length y = Some k"
  shows "\<exists>r. tokens s = T_symbol y # r"
  using tokens_symbol [of s y k] assms by (simp add: first_symbol_tokens)

section \<open>Preconditions\<close>

definition wlp :: "('s, 'a) parse \<Rightarrow> 's \<Rightarrow> ('a \<Rightarrow> 's \<Rightarrow> bool) \<Rightarrow> bool" where
  "wlp m p P \<longleftrightarrow> (\<forall>x q. m p = Some (Inr (x, q)) \<longrightarrow> P x q)"

definition comes :: "(nat \<Rightarrow> ('s, 'a) parse) \<Rightarrow> 's \<Rightarrow> ('a \<Rightarrow> 's \<Rightarrow> bool) \<Rightarrow> bool" where
  "comes m p P \<longleftrightarrow> (\<exists>x q n0. (\<forall>n \<ge> n0. m n p = Some (Inr (x, q))) \<and> P x q)"

lemma wlp_bind: "wlp m p (\<lambda>x q. wlp (f x) q P) \<Longrightarrow> wlp (pbind m f) p P"
  by (auto simp: wlp_def pbind_def split: option.split_asm sum.split_asm)

lemma wlp_return: "P a p \<Longrightarrow> wlp (preturn a) p P"
  by (simp add: wlp_def)

lemma wlp_none: "wlp (\<lambda>p. None) p P"
  by (simp add: wlp_def)

lemma wlp_mono: "wlp m p P \<Longrightarrow> (\<And>x q. P x q \<Longrightarrow> Q x q) \<Longrightarrow> wlp m p Q"
  by (simp add: wlp_def)

lemma wlp_position: "(\<And>d. P d p) \<Longrightarrow> wlp current_position p P"
  by (simp add: wlp_def current_position_def)

lemma comes_bind:
  assumes "comes m p (\<lambda>x q. comes (\<lambda>n. f n x) q P)"
  shows "comes (\<lambda>n. pbind (m n) (f n)) p P"
proof -
  obtain x q n0 y q' n1 where "\<forall>n \<ge> n0. m n p = Some (Inr (x, q))" "\<forall>n \<ge> n1. f n x q = Some (Inr (y, q'))" "P y q'"
    using assms unfolding comes_def by blast
  then have "\<forall>n \<ge> max n0 n1. pbind (m n) (f n) p = Some (Inr (y, q'))"
    by simp
  with \<open>P y q'\<close> show ?thesis
    unfolding comes_def by blast
qed

lemma comes_return: "P a p \<Longrightarrow> comes (\<lambda>n. preturn a) p P"
  by (auto simp: comes_def)

lemma comes_position: "(\<And>d. P d p) \<Longrightarrow> comes (\<lambda>n. current_position) p P"
  by (auto simp: comes_def current_position_def)

lemma comes_mono: "comes m p P \<Longrightarrow> (\<And>x q. P x q \<Longrightarrow> Q x q) \<Longrightarrow> comes m p Q"
  unfolding comes_def by blast

text \<open>One unit of fuel more or less makes no difference for large fuels.\<close>

lemma comes_Suc: "comes (\<lambda>n. m (Suc n)) p P \<Longrightarrow> comes m p P"
proof -
  assume "comes (\<lambda>n. m (Suc n)) p P"
  then obtain x q n0 where n0: "\<forall>n \<ge> n0. m (Suc n) p = Some (Inr (x, q))" "P x q"
    unfolding comes_def by blast
  have "m n p = Some (Inr (x, q))" if "Suc n0 \<le> n" for n
    using that n0(1) by (cases n) auto
  then show "comes m p P"
    using n0(2) unfolding comes_def by blast
qed

lemma comes_pred: "comes m p P \<Longrightarrow> comes (\<lambda>n. m (Suc n)) p P"
  unfolding comes_def by (meson le_Suc_eq)

section \<open>The lexer on tokens\<close>

context stream_reader
begin

definition at :: "'r Parser \<Rightarrow> token list \<Rightarrow> bool" where
  "at p ts \<longleftrightarrow> coherent p \<and> tokens (unread rest p) = ts"

lemma fresh_at: "fresh q u \<Longrightarrow> at q (tokens u)"
  using fresh_coherent by (auto simp: at_def fresh_def)

lemma at_symbol_at: "at_symbol q (skip_text s) \<Longrightarrow> at q (tokens s)"
  using at_symbol_coherent by (auto simp: at_def at_symbol_def)

lemma fuel_comes:
  assumes "\<And>n'. n \<le> n' \<Longrightarrow> below (m n) (m n')" and "m n p = Some (Inr (x, q))" and "P x q"
  shows "comes m p P"
proof -
  have "m k p = Some (Inr (x, q))" if "n \<le> k" for k
    using below_D [OF assms(1) [OF that], of p] assms(2) by simp
  then show ?thesis
    using assms(3) unfolding comes_def by blast
qed

lemma fuel_wlp:
  assumes "\<And>n'. n \<le> n' \<Longrightarrow> below (m n) (m n')" and "\<And>k. length (unread rest p) < k \<Longrightarrow> wlp (m k) p P"
  shows "wlp (m n) p P"
proof -
  define k where "k = max n (Suc (length (unread rest p)))"
  have "m k p = m n p" if "m n p \<noteq> None"
    using below_D [OF assms(1), of k p] that by (simp add: k_def)
  moreover have "wlp (m k) p P"
    by (rule assms(2)) (simp add: k_def)
  ultimately show ?thesis
    by (auto simp: wlp_def)
qed

text \<open>Looking at the next symbol.\<close>

lemma peek_tokens:
  assumes "at p ts" and "length (unread rest p) < n"
  shows "\<exists>q. peek_symbol n p = Some (Inr (first_symbol ts, q)) \<and> at q ts"
  using peek_symbol_text [of p n] assms at_symbol_at by (fastforce simp: at_def first_symbol_tokens)

lemma wlp_peek:
  assumes "at p ts" and "\<And>q. at q ts \<Longrightarrow> P (first_symbol ts) q"
  shows "wlp (peek_symbol n) p P"
proof (rule fuel_wlp)
  show "wlp (peek_symbol k) p P" if "length (unread rest p) < k" for k
    using peek_tokens [OF assms(1) that] assms(2) by (auto simp: wlp_def)
qed (rule peek_symbol_below)

lemma comes_peek:
  assumes "at p ts" and "\<And>q. at q ts \<Longrightarrow> P (first_symbol ts) q"
  shows "comes peek_symbol p P"
proof -
  obtain q where q: "peek_symbol (Suc (length (unread rest p))) p = Some (Inr (first_symbol ts, q))" "at q ts"
    using peek_tokens [OF assms(1) lessI] by blast
  show ?thesis
    by (rule fuel_comes [where m = peek_symbol, OF _ q(1)]) (simp_all add: peek_symbol_below assms(2) q(2))
qed

text \<open>\<open>lexes m f\<close>: \<open>m\<close> reads a token of the form \<open>f x\<close> and returns \<open>x\<close>; before other tokens it returns nothing.\<close>

definition lexes :: "(nat \<Rightarrow> ('r Parser, 'a) parse) \<Rightarrow> ('a \<Rightarrow> token) \<Rightarrow> bool" where
  "lexes m f \<longleftrightarrow> inj f \<and> (\<forall>n n'. n \<le> n' \<longrightarrow> below (m n) (m n'))
     \<and> (\<forall>p ts n. at p ts \<and> length (unread rest p) < n \<longrightarrow>
          (\<exists>x r q. ts = f x # r \<and> m n p = Some (Inr (x, q)) \<and> at q r)
          \<or> (\<forall>x r. ts \<noteq> f x # r) \<and> (\<forall>x q. m n p \<noteq> Some (Inr (x, q))))"

lemma wlp_lexes:
  assumes "lexes m f" and "at p ts" and "\<And>x r q. ts = f x # r \<Longrightarrow> at q r \<Longrightarrow> P x q"
  shows "wlp (m n) p P"
proof (rule fuel_wlp)
  fix k
  assume "length (unread rest p) < k"
  then have "(\<exists>x r q. ts = f x # r \<and> m k p = Some (Inr (x, q)) \<and> at q r) \<or> (\<forall>x q. m k p \<noteq> Some (Inr (x, q)))"
    using assms(1,2) unfolding lexes_def by blast
  then show "wlp (m k) p P"
    using assms(3) by (auto simp: wlp_def)
qed (use assms(1) in \<open>simp add: lexes_def\<close>)

lemma comes_lexes:
  assumes "lexes m f" and "at p (f x # r)" and "\<And>q. at q r \<Longrightarrow> P x q"
  shows "comes m p P"
proof -
  let ?n = "Suc (length (unread rest p))"
  obtain x' q where q: "f x' = f x" "m ?n p = Some (Inr (x', q))" "at q r"
    using assms(1,2) unfolding lexes_def by (metis lessI list.inject)
  have "x' = x"
    using q(1) assms(1) by (simp add: lexes_def inj_eq)
  show ?thesis
    by (rule fuel_comes [where m = m, OF _ q(2)]) (use assms q(3) \<open>x' = x\<close> in \<open>simp_all add: lexes_def\<close>)
qed

text \<open>It is enough to compare the parser's function with the tokens of the text.\<close>

lemma lexesI:
  assumes "inj f" and "\<And>n n'. n \<le> n' \<Longrightarrow> below (m n) (m n')" and "\<And>x. symbol_of_token (f x) = y"
    and wrong: "\<And>p n. coherent p \<Longrightarrow> length (unread rest p) < n \<Longrightarrow> symbol_of (skip_text (unread rest p)) \<noteq> y \<Longrightarrow>
      \<exists>d e. m n p = Some (Inl (ParseException d e))"
    and right: "\<And>p n. coherent p \<Longrightarrow> length (unread rest p) < n \<Longrightarrow> symbol_of (skip_text (unread rest p)) = y \<Longrightarrow>
      (\<exists>x u q. tokens (unread rest p) = f x # tokens u \<and> m n p = Some (Inr (x, q)) \<and> fresh q u)
      \<or> (\<forall>x r. tokens (unread rest p) \<noteq> f x # r) \<and> (\<forall>x q. m n p \<noteq> Some (Inr (x, q)))"
  shows "lexes m f"
  unfolding lexes_def
proof (intro conjI allI impI)
  fix p ts n
  assume "at p ts \<and> length (unread rest p) < n"
  then have p: "coherent p" "tokens (unread rest p) = ts" "length (unread rest p) < n"
    by (simp_all add: at_def)
  show "(\<exists>x r q. ts = f x # r \<and> m n p = Some (Inr (x, q)) \<and> at q r)
      \<or> (\<forall>x r. ts \<noteq> f x # r) \<and> (\<forall>x q. m n p \<noteq> Some (Inr (x, q)))"
  proof (cases "symbol_of (skip_text (unread rest p)) = y")
    case True
    then show ?thesis
      using right [OF p(1,3)] p(2) fresh_at by metis
  next
    case False
    then have "ts \<noteq> f x # r" for x r
      using first_symbol_tokens [of "unread rest p"] p(2) assms(3) by auto
    then show ?thesis
      using wrong [OF p(1,3) False] by auto
  qed
qed (use assms(1,2) in auto)

lemma parse_symbol_lexes:
  assumes "symbol_length y = Some k"
  shows "lexes (\<lambda>n. parse_symbol n y) (\<lambda>u. T_symbol y)"
proof (rule lexesI [of _ _ y])
  fix p n
  assume p: "coherent p" "length (unread rest p) < n" and y: "symbol_of (skip_text (unread rest p)) = y"
  then show "(\<exists>x u q. tokens (unread rest p) = T_symbol y # tokens u \<and> parse_symbol n y p = Some (Inr (x, q)) \<and> fresh q u)
      \<or> (\<forall>x r. tokens (unread rest p) \<noteq> T_symbol y # r) \<and> (\<forall>x q. parse_symbol n y p \<noteq> Some (Inr (x, q)))"
    using parse_symbol_ok [OF p y assms] tokens_symbol [OF y assms] by blast
qed (simp_all add: inj_def parse_symbol_below parse_symbol_error)

lemma parse_identifier_lexes: "lexes parse_identifier T_name"
proof (rule lexesI [of _ _ S_identifier])
  fix p n
  assume p: "coherent p" "length (unread rest p) < n" and y: "symbol_of (skip_text (unread rest p)) = S_identifier"
  then show "(\<exists>x u q. tokens (unread rest p) = T_name x # tokens u \<and> parse_identifier n p = Some (Inr (x, q)) \<and> fresh q u)
      \<or> (\<forall>x r. tokens (unread rest p) \<noteq> T_name x # r) \<and> (\<forall>x q. parse_identifier n p \<noteq> Some (Inr (x, q)))"
    using parse_identifier_ok [OF p refl y] tokens_name [OF y] by blast
qed (simp_all add: inj_def parse_identifier_below parse_identifier_error)

lemma parse_string_lexes: "lexes parse_string T_string"
proof (rule lexesI [of _ _ S_string])
  fix p n
  assume p: "coherent p" "length (unread rest p) < n" and y: "symbol_of (skip_text (unread rest p)) = S_string"
  then obtain d s where ds: "skip_text (unread rest p) = d # s"
    by (cases "skip_text (unread rest p)") auto
  show "(\<exists>x u q. tokens (unread rest p) = T_string x # tokens u \<and> parse_string n p = Some (Inr (x, q)) \<and> fresh q u)
      \<or> (\<forall>x r. tokens (unread rest p) \<noteq> T_string x # r) \<and> (\<forall>x q. parse_string n p \<noteq> Some (Inr (x, q)))"
    using parse_string_ok [OF p ds] parse_string_diverges [OF p ds] tokens_string [OF y ds] y ds
    by (cases "literal d s") fastforce+
qed (simp_all add: inj_def parse_string_below parse_string_error)

lemma parse_integer_lexes: "lexes parse_integer T_integer"
proof (rule lexesI [of _ _ S_integer])
  fix p n
  assume p: "coherent p" "length (unread rest p) < n" and y: "symbol_of (skip_text (unread rest p)) = S_integer"
  define t where "t = skip_text (unread rest p)"
  define v where "v = decimal (takeWhile is_digit (drop (integer_sign t) t))"
  note result = parse_integer_text [OF p t_def y [folded t_def] integer_sign_def v_def]
    and tok = tokens_integer [OF y t_def v_def]
  show "(\<exists>x u q. tokens (unread rest p) = T_integer x # tokens u \<and> parse_integer n p = Some (Inr (x, q)) \<and> fresh q u)
      \<or> (\<forall>x r. tokens (unread rest p) \<noteq> T_integer x # r) \<and> (\<forall>x q. parse_integer n p \<noteq> Some (Inr (x, q)))"
  proof (cases "v \<le> int64_max")
    case True
    then show ?thesis
      using result tok by (simp only: if_True) blast
  next
    case False
    then show ?thesis
      using result tok by simp
  qed
qed (simp_all add: inj_def parse_integer_below parse_integer_error)

lemmas wlp_name = wlp_lexes [OF parse_identifier_lexes]
lemmas wlp_string = wlp_lexes [OF parse_string_lexes]
lemmas wlp_integer = wlp_lexes [OF parse_integer_lexes]
lemmas comes_name = comes_lexes [OF parse_identifier_lexes]
lemmas comes_string = comes_lexes [OF parse_string_lexes]
lemmas comes_integer = comes_lexes [OF parse_integer_lexes]

lemma wlp_symbol:
  "at p ts \<Longrightarrow> symbol_length y = Some k \<Longrightarrow> (\<And>r q. ts = T_symbol y # r \<Longrightarrow> at q r \<Longrightarrow> P () q) \<Longrightarrow> wlp (parse_symbol n y) p P"
  by (erule wlp_lexes [OF parse_symbol_lexes]) simp_all

lemma comes_symbol:
  "at p (T_symbol y # r) \<Longrightarrow> symbol_length y = Some k \<Longrightarrow> (\<And>q. at q r \<Longrightarrow> P () q) \<Longrightarrow> comes (\<lambda>n. parse_symbol n y) p P"
  by (erule comes_lexes [OF parse_symbol_lexes, rotated]) simp_all

end

end
