(* ===== verification/HappyDerive.thy ===== *)
theory HappyDerive
  imports HappyWp
begin

text \<open>
  Soundness of the parser: what it reads is a phrase of the grammar for the tree it returns. Each rule
  of the grammar is one lemma (\<open>derives\<close>), for any fuel.
\<close>

section \<open>Phrases\<close>

text \<open>The rules of the grammar for nodes with a position that is erased.\<close>

lemma g_include_erased: "g_include [T_symbol S_include_kw, T_string path] (erase_include \<lparr>in_origin = d, in_path = path\<rparr>)"
  by (simp add: erase_include_def g_include.intros)

lemma g_struct_field_erased:
  "g_type ts t \<Longrightarrow> g_struct_field (T_name x # T_symbol S_colon # ts)
    (erase_struct_field \<lparr>sf_origin = d, sf_identifier = x, sf_type = t\<rparr>)"
  by (simp add: erase_struct_field_def g_struct_field.intros)

lemma g_mapping_field_erased:
  "g_mapping_field [T_name x, T_symbol S_colon, T_string m]
    (erase_mapping_field \<lparr>mf_origin = d, mf_identifier = x, mf_mapping_decl = m\<rparr>)"
  by (simp add: erase_mapping_field_def g_mapping_field.intros)

lemma g_struct_erased:
  "g_many g_struct_field ts (map erase_struct_field fs) \<Longrightarrow>
    g_struct (T_symbol S_struct_kw # T_name x # T_symbol S_curly_open # ts @ [T_symbol S_curly_close])
      (erase_struct \<lparr>st_origin = d, st_identifier = x, st_fields = fs\<rparr>)"
  by (simp add: erase_struct_def g_struct.intros)

lemma g_mapping_erased:
  "g_qualified qs q \<Longrightarrow> g_many g_mapping_field ts (map erase_mapping_field fs) \<Longrightarrow>
    g_mapping (T_symbol S_mapping_kw # T_name x # T_symbol S_colon # qs
        @ T_symbol S_curly_open # ts @ [T_symbol S_curly_close])
      (erase_mapping \<lparr>mp_origin = d, mp_struct_id = x, mp_map_category = q, mp_fields = fs\<rparr>)"
  by (simp add: erase_mapping_def g_mapping.intros)

lemma g_encoding_erased:
  "g_encoding_name es e \<Longrightarrow> g_many g_node ts (map erase_node ns) \<Longrightarrow>
    g_encoding (T_symbol S_encoding_kw # T_name x # es @ T_symbol S_curly_open # ts @ [T_symbol S_curly_close])
      (erase_encoding \<lparr>en_origin = d, en_struct_id = x, en_enco_id = e, en_fields = ns\<rparr>)"
  by (simp add: erase_encoding_def g_encoding.intros)

text \<open>After \<open>DELTA\<close> a name can only begin a single field.\<close>

lemma g_node_delta:
  assumes "g_node us y" and "first_symbol (us @ r) = S_identifier"
  shows "g_node (T_symbol S_delta_kw # us) (AstEncodingDeltaBlock nowhere [y])"
  using assms(1)
proof cases
  case (field ts e x)
  then show ?thesis
    by (simp add: g_node.delta_field)
qed (use assms(2) in simp_all)

lemma g_many_snoc: "g_many R ts xs \<Longrightarrow> R us x \<Longrightarrow> g_many R (ts @ us) (xs @ [x])"
proof (induction rule: g_many.induct)
  case none
  then show ?case
    using g_many.more [of R us x, OF none g_many.none] by simp
next
  case (more ts y vs ys)
  then show ?case
    using g_many.more [of R ts y "vs @ us"] by simp
qed

text \<open>Declarations: the lists of the node grow by those of the rest of the text, which ends there.\<close>

definition declared :: "token list \<Rightarrow> AstRoot \<Rightarrow> AstRoot \<Rightarrow> bool" where
  "declared ts node t \<longleftrightarrow> (\<exists>ss ms es. g_decls ts (map erase_struct ss) (map erase_mapping ms) (map erase_encoding es)
     \<and> t = node\<lparr>rt_struct_decls := rt_struct_decls node @ ss, rt_map_decls := rt_map_decls node @ ms,
               rt_enco_decls := rt_enco_decls node @ es\<rparr>)"

lemma declared_none: "declared [] node node"
  unfolding declared_def by (intro exI [of _ "[]"]) (simp add: g_decls.no_decl)

lemma declared_struct:
  assumes "g_struct us (erase_struct d)" and "declared r (node\<lparr>rt_struct_decls := rt_struct_decls node @ [d]\<rparr>) t"
  shows "declared (us @ r) node t"
proof -
  obtain ss ms es where "g_decls r (map erase_struct ss) (map erase_mapping ms) (map erase_encoding es)"
    "t = node\<lparr>rt_struct_decls := rt_struct_decls node @ d # ss, rt_map_decls := rt_map_decls node @ ms,
      rt_enco_decls := rt_enco_decls node @ es\<rparr>"
    using assms(2) by (auto simp: declared_def)
  then show ?thesis
    unfolding declared_def using g_decls.struct_decl [OF assms(1)] by (intro exI [of _ "d # ss"] exI) auto
qed

lemma declared_mapping:
  assumes "g_mapping us (erase_mapping d)" and "declared r (node\<lparr>rt_map_decls := rt_map_decls node @ [d]\<rparr>) t"
  shows "declared (us @ r) node t"
proof -
  obtain ss ms es where "g_decls r (map erase_struct ss) (map erase_mapping ms) (map erase_encoding es)"
    "t = node\<lparr>rt_struct_decls := rt_struct_decls node @ ss, rt_map_decls := rt_map_decls node @ d # ms,
      rt_enco_decls := rt_enco_decls node @ es\<rparr>"
    using assms(2) by (auto simp: declared_def)
  then show ?thesis
    unfolding declared_def using g_decls.map_decl [OF assms(1)] by (intro exI [of _ ss] exI [of _ "d # ms"] exI) auto
qed

lemma declared_encoding:
  assumes "g_encoding us (erase_encoding d)" and "declared r (node\<lparr>rt_enco_decls := rt_enco_decls node @ [d]\<rparr>) t"
  shows "declared (us @ r) node t"
proof -
  obtain ss ms es where "g_decls r (map erase_struct ss) (map erase_mapping ms) (map erase_encoding es)"
    "t = node\<lparr>rt_struct_decls := rt_struct_decls node @ ss, rt_map_decls := rt_map_decls node @ ms,
      rt_enco_decls := rt_enco_decls node @ d # es\<rparr>"
    using assms(2) by (auto simp: declared_def)
  then show ?thesis
    unfolding declared_def using g_decls.enco_decl [OF assms(1)] by (intro exI [of _ ss] exI [of _ ms] exI [of _ "d # es"]) auto
qed

section \<open>Soundness\<close>

context stream_reader
begin

lemma wlp_if: "(b \<Longrightarrow> wlp m p P) \<Longrightarrow> (\<not> b \<Longrightarrow> wlp m' p P) \<Longrightarrow> wlp (if b then m else m') p P"
  by simp

lemmas wb_position = wlp_bind [OF wlp_position]
lemmas wb_peek = wlp_bind [OF wlp_peek]
lemmas wb_symbol = wlp_bind [OF wlp_symbol]
lemmas wb_name = wlp_bind [OF wlp_name]
lemmas wb_string = wlp_bind [OF wlp_string]
lemmas wb_integer = wlp_bind [OF wlp_integer]

lemma wlp_unexpected_in: "at p ts \<Longrightarrow> wlp (unexpected_in n ctx) p P"
  unfolding unexpected_in_def throw_at_def
  by (rule wb_peek, assumption, rule wb_position) (simp add: wlp_def)

text \<open>
  \<open>phrase R e ts x q\<close>: between the tokens \<open>ts\<close> and the state \<open>q\<close> there is a phrase of the grammar for the
  tree \<open>x\<close>; \<open>e\<close> erases positions. \<open>derives m e R\<close>: all that \<open>m\<close> returns are such trees.
\<close>

definition phrase :: "(token list \<Rightarrow> 'b \<Rightarrow> bool) \<Rightarrow> ('a \<Rightarrow> 'b) \<Rightarrow> token list \<Rightarrow> 'a \<Rightarrow> 'r Parser \<Rightarrow> bool" where
  "phrase R e ts x q \<longleftrightarrow> (\<exists>us r. R us (e x) \<and> at q r \<and> ts = us @ r)"

definition derives :: "(nat \<Rightarrow> ('r Parser, 'a) parse) \<Rightarrow> ('a \<Rightarrow> 'b) \<Rightarrow> (token list \<Rightarrow> 'b \<Rightarrow> bool) \<Rightarrow> bool" where
  "derives m e R \<longleftrightarrow> (\<forall>n p ts. at p ts \<longrightarrow> wlp (m n) p (phrase R e ts))"

lemma phraseI: "R us (e x) \<Longrightarrow> at q r \<Longrightarrow> ts = us @ r \<Longrightarrow> phrase R e ts x q"
  unfolding phrase_def by blast

lemma phraseE:
  assumes "phrase R e ts x q"
  obtains us r where "R us (e x)" and "at q r" and "ts = us @ r"
  using assms unfolding phrase_def by blast

lemma derivesI: "(\<And>n p ts. at p ts \<Longrightarrow> wlp (m n) p (phrase R e ts)) \<Longrightarrow> derives m e R"
  by (simp add: derives_def)

lemma wlp_derives:
  assumes "derives m e R" and "at p ts" and "\<And>us r x q. R us (e x) \<Longrightarrow> at q r \<Longrightarrow> ts = us @ r \<Longrightarrow> P x q"
  shows "wlp (m n) p P"
  by (rule wlp_mono [of _ _ "phrase R e ts"]) (use assms in \<open>auto simp: derives_def elim: phraseE\<close>)

lemmas wb_derives = wlp_bind [OF wlp_derives]

lemma qualified_loop_wlp:
  assumes "at p ts"
  shows "wlp (qualified_loop n sp tmp) p (\<lambda>x q. \<exists>us r q0. g_qualified (T_name tmp # us) q0 \<and> ts = us @ r \<and> at q r
    \<and> x = q0\<lparr>qi_space := sp @ qi_space q0\<rparr>)"
  using assms
proof (induction n arbitrary: p ts sp tmp)
  case (Suc n)
  let ?Q = "\<lambda>x q. \<exists>us r q0. g_qualified (T_name tmp # us) q0 \<and> ts = us @ r \<and> at q r \<and> x = q0\<lparr>qi_space := sp @ qi_space q0\<rparr>"
  have step: "wlp (qualified_loop n (sp @ [tmp]) x) q ?Q"
    if "at q r" "ts = T_symbol S_namespace_sep # T_name x # r" for x q r
  proof (rule wlp_mono [OF Suc.IH [OF that(1)]])
    fix y q'
    assume "\<exists>us r' q0. g_qualified (T_name x # us) q0 \<and> r = us @ r' \<and> at q' r' \<and> y = q0\<lparr>qi_space := (sp @ [tmp]) @ qi_space q0\<rparr>"
    then obtain us r' q0 where us: "g_qualified (T_name x # us) q0" "r = us @ r'" "at q' r'"
      "y = q0\<lparr>qi_space := (sp @ [tmp]) @ qi_space q0\<rparr>"
      by blast
    show "?Q y q'"
      using g_qualified.member [OF us(1), of tmp] us(2-) that(2)
      by (intro exI [of _ "T_symbol S_namespace_sep # T_name x # us"] exI [of _ r'] exI [of _ "q0\<lparr>qi_space := tmp # qi_space q0\<rparr>"]) simp
  qed
  have stop: "?Q \<lparr>qi_space = sp, qi_name = tmp\<rparr> q" if "at q ts" for q
    using g_qualified.name [of tmp] that
    by (intro exI [of _ "[]"] exI [of _ ts] exI [of _ "\<lparr>qi_space = [], qi_name = tmp\<rparr>"]) simp
  show ?case
    unfolding qualified_loop.simps
    by (rule wb_peek [OF Suc.prems(1)], rule wlp_if, erule wb_symbol, simp, erule wb_name, erule step, simp)
      (rule wlp_return, erule stop)
qed (simp add: wlp_none)

lemma qualified_derives: "derives parse_qualified_identifier id g_qualified"
  unfolding parse_qualified_identifier_def
proof (rule derivesI, erule wb_name)
  fix n p ts x r q
  assume "at q r" and ts: "ts = T_name x # r"
  then show "wlp (qualified_loop n [] x) q (phrase g_qualified id ts)"
    by (intro wlp_mono [OF qualified_loop_wlp]) (force simp: phrase_def)+
qed

lemmas wb_qualified = wb_derives [OF qualified_derives]

lemma type_derives: "derives parse_type id g_type"
  unfolding parse_type_def
  by (rule derivesI, erule wb_qualified, erule wb_peek, rule wlp_if, erule wb_symbol, simp, erule wb_integer, erule wb_symbol, simp,
      rule wlp_return, rule phraseI)
    (simp, erule g_type.sized, assumption, simp, rule wlp_return, rule phraseI, simp, erule g_type.single, assumption, simp)

lemmas wb_type = wb_derives [OF type_derives]

lemma include_derives: "derives parse_include erase_include g_include"
  unfolding parse_include_def
  by (rule derivesI, rule wb_position, erule wb_symbol, simp, erule wb_string, rule wlp_return)
    (rule phraseI, rule g_include_erased, assumption, simp)

lemma struct_field_derives: "derives parse_struct_field erase_struct_field g_struct_field"
  unfolding parse_struct_field_def
  by (rule derivesI, rule wb_position, erule wb_name, erule wb_symbol, simp, erule wb_type, rule wlp_return)
    (rule phraseI, simp, erule g_struct_field_erased, assumption, simp)

lemma mapping_field_derives: "derives parse_mapping_field erase_mapping_field g_mapping_field"
  unfolding parse_mapping_field_def
  by (rule derivesI, rule wb_position, erule wb_name, erule wb_symbol, simp, erule wb_string, rule wlp_return)
    (rule phraseI, rule g_mapping_field_erased, assumption, simp)

text \<open>The loop over the fields of a declaration.\<close>

lemma longer_phrase:
  "phrase (\<lambda>us'. g_many R ((us0 @ us) @ us')) e r xs q \<Longrightarrow> ts = us @ r \<Longrightarrow> phrase (\<lambda>us'. g_many R (us0 @ us')) e ts xs q"
  unfolding phrase_def by (metis append.assoc)

lemma until_close_wlp:
  assumes item: "derives item e R" and "at p ts" and "g_many R us0 (map e acc)"
  shows "wlp (until_close n item acc) p (phrase (\<lambda>us. g_many R (us0 @ us)) (map e) ts)"
  using assms(2,3)
proof (induction n arbitrary: p ts us0 acc)
  case (Suc n)
  let ?Q = "phrase (\<lambda>us. g_many R (us0 @ us)) (map e) ts"
  have step: "wlp (until_close n item (acc @ [x])) q ?Q" if "R us (e x)" "at q r" "ts = us @ r" for us r x q
    using g_many_snoc [OF Suc.prems(2) that(1)]
    by (intro wlp_mono [OF Suc.IH [OF that(2), of "us0 @ us"]]) (simp, rule longer_phrase [OF _ that(3)])
  have stop: "?Q acc q" if "at q ts" for q
    using Suc.prems(2) that by (intro phraseI [of _ "[]"]) simp_all
  show ?case
    unfolding until_close.simps
    by (rule wb_peek [OF Suc.prems(1)], rule wlp_if, erule wb_derives [OF item], erule (2) step)
      (rule wlp_return, erule stop)
qed (simp add: wlp_none)

lemma fields_derives: "derives item e R \<Longrightarrow> derives (\<lambda>n. until_close n item []) (map e) (g_many R)"
  using until_close_wlp [of item e R _ _ "[]" "[]"] by (simp add: derives_def g_many.none)

lemmas wb_struct_fields = wb_derives [OF fields_derives [OF struct_field_derives]]
lemmas wb_mapping_fields = wb_derives [OF fields_derives [OF mapping_field_derives]]

lemma struct_derives: "derives parse_struct erase_struct g_struct"
  unfolding parse_struct_def
  by (rule derivesI, rule wb_position, erule wb_symbol, simp, erule wb_name, erule wb_symbol, simp,
      erule wb_struct_fields, erule wb_symbol, simp, rule wlp_return, rule phraseI, erule g_struct_erased)
    (assumption, simp)

lemma mapping_derives: "derives parse_mapping erase_mapping g_mapping"
  unfolding parse_mapping_def
  by (rule derivesI, rule wb_position, erule wb_symbol, simp, erule wb_name, erule wb_symbol, simp, erule wb_qualified,
      erule wb_symbol, simp, erule wb_mapping_fields, erule wb_symbol, simp, rule wlp_return, rule phraseI,
      rule g_mapping_erased, simp, assumption)
    (assumption, simp)

lemma encoding_name_derives: "derives parse_encoding_name id g_encoding_name"
  unfolding parse_encoding_name_def
  by (rule derivesI, erule wb_peek, rule wlp_if, erule wb_symbol, simp, erule wlp_name,
      rule phraseI, simp, rule g_encoding_name.named, assumption, simp)
    (rule wlp_return, rule phraseI, simp, rule g_encoding_name.omitted, assumption, simp)

lemmas wb_encoding_name = wb_derives [OF encoding_name_derives]

lemma encoding_field_derives: "derives parse_encoding_field erase_node g_node"
  unfolding parse_encoding_field_def
  by (rule derivesI, rule wb_position, erule wb_name, erule wb_encoding_name, rule wlp_return, rule phraseI,
      simp, rule g_node.field, assumption)
    (assumption, simp)

text \<open>The three kinds of encoding nodes, given that fewer units of fuel are enough for the nodes inside.\<close>

lemma delta_field_wlp:
  assumes "\<And>p ts. at p ts \<Longrightarrow> wlp (parse_encoding_node n) p (phrase g_node erase_node ts)"
    and "at q r" "first_symbol r = S_identifier"
  shows "wlp (pbind (parse_encoding_node n) (\<lambda>x. preturn (AstEncodingDeltaBlock d [x]))) q
    (phrase g_node erase_node (T_symbol S_delta_kw # r))"
proof (rule wlp_bind, rule wlp_mono [OF assms(1) [OF assms(2)]], rule wlp_return)
  fix x q'
  assume "phrase g_node erase_node r x q'"
  then obtain us r' where us: "g_node us (erase_node x)" "at q' r'" "r = us @ r'"
    by (rule phraseE)
  then show "phrase g_node erase_node (T_symbol S_delta_kw # r) (AstEncodingDeltaBlock d [x]) q'"
    using g_node_delta [OF us(1)] assms(3) by (intro phraseI [of _ "T_symbol S_delta_kw # us"]) simp_all
qed

lemma delta_block_wlp:
  assumes "\<And>p ts. at p ts \<Longrightarrow> wlp (encoding_nodes n []) p (phrase (g_many g_node) (map erase_node) ts)" and "at q r"
  shows "wlp (pbind (parse_symbol k S_curly_open) (\<lambda>_. pbind (encoding_nodes n []) (\<lambda>fields.
      pbind (parse_symbol k S_curly_close) (\<lambda>_. preturn (AstEncodingDeltaBlock d fields))))) q
    (phrase g_node erase_node (T_symbol S_delta_kw # r))"
proof (rule wb_symbol [OF assms(2)], simp, rule wlp_bind, rule wlp_mono [OF assms(1)], assumption)
  fix r1 q1 xs q2
  assume r: "r = T_symbol S_curly_open # r1" and "phrase (g_many g_node) (map erase_node) r1 xs q2"
  from this(2) obtain us r' where us: "g_many g_node us (map erase_node xs)" "at q2 r'" "r1 = us @ r'"
    by (rule phraseE)
  show "wlp (pbind (parse_symbol k S_curly_close) (\<lambda>_. preturn (AstEncodingDeltaBlock d xs))) q2
      (phrase g_node erase_node (T_symbol S_delta_kw # r))"
    by (rule wb_symbol [OF us(2)], simp, rule wlp_return, rule phraseI, simp, rule g_node.delta_block [OF us(1)])
      (assumption, simp add: r us(3))
qed

lemma encoding_wlp:
  shows "at p ts \<Longrightarrow> wlp (parse_encoding_node n) p (phrase g_node erase_node ts)"
    and "at p ts \<Longrightarrow> wlp (parse_encoding_delta_block n) p (phrase g_node erase_node ts)"
    and "at p ts \<Longrightarrow> g_many g_node us0 (map erase_node acc) \<Longrightarrow>
      wlp (encoding_nodes n acc) p (phrase (\<lambda>us. g_many g_node (us0 @ us)) (map erase_node) ts)"
proof (induction n arbitrary: p ts us0 acc)
  case (Suc n)
  have nodes: "wlp (encoding_nodes n []) p (phrase (g_many g_node) (map erase_node) ts)" if "at p ts" for p ts
    using Suc.IH(3) [OF that, of "[]" "[]"] by (simp add: g_many.none)
  {
    case 1
    show ?case
      unfolding parse_encoding_node.simps
      by (rule wb_peek [OF 1])
        (auto intro: wlp_unexpected_in Suc.IH(2) wlp_derives [OF encoding_field_derives] phraseI split: Symbol.split)
  next
    case 2
    show ?case
      unfolding parse_encoding_delta_block.simps
      by (rule wb_position, rule wb_symbol [OF 2], simp, erule wb_peek)
        (auto intro: wlp_unexpected_in delta_field_wlp Suc.IH(1) delta_block_wlp nodes split: Symbol.split)
  next
    case 3
    have step: "wlp (encoding_nodes n (acc @ [x])) q (phrase (\<lambda>us. g_many g_node (us0 @ us)) (map erase_node) ts)"
      if "g_node us (erase_node x)" "at q r" "ts = us @ r" for us r x q
      using g_many_snoc [OF 3(2) that(1)]
      by (intro wlp_mono [OF Suc.IH(3) [OF that(2), of "us0 @ us"]]) (simp, rule longer_phrase [OF _ that(3)])
    have stop: "phrase (\<lambda>us. g_many g_node (us0 @ us)) (map erase_node) ts acc q" if "at q ts" for q
      using 3(2) that by (intro phraseI [of _ "[]"]) simp_all
    show ?case
      unfolding encoding_nodes.simps
      by (rule wb_peek [OF 3(1)], rule wlp_if, rule wlp_bind, rule wlp_mono [OF Suc.IH(1)], assumption, erule phraseE, erule (2) step)
        (rule wlp_return, erule stop)
  }
qed (simp_all add: wlp_none)

lemma nodes_derives: "derives (\<lambda>n. encoding_nodes n []) (map erase_node) (g_many g_node)"
  using encoding_wlp(3) [of _ _ "[]" "[]"] by (simp add: derives_def g_many.none)

lemmas wb_nodes = wb_derives [OF nodes_derives]

lemma encoding_derives: "derives parse_encoding erase_encoding g_encoding"
  unfolding parse_encoding_def
  by (rule derivesI, rule wb_position, erule wb_symbol, simp, erule wb_name, erule wb_encoding_name, erule wb_symbol, simp,
      erule wb_nodes, erule wb_symbol, simp, rule wlp_return, rule phraseI, rule g_encoding_erased, simp, assumption)
    (assumption, simp)

lemma includes_loop_wlp:
  assumes "at p ts" and "g_many g_include us0 (map erase_include acc)"
  shows "wlp (includes_loop n acc) p (phrase (\<lambda>us. g_many g_include (us0 @ us)) (map erase_include) ts)"
  using assms
proof (induction n arbitrary: p ts us0 acc)
  case (Suc n)
  have step: "wlp (includes_loop n (acc @ [x])) q (phrase (\<lambda>us. g_many g_include (us0 @ us)) (map erase_include) ts)"
    if "g_include us (erase_include x)" "at q r" "ts = us @ r" for us r x q
    using g_many_snoc [OF Suc.prems(2) that(1)]
    by (intro wlp_mono [OF Suc.IH [OF that(2), of "us0 @ us"]]) (simp, rule longer_phrase [OF _ that(3)])
  have stop: "phrase (\<lambda>us. g_many g_include (us0 @ us)) (map erase_include) ts acc q" if "at q ts" for q
    using Suc.prems(2) that by (intro phraseI [of _ "[]"]) simp_all
  show ?case
    unfolding includes_loop.simps
    by (rule wb_peek [OF Suc.prems(1)], rule wlp_if, erule wb_derives [OF include_derives], erule (2) step)
      (rule wlp_return, erule stop)
qed (simp add: wlp_none)

lemma includes_derives: "derives (\<lambda>n. includes_loop n []) (map erase_include) (g_many g_include)"
  using includes_loop_wlp [of _ _ "[]" "[]"] by (simp add: derives_def g_many.none)

lemma namespace_derives: "derives parse_namespace id g_namespace"
  unfolding parse_namespace_def
  by (rule derivesI, erule wb_peek, rule wlp_if, erule wb_symbol, simp, erule wlp_derives [OF qualified_derives],
      rule phraseI, simp, rule g_namespace.inside, assumption, assumption, simp)
    (rule wlp_return, rule phraseI, simp, rule g_namespace.global, assumption, simp)

lemma at_eof: "at q ts \<Longrightarrow> first_symbol ts = S_eof \<Longrightarrow> ts = []"
  using next_token_eof [of "unread rest q"] first_symbol_tokens [of "unread rest q"] tokens.simps [of "unread rest q"]
  by (simp add: at_def)

lemma decls_loop_wlp: "at p ts \<Longrightarrow> wlp (decls_loop n node) p (\<lambda>t q. declared ts node t)"
proof (induction n arbitrary: p ts node)
  case (Suc n)
  have "wlp (pbind (parse_struct (Suc n)) (\<lambda>d. decls_loop n (node\<lparr>rt_struct_decls := rt_struct_decls node @ [d]\<rparr>))) q
      (\<lambda>t q. declared ts node t)" if "at q ts" for q
    by (rule wb_derives [OF struct_derives that], rule wlp_mono [OF Suc.IH], assumption) (simp add: declared_struct)
  moreover have "wlp (pbind (parse_mapping (Suc n)) (\<lambda>d. decls_loop n (node\<lparr>rt_map_decls := rt_map_decls node @ [d]\<rparr>))) q
      (\<lambda>t q. declared ts node t)" if "at q ts" for q
    by (rule wb_derives [OF mapping_derives that], rule wlp_mono [OF Suc.IH], assumption) (simp add: declared_mapping)
  moreover have "wlp (pbind (parse_encoding (Suc n)) (\<lambda>d. decls_loop n (node\<lparr>rt_enco_decls := rt_enco_decls node @ [d]\<rparr>))) q
      (\<lambda>t q. declared ts node t)" if "at q ts" for q
    by (rule wb_derives [OF encoding_derives that], rule wlp_mono [OF Suc.IH], assumption) (simp add: declared_encoding)
  moreover have "wlp (preturn node) q (\<lambda>t q. declared ts node t)" if "at q ts" "first_symbol ts = S_eof" for q
    using at_eof [OF that] by (simp add: wlp_return declared_none)
  ultimately show ?case
    unfolding decls_loop.simps
    by (intro wb_peek [OF Suc.prems]) (auto intro: wlp_unexpected_in split: Symbol.split)
qed (simp add: wlp_none)

lemma document_wlp:
  assumes "at p ts"
  shows "wlp (parse_document n) p (\<lambda>t q. g_document ts (erase_root t))"
  unfolding parse_document_def
proof (rule wb_position, rule wb_derives [OF includes_derives assms], erule wb_derives [OF namespace_derives])
  fix d us r incs q vs r' sp q'
  assume us: "g_many g_include us (map erase_include incs)" "ts = us @ r" and vs: "g_namespace vs (id sp)" "r = vs @ r'"
    and q': "at q' r'"
  show "wlp (decls_loop n \<lparr>rt_origin = d, rt_includes = incs, rt_space = sp, rt_struct_decls = [], rt_map_decls = [],
      rt_enco_decls = []\<rparr>) q' (\<lambda>t q. g_document ts (erase_root t))"
    by (rule wlp_mono [OF decls_loop_wlp [OF q']])
      (use us vs in \<open>auto simp: declared_def erase_root_def intro: g_document.intros\<close>)
qed

end

end
