(* ===== verification/HappyComplete.thy ===== *)
theory HappyComplete
  imports HappyDerive
begin

text \<open>
  Completeness of the parser: with enough fuel it reads every phrase of the grammar, in front of any
  token that does not continue it, and returns its tree. Together with soundness, the parser accepts
  exactly the documents of the grammar.
\<close>

section \<open>What can follow a phrase\<close>

text \<open>A name could be continued by a period, a type by a bracket and a field by a colon.\<close>

definition follows :: "token list \<Rightarrow> bool" where
  "follows r \<longleftrightarrow> first_symbol r \<notin> {S_namespace_sep, S_bracket_open, S_colon}"

text \<open>Phrases that can stand in a list inside curly brackets.\<close>

definition listed :: "(token list \<Rightarrow> 'a \<Rightarrow> bool) \<Rightarrow> bool" where
  "listed R \<longleftrightarrow> (\<forall>us y r. R us y \<longrightarrow> first_symbol (us @ r) \<in> {S_identifier, S_delta_kw})"

lemma listedD: "listed R \<Longrightarrow> R us y \<Longrightarrow> first_symbol (us @ r) \<in> {S_identifier, S_delta_kw}"
  unfolding listed_def by blast

lemma listed_fields: "listed g_struct_field" "listed g_mapping_field" "listed g_node"
  by (auto simp: listed_def elim!: g_struct_field.cases g_mapping_field.cases g_node.cases)

lemma g_many_follows:
  assumes "g_many R us ys" and "listed R"
  shows "follows (us @ T_symbol S_curly_close # r)"
  using assms(1)
proof cases
  case (more ts x vs xs)
  then have "first_symbol (us @ T_symbol S_curly_close # r) \<in> {S_identifier, S_delta_kw}"
    using listedD [OF assms(2) more(3), of "vs @ T_symbol S_curly_close # r"] by simp
  then show ?thesis
    by (auto simp: follows_def)
qed (simp add: follows_def)

lemma g_qualified_name: "g_qualified ts q \<Longrightarrow> \<exists>x us. ts = T_name x # us"
  by (auto elim: g_qualified.cases)

lemma decl_first:
  "g_struct ts s \<Longrightarrow> first_symbol (ts @ us) = S_struct_kw" "g_mapping ts m \<Longrightarrow> first_symbol (ts @ us) = S_mapping_kw"
  "g_encoding ts e \<Longrightarrow> first_symbol (ts @ us) = S_encoding_kw" "g_include ts i \<Longrightarrow> first_symbol (ts @ us) = S_include_kw"
  by (auto elim: g_struct.cases g_mapping.cases g_encoding.cases g_include.cases)

lemma g_decls_first:
  assumes "g_decls ds ss ms es"
  shows "first_symbol ds \<in> {S_struct_kw, S_mapping_kw, S_encoding_kw, S_eof}"
  using assms by cases (simp_all add: decl_first)

lemma g_decls_follows: "g_decls ds ss ms es \<Longrightarrow> follows ds"
  using g_decls_first [of ds ss ms es] by (auto simp: follows_def)

lemma g_namespace_first: "g_namespace ns q \<Longrightarrow> ns = [] \<or> first_symbol (ns @ ds) = S_namespace_kw"
  by (auto elim: g_namespace.cases)

section \<open>Completeness\<close>

context stream_reader
begin

text \<open>\<open>accepts m e R\<close>: \<open>m\<close> reads every phrase of \<open>R\<close> and returns its tree, up to the positions that \<open>e\<close> erases.\<close>

definition accepts :: "(nat \<Rightarrow> ('r Parser, 'a) parse) \<Rightarrow> ('a \<Rightarrow> 'b) \<Rightarrow> (token list \<Rightarrow> 'b \<Rightarrow> bool) \<Rightarrow> bool" where
  "accepts m e R \<longleftrightarrow>
     (\<forall>ts y p r. R ts y \<longrightarrow> at p (ts @ r) \<longrightarrow> follows r \<longrightarrow> comes m p (\<lambda>x q. e x = y \<and> at q r))"

lemma acceptsI:
  "(\<And>ts y p r. R ts y \<Longrightarrow> at p (ts @ r) \<Longrightarrow> follows r \<Longrightarrow> comes m p (\<lambda>x q. e x = y \<and> at q r)) \<Longrightarrow> accepts m e R"
  by (simp add: accepts_def)

lemma comes_accepts:
  assumes "accepts m e R" and "at p (ts @ r)" and "R ts y" and "follows r"
    and "\<And>x q. e x = y \<Longrightarrow> at q r \<Longrightarrow> P x q"
  shows "comes m p P"
  by (rule comes_mono [of _ _ "\<lambda>x q. e x = y \<and> at q r"]) (use assms in \<open>auto simp: accepts_def\<close>)

lemmas cb_position = comes_bind [OF comes_position]
lemmas cb_peek = comes_bind [OF comes_peek]
lemmas cb_symbol = comes_bind [OF comes_symbol]
lemmas cb_name = comes_bind [OF comes_name]
lemmas cb_string = comes_bind [OF comes_string]
lemmas cb_integer = comes_bind [OF comes_integer]
lemmas cb_accepts = comes_bind [OF comes_accepts]

text \<open>The same with the fuel of a loop's body.\<close>

lemmas sb_peek = comes_bind [OF comes_pred [OF comes_peek]]
lemmas sb_symbol = comes_bind [OF comes_pred [OF comes_symbol]]
lemmas sb_name = comes_bind [OF comes_pred [OF comes_name]]
lemmas sb_accepts = comes_bind [OF comes_pred [OF comes_accepts]]

lemma qualified_loop_comes:
  assumes "g_qualified ts q0" and "ts = T_name tmp # us" and "at p (us @ r)" and "first_symbol r \<noteq> S_namespace_sep"
  shows "comes (\<lambda>n. qualified_loop n sp tmp) p (\<lambda>x q. x = q0\<lparr>qi_space := sp @ qi_space q0\<rparr> \<and> at q r)"
  using assms
proof (induction arbitrary: tmp us sp p)
  case (name x)
  have p: "at p r" "first_symbol r \<noteq> S_namespace_sep"
    using name by simp_all
  show ?case
    by (rule comes_Suc, unfold qualified_loop.simps, rule sb_peek [OF p(1)])
      (use name p(2) in \<open>auto intro: comes_return\<close>)
next
  case (member ts q0 x)
  obtain x' us' where ts: "ts = T_name x' # us'"
    using g_qualified_name [OF member(1)] by blast
  have p: "at p (T_symbol S_namespace_sep # T_name x' # us' @ r)" "x = tmp"
    using member(3,4) ts by auto
  have step: "comes (\<lambda>n. qualified_loop n (sp @ [tmp]) x') q
      (\<lambda>y q. y = q0\<lparr>qi_space := sp @ tmp # qi_space q0\<rparr> \<and> at q r)" if "at q (us' @ r)" for q
    using member(2) [OF ts that member(5), of "sp @ [tmp]"] by simp
  show ?case
    by (rule comes_Suc, unfold qualified_loop.simps, rule sb_peek [OF p(1)], simp, erule sb_symbol, simp, erule sb_name)
      (use step p(2) in simp)
qed

lemma qualified_comes:
  assumes "at p (ts @ r)" and "g_qualified ts y" and "first_symbol r \<noteq> S_namespace_sep" and "\<And>q. at q r \<Longrightarrow> P y q"
  shows "comes parse_qualified_identifier p P"
proof -
  obtain x us where x: "ts = T_name x # us"
    using g_qualified_name [OF assms(2)] by blast
  have p: "at p (T_name x # us @ r)"
    using assms(1) x by simp
  show ?thesis
    unfolding parse_qualified_identifier_def
    by (rule cb_name [OF p], rule comes_mono [OF qualified_loop_comes [OF assms(2) x _ assms(3)]]) (simp_all add: assms(4))
qed

lemmas cb_qualified = comes_bind [OF qualified_comes]

lemma type_accepts: "accepts parse_type id g_type"
  unfolding parse_type_def
proof (rule acceptsI)
  fix ts y p r
  assume "g_type ts y" and p: "at p (ts @ r)" and r: "follows r"
  then show "comes (\<lambda>n. pbind (parse_qualified_identifier n) (\<lambda>q.
     pbind (peek_symbol n) (\<lambda>s.
       if s = S_bracket_open
       then
         pbind (parse_symbol n S_bracket_open) (\<lambda>_.
         pbind (parse_integer n) (\<lambda>size.
         pbind (parse_symbol n S_bracket_close) (\<lambda>_.
         preturn \<lparr>ty_identifier = q, ty_is_array = True, ty_array_size = Some size\<rparr>)))
       else preturn \<lparr>ty_identifier = q, ty_is_array = False, ty_array_size = None\<rparr>))) p (\<lambda>x q. id x = y \<and> at q r)"
  proof cases
    case (single q)
    show ?thesis
      by (rule cb_qualified [OF p single(2)], use r in \<open>simp add: follows_def\<close>, erule cb_peek)
        (use r single(1) in \<open>auto simp: follows_def intro: comes_return\<close>)
  next
    case (sized us q i)
    have p': "at p (us @ T_symbol S_bracket_open # T_integer i # T_symbol S_bracket_close # r)"
      using p sized(1) by simp
    show ?thesis
      by (rule cb_qualified [OF p' sized(3)], simp, erule cb_peek, simp,
          erule cb_symbol, simp, erule cb_integer, erule cb_symbol, simp)
        (use sized(2) in \<open>auto intro: comes_return\<close>)
  qed
qed

lemma include_accepts: "accepts parse_include erase_include g_include"
  unfolding parse_include_def
  by (rule acceptsI, erule g_include.cases, simp, rule cb_position, erule cb_symbol, simp, erule cb_string)
    (simp add: comes_return erase_include_def)

lemma struct_field_accepts: "accepts parse_struct_field erase_struct_field g_struct_field"
  unfolding parse_struct_field_def
  by (rule acceptsI, erule g_struct_field.cases, simp, rule cb_position, erule cb_name, erule cb_symbol, simp,
      erule cb_accepts [OF type_accepts], assumption, assumption)
    (simp add: comes_return erase_struct_field_def)

lemma mapping_field_accepts: "accepts parse_mapping_field erase_mapping_field g_mapping_field"
  unfolding parse_mapping_field_def
  by (rule acceptsI, erule g_mapping_field.cases, simp, rule cb_position, erule cb_name, erule cb_symbol, simp, erule cb_string)
    (simp add: comes_return erase_mapping_field_def)

text \<open>Fields up to a closing bracket.\<close>

lemma until_close_comes:
  assumes "g_many R ts ys" and item: "accepts item e R" and listed: "listed R" and "at p (ts @ T_symbol S_curly_close # r)"
  shows "comes (\<lambda>n. until_close n item acc) p (\<lambda>xs q. map e xs = map e acc @ ys \<and> at q (T_symbol S_curly_close # r))"
  using assms(1,4)
proof (induction arbitrary: p acc)
  case none
  show ?case
    by (rule comes_Suc, unfold until_close.simps, rule sb_peek [OF none])
      (simp add: comes_return)
next
  case (more us y vs ys)
  have p: "at p (us @ vs @ T_symbol S_curly_close # r)"
    using more.prems by simp
  have go: "first_symbol (us @ vs @ T_symbol S_curly_close # r) \<noteq> S_curly_close"
    using listedD [OF listed more(1), of "vs @ T_symbol S_curly_close # r"] by auto
  have step: "comes (\<lambda>n. until_close n item (acc @ [x])) q
      (\<lambda>xs q. map e xs = map e acc @ y # ys \<and> at q (T_symbol S_curly_close # r))"
    if "e x = y" "at q (vs @ T_symbol S_curly_close # r)" for x q
    using more.IH [OF that(2), of "acc @ [x]"] that(1) by simp
  show ?case
    by (rule comes_Suc, unfold until_close.simps, rule sb_peek [OF p], simp add: go,
        erule sb_accepts [OF item _ more(1) g_many_follows [OF more(2) listed]])
      (erule (1) step)
qed

lemma fields_comes:
  assumes "accepts item e R" and "listed R" and "at p (ts @ T_symbol S_curly_close # r)" and "g_many R ts ys"
    and "\<And>xs q. map e xs = ys \<Longrightarrow> at q (T_symbol S_curly_close # r) \<Longrightarrow> P xs q"
  shows "comes (\<lambda>n. until_close n item []) p P"
  by (rule comes_mono [OF until_close_comes [OF assms(4,1,2,3)]]) (simp add: assms(5))

lemmas cb_struct_fields = comes_bind [OF fields_comes [OF struct_field_accepts listed_fields(1)]]
lemmas cb_mapping_fields = comes_bind [OF fields_comes [OF mapping_field_accepts listed_fields(2)]]

lemma struct_accepts: "accepts parse_struct erase_struct g_struct"
  unfolding parse_struct_def
  by (rule acceptsI, erule g_struct.cases, simp, rule cb_position, erule cb_symbol, simp, erule cb_name, erule cb_symbol, simp,
      erule cb_struct_fields, assumption, erule cb_symbol, simp)
    (simp add: comes_return erase_struct_def)

lemma mapping_accepts: "accepts parse_mapping erase_mapping g_mapping"
  unfolding parse_mapping_def
  by (rule acceptsI, erule g_mapping.cases, simp, rule cb_position, erule cb_symbol, simp, erule cb_name, erule cb_symbol, simp,
      erule cb_qualified, assumption, simp, erule cb_symbol, simp, erule cb_mapping_fields, assumption, erule cb_symbol, simp)
    (simp add: comes_return erase_mapping_def)

lemma encoding_name_comes:
  assumes "at p (ts @ r)" and "g_encoding_name ts y" and "first_symbol r \<noteq> S_colon" and "\<And>q. at q r \<Longrightarrow> P y q"
  shows "comes parse_encoding_name p P"
  using assms(2)
proof cases
  case omitted
  then show ?thesis
    unfolding parse_encoding_name_def
    using assms(4) by (intro cb_peek [OF assms(1)]) (simp add: comes_return assms(3))
next
  case named
  then have p: "at p (T_symbol S_colon # T_name y # r)"
    using assms(1) by simp
  show ?thesis
    unfolding parse_encoding_name_def
    by (rule cb_peek [OF p], simp, erule cb_symbol, simp, erule comes_name) (rule assms(4))
qed

lemmas cb_encoding_name = comes_bind [OF encoding_name_comes]

lemma encoding_field_comes:
  assumes "at p (T_name x # ts @ r)" and "g_encoding_name ts e" and "first_symbol r \<noteq> S_colon"
    and "\<And>d q. at q r \<Longrightarrow> P (AstEncodingField d x e) q"
  shows "comes parse_encoding_field p P"
  unfolding parse_encoding_field_def
  by (rule cb_position, rule cb_name [OF assms(1)], erule cb_encoding_name [OF _ assms(2,3)])
    (rule comes_return, erule assms(4))

lemma encoding_node_field:
  assumes "at p (T_name x # ts @ r)" and "g_encoding_name ts e" and "first_symbol r \<noteq> S_colon"
  shows "comes parse_encoding_node p (\<lambda>y q. erase_node y = AstEncodingField nowhere x e \<and> at q r)"
  by (rule comes_Suc, unfold parse_encoding_node.simps, rule sb_peek [OF assms(1)], simp,
      erule comes_pred [OF encoding_field_comes], rule assms(2), rule assms(3)) simp

text \<open>A phrase that \<open>parse_encoding_node\<close> reads, and a list of them.\<close>

definition node_read :: "token list \<Rightarrow> AstEncodingNode \<Rightarrow> bool" where
  "node_read ts y \<longleftrightarrow> g_node ts y \<and> (\<forall>p r. at p (ts @ r) \<longrightarrow> follows r \<longrightarrow>
     comes parse_encoding_node p (\<lambda>x q. erase_node x = y \<and> at q r))"

lemma listed_node_read: "listed node_read"
  using listed_fields(3) unfolding listed_def node_read_def by blast

lemma encoding_nodes_comes:
  assumes "g_many node_read ts ys" and "at p (ts @ T_symbol S_curly_close # r)"
  shows "comes (\<lambda>n. encoding_nodes n acc) p
    (\<lambda>xs q. map erase_node xs = map erase_node acc @ ys \<and> at q (T_symbol S_curly_close # r))"
  using assms
proof (induction arbitrary: p acc)
  case none
  show ?case
    by (rule comes_Suc, unfold encoding_nodes.simps, rule sb_peek [OF none])
      (simp add: comes_return)
next
  case (more us y vs ys)
  have p: "at p (us @ vs @ T_symbol S_curly_close # r)"
    using more.prems by simp
  have go: "first_symbol (us @ vs @ T_symbol S_curly_close # r) \<noteq> S_curly_close"
    using listedD [OF listed_node_read more(1), of "vs @ T_symbol S_curly_close # r"] by auto
  have step: "comes (\<lambda>n. encoding_nodes n (acc @ [x])) q
      (\<lambda>xs q. map erase_node xs = map erase_node acc @ y # ys \<and> at q (T_symbol S_curly_close # r))"
    if "erase_node x = y" "at q (vs @ T_symbol S_curly_close # r)" for x q
    using more.IH [OF that(2), of "acc @ [x]"] that(1) by simp
  have read: "comes parse_encoding_node q (\<lambda>x q. erase_node x = y \<and> at q (vs @ T_symbol S_curly_close # r))"
    if "at q (us @ vs @ T_symbol S_curly_close # r)" for q
    using more(1) that g_many_follows [OF more(2) listed_node_read] by (simp add: node_read_def)
  show ?case
    by (rule comes_Suc, unfold encoding_nodes.simps, rule sb_peek [OF p], simp add: go, rule comes_bind,
        rule comes_mono [OF read], assumption)
      (elim conjE, erule (1) step)
qed

lemma delta_block_comes:
  assumes "at p (T_symbol S_delta_kw # T_symbol S_curly_open # ts @ T_symbol S_curly_close # r)" and "g_many node_read ts ns"
  shows "comes parse_encoding_node p (\<lambda>x q. erase_node x = AstEncodingDeltaBlock nowhere ns \<and> at q r)"
proof -
  have nodes: "comes (\<lambda>n. encoding_nodes n []) q (\<lambda>xs q. map erase_node xs = ns \<and> at q (T_symbol S_curly_close # r))"
    if "at q (ts @ T_symbol S_curly_close # r)" for q
    using encoding_nodes_comes [OF assms(2) that, of "[]"] by simp
  have "comes parse_encoding_delta_block q (\<lambda>x q. erase_node x = AstEncodingDeltaBlock nowhere ns \<and> at q r)"
    if "at q (T_symbol S_delta_kw # T_symbol S_curly_open # ts @ T_symbol S_curly_close # r)" for q
    by (rule comes_Suc, unfold parse_encoding_delta_block.simps, rule cb_position, rule sb_symbol [OF that], simp,
        erule sb_peek, simp, erule sb_symbol, simp, rule comes_bind, rule comes_mono [OF nodes], assumption, clarify,
        erule sb_symbol, simp)
      (simp add: comes_return)
  then show ?thesis
    by (intro comes_Suc [of parse_encoding_node], unfold parse_encoding_node.simps, intro sb_peek [OF assms(1)]) simp
qed

lemma delta_field_comes:
  assumes "at p (T_symbol S_delta_kw # T_name x # ts @ r)" and "g_encoding_name ts e" and "first_symbol r \<noteq> S_colon"
  shows "comes parse_encoding_node p
    (\<lambda>y q. erase_node y = AstEncodingDeltaBlock nowhere [AstEncodingField nowhere x e] \<and> at q r)"
proof -
  have "comes parse_encoding_delta_block q
      (\<lambda>y q. erase_node y = AstEncodingDeltaBlock nowhere [AstEncodingField nowhere x e] \<and> at q r)"
    if "at q (T_symbol S_delta_kw # T_name x # ts @ r)" for q
    by (rule comes_Suc, unfold parse_encoding_delta_block.simps, rule cb_position, rule sb_symbol [OF that], simp,
        erule sb_peek, simp, rule comes_bind, rule comes_mono [OF encoding_node_field [OF _ assms(2,3)]], assumption)
      (simp add: comes_return)
  then show ?thesis
    by (intro comes_Suc [of parse_encoding_node], unfold parse_encoding_node.simps, intro sb_peek [OF assms(1)]) simp
qed

lemma g_node_read: "g_node ts y \<Longrightarrow> node_read ts y"
proof (induction rule: g_node.induct)
  case (field ts e x)
  then show ?case
    using encoding_node_field g_node.field by (simp add: node_read_def follows_def)
next
  case (delta_field ts e x)
  then show ?case
    using delta_field_comes g_node.delta_field by (simp add: node_read_def follows_def)
next
  case (delta_block ts ns)
  then have "g_many node_read ts ns" "g_many g_node ts ns"
    by (auto elim: g_many_mono [THEN mp, rotated])
  then show ?case
    using delta_block_comes g_node.delta_block by (simp add: node_read_def)
qed

lemma nodes_comes:
  assumes "at p (ts @ T_symbol S_curly_close # r)" and "g_many g_node ts ys"
    and "\<And>xs q. map erase_node xs = ys \<Longrightarrow> at q (T_symbol S_curly_close # r) \<Longrightarrow> P xs q"
  shows "comes (\<lambda>n. encoding_nodes n []) p P"
proof -
  have "g_many node_read ts ys"
    using g_many_mono [of g_node node_read] assms(2) g_node_read by blast
  from encoding_nodes_comes [OF this assms(1)] show ?thesis
    by (rule comes_mono) (simp add: assms(3))
qed

lemmas cb_nodes = comes_bind [OF nodes_comes]

lemma encoding_accepts: "accepts parse_encoding erase_encoding g_encoding"
  unfolding parse_encoding_def
  by (rule acceptsI, erule g_encoding.cases, simp, rule cb_position, erule cb_symbol, simp, erule cb_name,
      erule cb_encoding_name, assumption, simp, erule cb_symbol, simp, erule cb_nodes, assumption, erule cb_symbol, simp)
    (simp add: comes_return erase_encoding_def)

section \<open>Documents\<close>

lemma includes_loop_comes:
  assumes "g_many g_include ts ys" and "at p (ts @ r)" and "follows r" and "first_symbol r \<noteq> S_include_kw"
  shows "comes (\<lambda>n. includes_loop n acc) p (\<lambda>xs q. map erase_include xs = map erase_include acc @ ys \<and> at q r)"
  using assms
proof (induction arbitrary: p acc)
  case none
  show ?case
    by (rule comes_Suc, unfold includes_loop.simps, rule sb_peek [OF none(1)]) (use none in \<open>simp add: comes_return\<close>)
next
  case (more us y vs ys)
  have p: "at p (us @ vs @ r)" and go: "first_symbol (us @ vs @ r) = S_include_kw"
    using more.prems(1) decl_first(4) [OF more(1)] by simp_all
  have f: "follows (vs @ r)"
    using more(2)
  proof cases
    case (more ts x ws xs)
    then show ?thesis
      using decl_first(4) [OF more(3), of "ws @ r"] by (simp add: follows_def)
  qed (use more.prems(2) in simp)
  have step: "comes (\<lambda>n. includes_loop n (acc @ [x])) q (\<lambda>xs q. map erase_include xs = map erase_include acc @ y # ys \<and> at q r)"
    if "erase_include x = y" "at q (vs @ r)" for x q
    using more.IH [OF that(2) more.prems(2,3), of "acc @ [x]"] that(1) by simp
  show ?case
    by (rule comes_Suc, unfold includes_loop.simps, rule sb_peek [OF p], simp add: go,
        erule sb_accepts [OF include_accepts _ more(1) f])
      (erule (1) step)
qed

lemma namespace_comes:
  assumes "at p (ts @ r)" and "g_namespace ts y" and "first_symbol r \<notin> {S_namespace_kw, S_namespace_sep}"
    and "\<And>q. at q r \<Longrightarrow> P y q"
  shows "comes parse_namespace p P"
  using assms(2)
proof cases
  case global
  then show ?thesis
    unfolding parse_namespace_def
    using assms(3,4) by (intro cb_peek [OF assms(1)]) (simp add: comes_return)
next
  case (inside us)
  then have p: "at p (T_symbol S_namespace_kw # us @ r)"
    using assms(1) by simp
  show ?thesis
    unfolding parse_namespace_def
    by (rule cb_peek [OF p], simp, erule cb_symbol, simp, erule qualified_comes [OF _ inside(2)])
      (use assms(3,4) in simp_all)
qed

lemma decls_loop_comes:
  assumes "g_decls ts ss ms es" and "at p ts"
  shows "comes (\<lambda>n. decls_loop n node) p (\<lambda>t q. erase_root t =
    (erase_root node)\<lparr>rt_struct_decls := rt_struct_decls (erase_root node) @ ss,
      rt_map_decls := rt_map_decls (erase_root node) @ ms, rt_enco_decls := rt_enco_decls (erase_root node) @ es\<rparr>)"
  using assms
proof (induction arbitrary: p node)
  case no_decl
  show ?case
    by (rule comes_Suc, unfold decls_loop.simps, rule sb_peek [OF no_decl]) (simp add: comes_return)
next
  case (struct_decl ts d us ss ms es)
  note first = decl_first(1) [OF struct_decl(1), of us] and f = g_decls_follows [OF struct_decl(2)]
  show ?case
    by (rule comes_Suc, unfold decls_loop.simps, rule sb_peek [OF struct_decl.prems], simp add: first,
        erule sb_accepts [OF struct_accepts _ struct_decl(1) f],
        rule comes_mono [OF struct_decl.IH])
      (simp_all add: erase_root_def)
next
  case (map_decl ts d us ss ms es)
  note first = decl_first(2) [OF map_decl(1), of us] and f = g_decls_follows [OF map_decl(2)]
  show ?case
    by (rule comes_Suc, unfold decls_loop.simps, rule sb_peek [OF map_decl.prems], simp add: first,
        erule sb_accepts [OF mapping_accepts _ map_decl(1) f],
        rule comes_mono [OF map_decl.IH])
      (simp_all add: erase_root_def)
next
  case (enco_decl ts d us ss ms es)
  note first = decl_first(3) [OF enco_decl(1), of us] and f = g_decls_follows [OF enco_decl(2)]
  show ?case
    by (rule comes_Suc, unfold decls_loop.simps, rule sb_peek [OF enco_decl.prems], simp add: first,
        erule sb_accepts [OF encoding_accepts _ enco_decl(1) f],
        rule comes_mono [OF enco_decl.IH])
      (simp_all add: erase_root_def)
qed

lemma document_comes:
  assumes "g_document ts y" and "at p ts"
  shows "comes parse_document p (\<lambda>t q. erase_root t = y)"
  using assms(1)
proof cases
  case (1 us incs ns q0 ds ss ms es)
  have ds: "first_symbol ds \<in> {S_struct_kw, S_mapping_kw, S_encoding_kw, S_eof}"
    by (rule g_decls_first [OF 1(5)])
  have p: "at p (us @ ns @ ds)"
    using assms(2) 1(1) by simp
  have nd: "follows (ns @ ds)" "first_symbol (ns @ ds) \<noteq> S_include_kw"
    using g_namespace_first [OF 1(4), of ds] ds by (auto simp: follows_def)
  have dn: "first_symbol ds \<notin> {S_namespace_kw, S_namespace_sep}"
    using ds by auto
  show ?thesis
    unfolding parse_document_def
    by (rule cb_position, rule comes_bind, rule comes_mono [OF includes_loop_comes [OF 1(3) p nd]], elim conjE,
        rule comes_bind, erule namespace_comes [OF _ 1(4) dn],
        rule comes_mono [OF decls_loop_comes [OF 1(5)]])
      (simp_all add: erase_root_def 1(2))
qed

lemma parse_from_document:
  assumes "parse_document n (new_Parser filename reader) = Some (Inr (t, q))"
  shows "parse n filename reader = Some (Inr t)"
  by (simp add: parse_def assms)

lemma document_from_parse:
  assumes "parse n filename reader = Some (Inr t)"
  obtains q where "parse_document n (new_Parser filename reader) = Some (Inr (t, q))"
proof -
  obtain z where z: "parse_document n (new_Parser filename reader) = Some z" "map_sum id fst z = Inr t"
    using assms unfolding parse_def by blast
  then show thesis
    using that by (cases z) auto
qed

lemma parse_derives:
  assumes "at (new_Parser filename reader) ts" and "parse n filename reader = Some (Inr t)"
  shows "g_document ts (erase_root t)"
proof -
  obtain q where q: "parse_document n (new_Parser filename reader) = Some (Inr (t, q))"
    using document_from_parse [OF assms(2)] .
  have "wlp (parse_document n) (new_Parser filename reader) (\<lambda>t q. g_document ts (erase_root t))"
    by (rule document_wlp [OF assms(1)])
  then show ?thesis
    using q unfolding wlp_def by simp
qed

lemma parse_accepts:
  assumes "at (new_Parser filename reader) ts" and "g_document ts y"
  shows "\<exists>t n0. (\<forall>n \<ge> n0. parse n filename reader = Some (Inr t)) \<and> erase_root t = y"
proof -
  have "comes parse_document (new_Parser filename reader) (\<lambda>t q. erase_root t = y)"
    by (rule document_comes [OF assms(2,1)])
  then obtain t q n0 where "\<forall>n \<ge> n0. parse_document n (new_Parser filename reader) = Some (Inr (t, q))" "erase_root t = y"
    unfolding comes_def by blast
  then show ?thesis
    using parse_from_document by blast
qed

lemma parse_iff_grammar:
  assumes "good r" and "length (rest r) + 2 \<le> n" and reader: "reader = \<lparr>sr_state = r, sr_read = read\<rparr>"
  shows "(\<exists>t. parse n filename reader = Some (Inr t) \<and> erase_root t = y) \<longleftrightarrow> g_document (tokens (rest r)) y"
proof -
  have p: "at (new_Parser filename reader) (tokens (rest r))"
    using assms(1) reader by (simp add: at_def coherent_def ok_def unread_def buffered_def new_Parser_def)
  have "\<exists>t. parse n filename reader = Some (Inr t) \<and> erase_root t = y" if d: "g_document (tokens (rest r)) y"
  proof -
    obtain t n0 where t: "\<forall>m \<ge> n0. parse m filename reader = Some (Inr t)" "erase_root t = y"
      using parse_accepts [OF p d] by blast
    have "parse (max n n0) filename reader = parse n filename reader"
      by (rule parse_settled(1) [OF assms(1,2) _ reader]) simp
    then show ?thesis
      using t by (metis max.cobounded2)
  qed
  then show ?thesis
    using parse_derives [OF p] by blast
qed

end

section \<open>Property\<close>

text \<open>
  C5. The parser accepts exactly the interface language. On every text that a reader delivers,
  \<open>Parser::parse\<close> returns a tree if and only if the tokens of the text form a document of the grammar, and
  the tree is the one the grammar gives to these tokens, apart from the positions in its nodes.
\<close>

theorem parse_accepts_grammar:
  assumes "stream_reader rd rest good" and "good r" and "length (rest r) + 2 \<le> n"
  shows "(\<exists>t. parse n filename \<lparr>sr_state = r, sr_read = rd\<rparr> = Some (Inr t) \<and> erase_root t = y)
    \<longleftrightarrow> g_document (tokens (rest r)) y"
  by (rule stream_reader.parse_iff_grammar [OF assms refl])

definition example_text :: string where
  "example_text = ''STRUCT A { b : C.D[3] } # a comment'' @ newline @ ''ENCODING A { DELTA b }''"

definition example_tree :: AstRoot where
  "example_tree = \<lparr>rt_origin = nowhere, rt_includes = [], rt_space = \<lparr>qi_space = [], qi_name = []\<rparr>,
     rt_struct_decls = [\<lparr>st_origin = nowhere, st_identifier = ''A'', st_fields =
       [\<lparr>sf_origin = nowhere, sf_identifier = ''b'', sf_type =
         \<lparr>ty_identifier = \<lparr>qi_space = [''C''], qi_name = ''D''\<rparr>, ty_is_array = True, ty_array_size = Some 3\<rparr>\<rparr>]\<rparr>],
     rt_map_decls = [],
     rt_enco_decls = [\<lparr>en_origin = nowhere, en_struct_id = ''A'', en_enco_id = ''DEFAULT'', en_fields =
       [AstEncodingDeltaBlock nowhere [AstEncodingField nowhere ''b'' ''DEFAULT'']]\<rparr>]\<rparr>"

lemma example_tokens: "tokens example_text =
   [T_symbol S_struct_kw, T_name ''A'', T_symbol S_curly_open, T_name ''b'', T_symbol S_colon, T_name ''C'',
    T_symbol S_namespace_sep, T_name ''D'', T_symbol S_bracket_open, T_integer 3, T_symbol S_bracket_close,
    T_symbol S_curly_close, T_symbol S_encoding_kw, T_name ''A'', T_symbol S_curly_open, T_symbol S_delta_kw,
    T_name ''b'', T_symbol S_curly_close]"
  by code_simp

lemma example_document: "g_document (tokens example_text) example_tree"
proof -
  have type: "g_type [T_name ''C'', T_symbol S_namespace_sep, T_name ''D'', T_symbol S_bracket_open, T_integer 3, T_symbol S_bracket_close]
      \<lparr>ty_identifier = \<lparr>qi_space = [''C''], qi_name = ''D''\<rparr>, ty_is_array = True, ty_array_size = Some 3\<rparr>"
    using g_type.sized [OF g_qualified.member [OF g_qualified.name, of "''C''" "''D''"], of 3] by simp
  note struct = g_struct.intros [OF g_many.more [of g_struct_field, OF g_struct_field.intros [OF type, of "''b''"] g_many.none], of "''A''"]
  note enco = g_encoding.intros [OF g_encoding_name.omitted
      g_many.more [of g_node, OF g_node.delta_field [OF g_encoding_name.omitted, of "''b''"] g_many.none], of "''A''"]
  show ?thesis
    using g_document.intros [OF g_many.none g_namespace.global g_decls.struct_decl [OF struct g_decls.enco_decl [OF enco g_decls.no_decl]]]
    by (simp add: example_tokens example_tree_def DEFAULT_ENCODING_def)
qed

theorem parse_accepts_grammar_witness:
  "\<exists>t. parse 100 ''f'' \<lparr>sr_state = \<lparr>fi_bytes = example_text, fi_error = None\<rparr>, sr_read = StdinReader_read\<rparr> = Some (Inr t)
     \<and> erase_root t = example_tree"
proof -
  have "length example_text + 2 \<le> 100"
    by (simp add: example_text_def newline_def)
  then show ?thesis
    using parse_accepts_grammar [OF stdin.stream_reader_axioms, of "\<lparr>fi_bytes = example_text, fi_error = None\<rparr>" 100 "''f''" example_tree]
      example_document by simp
qed

end
