(* ===== verification/HappyPosition.thy ===== *)
theory HappyPosition
  imports HappyComplete
begin

text \<open>
  Positions in documents. The position of the parser always is that of the first unread character:
  its line counts the newlines before it and its column the characters after the last of them,
  unless there are carriage returns, which count only inside tokens. So is the position in every
  error message, at the symbol that the message complains about.
\<close>

section \<open>Positions\<close>

definition is_newline :: "char \<Rightarrow> bool" where
  "is_newline c \<longleftrightarrow> c = CHR 0x0A"

text \<open>\<open>located file us d\<close>: \<open>d\<close> is the position in \<open>file\<close> after the characters \<open>us\<close>.\<close>

definition located :: "string \<Rightarrow> string \<Rightarrow> DocumentPosition \<Rightarrow> bool" where
  "located file_name us d \<longleftrightarrow> dp_file d = file_name \<and> dp_line d = 1 + int (length (filter is_newline us))
     \<and> (CHR 0x0D \<notin> set us \<longrightarrow> dp_column d = int (length (takeWhile (\<lambda>c. \<not> is_newline c) (rev us))))"

lemma located_char: "located f us d \<Longrightarrow> located f (us @ [c]) (char_pos c d)"
  by (auto simp: located_def char_pos_def next_line_def next_column_def is_newline_def)

lemma located_column: "located f us d \<Longrightarrow> \<not> is_newline c \<Longrightarrow> located f (us @ [c]) (next_column d)"
  using located_char [of f us d c] by (simp add: char_pos_def is_newline_def)

lemma located_line: "located f us d \<Longrightarrow> located f (us @ [CHR 0x0A]) (next_line d)"
  using located_char [of f us d "CHR 0x0A"] by (simp add: char_pos_def)

lemma located_return: "located f us d \<Longrightarrow> located f (us @ [CHR 0x0D]) d"
  by (simp add: located_def is_newline_def)

lemma located_moved:
  assumes "located f us d" and "k \<le> length t"
  shows "located f (us @ take k t) (fold (\<lambda>i. char_pos (char_at t i)) [0..<k] d)"
  using assms(2)
proof (induction k)
  case (Suc k)
  have "located f ((us @ take k t) @ [t ! k]) (char_pos (t ! k) (fold (\<lambda>i. char_pos (char_at t i)) [0..<k] d))"
    by (rule located_char) (use Suc in simp)
  then show ?case
    using Suc.prems by (simp add: take_Suc_conv_app_nth char_at_def)
qed (use assms(1) in simp)

lemma char_at_inside: "char_at t k \<noteq> NUL \<Longrightarrow> k < length t"
  by (auto simp: char_at_def split: if_split_asm)

lemma NUL_in_no_word: "\<not> is_ident_char NUL" "\<not> is_digit NUL"
  by (simp_all add: is_ident_char_def is_letter_def is_digit_def NUL_def)

text \<open>A text with digits that denote more than a 64-bit signed integer can hold.\<close>

definition overflowing :: "string \<Rightarrow> bool" where
  "overflowing t \<longleftrightarrow> (\<exists>us ds vs. t = us @ ds @ vs \<and> list_all is_digit ds \<and> int64_max < decimal ds)"

text \<open>
  An exception of the parser on the text \<open>t\<close> names the symbol at its position; the undefined overflow
  is due to digits of the text.
\<close>

fun blames :: "string \<Rightarrow> string \<Rightarrow> parse_exn \<Rightarrow> bool" where
  "blames f t (ParseException d message) \<longleftrightarrow>
     (\<exists>us v tail. t = us @ v \<and> skip_text v = v \<and> located f us d
        \<and> message = take 1023 (''Unexpected symbol '' @ symbol_str (symbol_of v) @ tail))"
| "blames f t SignedOverflow \<longleftrightarrow> overflowing t"
| "blames f t e \<longleftrightarrow> False"

section \<open>The lexer keeps track of the position\<close>

context stream_reader
begin

definition tracks :: "string \<Rightarrow> string \<Rightarrow> 'r Parser \<Rightarrow> bool" where
  "tracks f t p \<longleftrightarrow> ok p \<and> (\<exists>us. t = us @ unread rest p \<and> located f us (ps_pos p))"

lemma tracks_same: "tracks f t p \<Longrightarrow> same p q \<Longrightarrow> tracks f t q"
  by (simp add: tracks_def same_def)

lemma tracks_advance:
  assumes "tracks f t p" and "k \<le> length (unread rest p)"
  shows "\<exists>q. advance k p = Some (Inr ((), q)) \<and> tracks f t q \<and> coherent q"
proof -
  obtain us where us: "t = us @ unread rest p" "located f us (ps_pos p)" "ok p"
    using assms(1) by (auto simp: tracks_def)
  obtain q where q: "advance k p = Some (Inr ((), q))" "ok q" "unread rest q = drop k (unread rest p)"
      "ps_pos q = moved k (unread rest p) (ps_pos p)" "ps_next_symbol q = S_invalid"
    using advance_unread [OF us(3)] by blast
  have "located f (us @ take k (unread rest p)) (ps_pos q)"
    using located_moved [OF us(2) assms(2)] q(4) by (simp add: moved_def)
  then have "tracks f t q"
    using q(2,3) us(1) unfolding tracks_def by (intro conjI exI [of _ "us @ take k (unread rest p)"]) simp_all
  then show ?thesis
    using q by (auto simp: coherent_def)
qed

text \<open>One character to the right, with the position moved accordingly.\<close>

lemma tracks_right:
  assumes "tracks f t p" and "buffered rest 1 p" and "unread rest p = c # s"
    and "\<And>us. located f us (ps_pos p) \<Longrightarrow> located f (us @ [c]) d"
  shows "tracks f t (move_right (p\<lparr>ps_pos := d\<rparr>)) \<and> unread rest (move_right (p\<lparr>ps_pos := d\<rparr>)) = s"
proof -
  have p: "ok (p\<lparr>ps_pos := d\<rparr>)" "buffered rest 1 (p\<lparr>ps_pos := d\<rparr>)"
    using assms(1,2) by (simp_all add: tracks_def)
  obtain us where us: "t = us @ c # s" "located f us (ps_pos p)"
    using assms(1,3) by (auto simp: tracks_def)
  have "unread rest (move_right (p\<lparr>ps_pos := d\<rparr>)) = s" "ok (move_right (p\<lparr>ps_pos := d\<rparr>))"
    using move_right_unread [OF p] assms(3) by simp_all
  then show ?thesis
    using us assms(4) unfolding tracks_def by (auto simp: move_right_def intro!: exI [of _ "us @ [c]"])
qed

lemma peek_next:
  assumes "tracks f t p"
  shows "\<exists>q. peek_at 0 p = Some (Inr (char_at (unread rest p) 0, q)) \<and> tracks f t q \<and> buffered rest 1 q
    \<and> unread rest q = unread rest p"
  using peek_at_unread [of p 0] assms tracks_same [OF assms] by (fastforce simp: tracks_def same_def)

lemma skip_comment_tracks:
  assumes "tracks f t p" and "buffered rest 1 p" and "unread rest p = c # s" and "\<not> is_newline c"
  shows "wlp (skip_comment n) p (\<lambda>c' q. tracks f t q \<and> buffered rest 1 q \<and> c' = char_at (unread rest q) 0)"
  using assms
proof (induction n arbitrary: p c s)
  case (Suc n)
  let ?p = "move_right (p\<lparr>ps_pos := next_column (ps_pos p)\<rparr>)"
  have p: "tracks f t ?p" "unread rest ?p = s"
    using tracks_right [OF Suc.prems(1-3)] Suc.prems(4) located_column by blast+
  obtain q where q: "peek_at 0 ?p = Some (Inr (char_at s 0, q))" "tracks f t q" "buffered rest 1 q" "unread rest q = s"
    using peek_next [OF p(1)] p(2) by auto
  have "wlp (skip_comment n) q (\<lambda>c' q. tracks f t q \<and> buffered rest 1 q \<and> c' = char_at (unread rest q) 0)"
    if "\<not> comment_end (char_at s 0)"
  proof (rule Suc.IH [OF q(2,3)])
    show "unread rest q = char_at s 0 # tl s" "\<not> is_newline (char_at s 0)"
      using that q(4) by (cases s; auto simp: comment_end_def char_at_def is_newline_def)+
  qed
  then show ?case
    using q by (simp add: wlp_def)
qed (simp add: wlp_none)

text \<open>How \<open>skip_whitespace\<close> moves the position for a blank that begins no comment.\<close>

definition blank_pos :: "char \<Rightarrow> DocumentPosition \<Rightarrow> DocumentPosition" where
  "blank_pos c d = (if c = CHR '' '' \<or> c = CHR 0x09 then next_column d else if c = CHR 0x0A then next_line d else d)"

lemma located_blank:
  assumes "is_blank c" and "c \<noteq> CHR ''#''" and "located f us d"
  shows "located f (us @ [c]) (blank_pos c d)"
proof -
  consider "c = CHR '' '' \<or> c = CHR 0x09" | "c = CHR 0x0A" | "c = CHR 0x0D"
    using assms(1,2) by (auto simp: is_blank_def)
  then show ?thesis
    by cases (use assms(3) in \<open>auto simp: blank_pos_def located_line located_return is_newline_def intro!: located_column\<close>)
qed

lemma skip_blanks_tracks:
  assumes "tracks f t p" and "buffered rest 1 p" and "c = char_at (unread rest p) 0"
  shows "wlp (skip_blanks n c) p (\<lambda>u q. tracks f t q)"
  using assms
proof (induction n arbitrary: p c)
  case (Suc n)
  let ?p = "p\<lparr>ps_pos := blank_pos c (ps_pos p)\<rparr>"
  have "wlp (if c = CHR ''#'' then pbind (skip_comment n) (skip_blanks n)
      else pbind (pmodify move_right) (\<lambda>_. pbind (peek_at 0) (skip_blanks n))) ?p (\<lambda>u q. tracks f t q)" if blank: "is_blank c"
  proof (rule wlp_if)
    obtain s where s: "unread rest p = c # s"
      using blank Suc.prems(3) by (cases "unread rest p") (auto simp: is_blank_def NUL_def)
    show "wlp (pbind (skip_comment n) (skip_blanks n)) ?p (\<lambda>u q. tracks f t q)" if "c = CHR ''#''"
    proof (rule wlp_bind, rule wlp_mono [OF skip_comment_tracks])
      show "tracks f t ?p" "buffered rest 1 ?p" "unread rest ?p = c # s"
        using Suc.prems s that by (simp_all add: blank_pos_def)
      show "\<not> is_newline c"
        by (simp add: is_newline_def that)
    qed (use Suc.IH in blast)
    show "wlp (pbind (pmodify move_right) (\<lambda>_. pbind (peek_at 0) (skip_blanks n))) ?p (\<lambda>u q. tracks f t q)"
      if "c \<noteq> CHR ''#''"
    proof -
      have "tracks f t (move_right ?p)"
        using tracks_right [OF Suc.prems(1,2) s] located_blank [OF blank that] by blast
      then obtain q where q: "peek_at 0 (move_right ?p) = Some (Inr (char_at (unread rest (move_right ?p)) 0, q))"
        "tracks f t q" "buffered rest 1 q" "unread rest q = unread rest (move_right ?p)"
        using peek_next by blast
      then show ?thesis
        using Suc.IH [OF q(2,3)] by (simp add: wlp_def)
    qed
  qed
  moreover have "wlp (preturn ()) p (\<lambda>u q. tracks f t q)"
    using Suc.prems(1) by (simp add: wlp_return)
  ultimately show ?case
    by (simp add: wlp_def blank_pos_def)
qed (simp add: wlp_none)

lemma skip_whitespace_tracks:
  assumes "tracks f t p"
  shows "wlp (skip_whitespace n) p (\<lambda>u q. tracks f t q)"
proof -
  obtain q where q: "peek_at 0 p = Some (Inr (char_at (unread rest p) 0, q))" "tracks f t q" "buffered rest 1 q"
    "unread rest q = unread rest p"
    using peek_next [OF assms] by blast
  have "wlp trim_opportunity q' (\<lambda>u q. tracks f t q)" if "tracks f t q'" for q'
    using trim_unread [of q'] that by (fastforce simp: tracks_def wlp_def)
  then have "wlp (pbind (skip_blanks n (char_at (unread rest p) 0)) (\<lambda>_. trim_opportunity)) q (\<lambda>u q. tracks f t q)"
    by (intro wlp_bind wlp_mono [OF skip_blanks_tracks [OF q(2,3)]]) (simp_all add: q(4))
  then show ?thesis
    using q(1) by (simp add: skip_whitespace_def wlp_def)
qed

text \<open>The invariant of the grammar: the position is tracked and the cached symbol is that of the text.\<close>

definition placed :: "string \<Rightarrow> string \<Rightarrow> 'r Parser \<Rightarrow> bool" where
  "placed f t p \<longleftrightarrow> tracks f t p \<and> coherent p"

lemma peek_symbol_placed:
  assumes "placed f t p"
  shows "wlp (peek_symbol n) p (\<lambda>y q. placed f t q \<and> at_symbol q (unread rest q) \<and> y = symbol_of (unread rest q))"
proof (rule fuel_wlp)
  fix k
  assume k: "length (unread rest p) < k"
  have p: "coherent p" "tracks f t p"
    using assms by (simp_all add: placed_def)
  obtain q where q: "peek_symbol k p = Some (Inr (symbol_of (skip_text (unread rest p)), q))" "at_symbol q (skip_text (unread rest p))"
    using peek_symbol_text [OF p(1) k] by blast
  have "tracks f t q"
  proof (cases "ps_next_symbol p = S_invalid")
    case True
    obtain q1 where q1: "skip_whitespace k p = Some (Inr ((), q1))" "ok q1" "unread rest q1 = skip_text (unread rest p)"
      using skip_whitespace_text [OF coherent_ok [OF p(1)] k] by (auto simp: reaches_def)
    then have "tracks f t q1"
      using skip_whitespace_tracks [OF p(2), of k] by (simp add: wlp_def)
    moreover obtain q2 where "classify_symbol k q1 = Some (Inr (symbol_of (unread rest q1), q2))" "same q1 q2"
      using classify_symbol_text [OF q1(2), of k] q1(3) k length_skip_text [of "unread rest p"] by (auto simp: looks_def)
    ultimately show ?thesis
      using q(1) q1(1) True tracks_same [of f t q1 q2] by (auto simp: peek_symbol_def tracks_def)
  next
    case False
    then show ?thesis
      using q(1) p(2) by (simp add: peek_symbol_def)
  qed
  then show "wlp (peek_symbol k) p (\<lambda>y q. placed f t q \<and> at_symbol q (unread rest q) \<and> y = symbol_of (unread rest q))"
    using q at_symbol_coherent [OF q(2)] by (simp add: wlp_def placed_def at_symbol_def)
qed (rule peek_symbol_below)

section \<open>Errors are reported where they are\<close>

text \<open>
  \<open>safely f t m p P\<close>: run from \<open>p\<close>, \<open>m\<close> does not return, throws an exception that names the symbol at its
  position, or returns with \<open>P\<close>.
\<close>

definition safely ::
    "string \<Rightarrow> string \<Rightarrow> ('r Parser, 'a) parse \<Rightarrow> 'r Parser \<Rightarrow> ('a \<Rightarrow> 'r Parser \<Rightarrow> bool) \<Rightarrow> bool" where
  "safely f t m p P \<longleftrightarrow> (\<forall>e. m p = Some (Inl e) \<longrightarrow> blames f t e) \<and> wlp m p P"

lemma safely_bind: "safely f t m p (\<lambda>x q. safely f t (g x) q P) \<Longrightarrow> safely f t (pbind m g) p P"
  by (auto simp: safely_def wlp_def pbind_def split: option.split_asm sum.split_asm)

lemma safely_return: "P a p \<Longrightarrow> safely f t (preturn a) p P"
  by (simp add: safely_def wlp_def)

lemma safely_none: "safely f t (\<lambda>p. None) p P"
  by (simp add: safely_def wlp_def)

lemma safely_result: "m p = Some (Inr (x, q)) \<Longrightarrow> P x q \<Longrightarrow> safely f t m p P"
  by (simp add: safely_def wlp_def)

lemma safely_throw: "m p = Some (Inl e) \<Longrightarrow> blames f t e \<Longrightarrow> safely f t m p P"
  by (simp add: safely_def wlp_def)

lemma safely_mono: "safely f t m p P \<Longrightarrow> (\<And>x q. P x q \<Longrightarrow> Q x q) \<Longrightarrow> safely f t m p Q"
  by (simp add: safely_def wlp_def)

lemma safely_if: "(b \<Longrightarrow> safely f t m p P) \<Longrightarrow> (\<not> b \<Longrightarrow> safely f t m' p P) \<Longrightarrow> safely f t (if b then m else m') p P"
  by simp

lemma safely_peek_at:
  assumes "ok p" and "\<And>q. same p q \<Longrightarrow> P (char_at (unread rest p) k) q"
  shows "safely f t (peek_at k) p P"
  using peek_at_same [OF assms(1), of k] assms(2) by (auto intro: safely_result)

lemma safely_peek:
  assumes "placed f t p"
  shows "safely f t (peek_symbol n) p (\<lambda>y q. placed f t q \<and> at_symbol q (unread rest q) \<and> y = symbol_of (unread rest q))"
proof -
  have "peek_symbol n p \<noteq> Some (Inl e)" for e
  proof
    assume e: "peek_symbol n p = Some (Inl e)"
    define k where "k = max n (Suc (length (unread rest p)))"
    have "peek_symbol k p = Some (Inl e)"
      using below_D [OF peek_symbol_below, of n k p] e by (simp add: k_def)
    then show False
      using peek_symbol_text [of p k] assms by (simp add: placed_def k_def less_max_iff_disj)
  qed
  then show ?thesis
    using peek_symbol_placed [OF assms] by (simp add: safely_def)
qed

lemma blames_here:
  assumes "placed f t q" and "at_symbol q (unread rest q)"
  shows "blames f t (ParseException (ps_pos q) (take 1023 (''Unexpected symbol '' @ symbol_str (symbol_of (unread rest q)) @ tail)))"
  using assms by (auto simp: placed_def tracks_def at_symbol_def)

lemma safely_expect:
  assumes "placed f t p"
  shows "safely f t (expect n y) p (\<lambda>u q. placed f t q \<and> at_symbol q (unread rest q) \<and> symbol_of (unread rest q) = y)"
  unfolding expect_def
proof (rule safely_bind, rule safely_mono [OF safely_peek [OF assms]], elim conjE, rule safely_if)
  fix s q
  assume q: "placed f t q" "at_symbol q (unread rest q)"
  show "safely f t (unexpected n y) q (\<lambda>u q. placed f t q \<and> at_symbol q (unread rest q) \<and> symbol_of (unread rest q) = y)"
    by (rule safely_throw, rule unexpected_text [OF q(2)], rule blames_here [OF q])
qed (simp add: safely_return)

lemma safely_unexpected_in: "placed f t p \<Longrightarrow> safely f t (unexpected_in n ctx) p P"
  unfolding unexpected_in_def throw_at_def
proof (rule safely_bind, erule safely_mono [OF safely_peek], elim conjE)
  fix y q
  assume q: "placed f t q" "at_symbol q (unread rest q)" "y = symbol_of (unread rest q)"
  show "safely f t (pbind current_position (\<lambda>d. pthrow (ParseException d (take 1023
      (''Unexpected symbol '' @ symbol_str y @ '' in '' @ ctx))))) q P"
    unfolding q(3) current_position_def
    by (rule safely_throw, subst pbind_simps(3), rule parse_simps(3), rule parse_simps(2), rule blames_here [OF q(1,2)])
qed

lemma safely_advance:
  assumes "placed f t p" and "k \<le> length (unread rest p)"
  shows "safely f t (advance k) p (\<lambda>u q. placed f t q)"
  using tracks_advance [of f t p k] assms by (auto simp: placed_def intro: safely_result)

lemma safely_trim:
  assumes "placed f t p"
  shows "safely f t trim_opportunity p (\<lambda>u q. placed f t q)"
proof -
  obtain q where "trim_opportunity p = Some (Inr ((), q))" "ok q" "unread rest q = unread rest p" "ps_pos q = ps_pos p"
    "ps_next_symbol q = ps_next_symbol p"
    using trim_unread [of p] assms by (auto simp: placed_def tracks_def)
  then show ?thesis
    using assms by (auto simp: placed_def tracks_def coherent_def intro: safely_result)
qed

lemma placed_same: "placed f t p \<Longrightarrow> same p q \<Longrightarrow> placed f t q"
  using tracks_same [of f t p q] by (simp add: placed_def coherent_def same_def)

section \<open>The grammar keeps track of the position\<close>

definition keeps :: "string \<Rightarrow> string \<Rightarrow> ('r Parser, 'a) parse \<Rightarrow> bool" where
  "keeps f t m \<longleftrightarrow> (\<forall>p. placed f t p \<longrightarrow> safely f t m p (\<lambda>x q. placed f t q))"

lemma keepsI: "(\<And>p. placed f t p \<Longrightarrow> safely f t m p (\<lambda>x q. placed f t q)) \<Longrightarrow> keeps f t m"
  by (simp add: keeps_def)

lemma keeps_bind [track_intros]: "keeps f t m \<Longrightarrow> (\<And>a. keeps f t (g a)) \<Longrightarrow> keeps f t (pbind m g)"
  unfolding keeps_def by (blast intro: safely_bind safely_mono)

lemma keeps_return [track_intros]: "keeps f t (preturn a)"
  by (simp add: keeps_def safely_return)

lemma keeps_none [track_intros]: "keeps f t (\<lambda>p. None)"
  by (simp add: keeps_def safely_none)

lemma keeps_if [track_intros]: "(b \<Longrightarrow> keeps f t m) \<Longrightarrow> (\<not> b \<Longrightarrow> keeps f t m') \<Longrightarrow> keeps f t (if b then m else m')"
  by simp

lemma keeps_position [track_intros]: "keeps f t current_position"
  by (simp add: keeps_def safely_def wlp_def current_position_def)

lemma keeps_unexpected_in [track_intros]: "keeps f t (unexpected_in n ctx)"
  by (simp add: keeps_def safely_unexpected_in)

lemma keeps_peek [track_intros]: "keeps f t (peek_symbol n)"
  by (rule keepsI, rule safely_mono [OF safely_peek]) simp_all

lemma safely_looked:
  "same p q \<Longrightarrow> safely f t m q (\<lambda>r q'. same q q' \<and> Q r) \<Longrightarrow> safely f t m q (\<lambda>r q'. same p q' \<and> Q r)"
  by (erule safely_mono) (auto dest: same_trans)

lemma safely_behind:
  assumes "placed f t p" and "same p q" and "k \<le> length (unread rest p)"
  shows "safely f t (pbind (advance k) (\<lambda>_. preturn x)) q (\<lambda>x q. placed f t q)"
  by (rule safely_bind, rule safely_mono [OF safely_advance [OF placed_same [OF assms(1,2)]]])
    (use assms(3) same_D [OF assms(2)] in \<open>simp_all add: safely_return\<close>)

text \<open>A token is an expected symbol, a look at its characters and a step behind them.\<close>

lemma keeps_token:
  assumes "\<And>p. placed f t p \<Longrightarrow> at_symbol p (unread rest p) \<Longrightarrow> symbol_of (unread rest p) = y \<Longrightarrow>
    safely f t m p (\<lambda>x q. placed f t q)"
  shows "keeps f t (pbind (expect n y) (\<lambda>u. m))"
  by (rule keepsI, rule safely_bind, rule safely_mono [OF safely_expect], assumption) (use assms in blast)

lemma keeps_sized_symbol:
  assumes "symbol_length y \<noteq> None"
  shows "keeps f t (parse_symbol n y)"
  unfolding parse_symbol_def
proof (rule keeps_token)
  fix p
  assume p: "placed f t p" "symbol_of (unread rest p) = y"
  show "safely f t (case symbol_length y of None \<Rightarrow> pthrow (LogicError ''Invalid parse_symbol usage'')
      | Some k \<Rightarrow> pbind (advance k) (\<lambda>_. trim_opportunity)) p (\<lambda>x q. placed f t q)"
  proof (cases "symbol_length y")
    case (Some k)
    then show ?thesis
      using symbol_of_sized [of "unread rest p" k] p
      by (auto intro!: safely_bind safely_mono [OF safely_advance [OF p(1)]] safely_trim)
  qed (use assms in simp)
qed

text \<open>The symbols that the grammar asks for all have a length.\<close>

lemma keeps_parse_symbol [track_intros]:
  "keeps f t (parse_symbol n S_curly_open)" "keeps f t (parse_symbol n S_curly_close)"
  "keeps f t (parse_symbol n S_bracket_open)" "keeps f t (parse_symbol n S_bracket_close)"
  "keeps f t (parse_symbol n S_colon)" "keeps f t (parse_symbol n S_namespace_sep)" "keeps f t (parse_symbol n S_include_kw)"
  "keeps f t (parse_symbol n S_namespace_kw)" "keeps f t (parse_symbol n S_struct_kw)" "keeps f t (parse_symbol n S_mapping_kw)"
  "keeps f t (parse_symbol n S_encoding_kw)" "keeps f t (parse_symbol n S_delta_kw)"
  by (simp_all add: keeps_sized_symbol)

lemma scan_ident_safely:
  assumes "ok p" and "length str \<le> length (unread rest p)"
  shows "safely f t (scan_ident n (length str) str) p (\<lambda>r q. same p q \<and> length r \<le> length (unread rest p))"
  using assms
proof (induction n arbitrary: p str)
  case (Suc n)
  let ?c = "char_at (unread rest p) (length str)"
  show ?case
    unfolding scan_ident.simps
  proof (rule safely_bind, rule safely_peek_at [OF Suc.prems(1)], rule safely_if)
    fix q
    assume q: "same p q"
    show "safely f t (preturn str) q (\<lambda>r q. same p q \<and> length r \<le> length (unread rest p))"
      using q Suc.prems(2) by (simp add: safely_return)
    assume "is_ident_char ?c"
    then have "length str < length (unread rest p)"
      by (metis char_at_inside NUL_in_no_word(1))
    then show "safely f t (scan_ident n (Suc (length str)) (str @ [?c])) q (\<lambda>r q. same p q \<and> length r \<le> length (unread rest p))"
      using safely_looked [OF q Suc.IH [of q "str @ [?c]"]] same_D [OF q] by simp
  qed
qed (simp add: safely_none)

lemma keeps_identifier [track_intros]: "keeps f t (parse_identifier n)"
  unfolding parse_identifier_def
proof (rule keeps_token, rule safely_bind)
  fix p
  assume p: "placed f t p"
  have "safely f t (scan_ident n 0 []) p (\<lambda>r q. same p q \<and> length r \<le> length (unread rest p))"
    using scan_ident_safely [of p "[]"] p by (simp add: placed_def tracks_def)
  then show "safely f t (scan_ident n 0 []) p (\<lambda>r q. safely f t (pbind (advance (length r)) (\<lambda>_. preturn r)) q (\<lambda>x q. placed f t q))"
    by (rule safely_mono) (simp add: safely_behind [OF p])
qed

lemma string_loop_safely:
  assumes "ok p" and "d \<noteq> NUL"
  shows "safely f t (string_loop n d k acc) p (\<lambda>r q. same p q \<and> fst r \<le> length (unread rest p))"
  using assms(1)
proof (induction n arbitrary: p k acc)
  case (Suc n)
  have step: "safely f t (string_loop n d k' acc') q (\<lambda>r q. same p q \<and> fst r \<le> length (unread rest p))" if "same p q" for k' acc' q
    using safely_looked [OF that Suc.IH [of q k' acc']] same_D [OF that] by simp
  show ?case
    unfolding string_loop.simps
  proof (rule safely_bind, rule safely_peek_at [OF Suc.prems(1)], intro safely_if)
    fix q
    assume q: "same p q"
    show "safely f t (preturn (k + 1, acc)) q (\<lambda>r q. same p q \<and> fst r \<le> length (unread rest p))"
      if "char_at (unread rest p) k = d"
      using char_at_inside [of "unread rest p" k] that assms(2) q by (simp add: safely_return)
    show "safely f t (pbind (peek_at (k + 1)) (\<lambda>e. string_loop n d (k + 2) (acc @ [escape_char e]))) q
        (\<lambda>r q. same p q \<and> fst r \<le> length (unread rest p))"
      by (rule safely_bind, rule safely_peek_at) (use same_D [OF q] step same_trans [OF q] in auto)
    show "safely f t (string_loop n d (k + 1) (acc @ [char_at (unread rest p) k])) q
        (\<lambda>r q. same p q \<and> fst r \<le> length (unread rest p))"
      by (rule step [OF q])
  qed
qed (simp add: safely_none)

lemma keeps_string [track_intros]: "keeps f t (parse_string n)"
  unfolding parse_string_def
proof (rule keeps_token, rule safely_bind)
  fix p
  assume p: "placed f t p" "symbol_of (unread rest p) = S_string"
  let ?d = "char_at (unread rest p) 0"
  have d: "?d \<noteq> NUL"
    using symbol_of_string [OF p(2)] by fastforce
  have loop: "safely f t (string_loop n ?d 1 []) q (\<lambda>r q'. same p q' \<and> fst r \<le> length (unread rest p))" if "same p q" for q
    using safely_looked [OF that string_loop_safely [of q ?d]] d same_D [OF that] by simp
  show "safely f t (peek_at 0) p (\<lambda>delim q. safely f t (pbind (string_loop n delim 1 []) (\<lambda>(len, ret).
      pbind (advance len) (\<lambda>_. preturn ret))) q (\<lambda>x q. placed f t q))"
    by (rule safely_peek_at, use p(1) in \<open>simp add: placed_def tracks_def\<close>, rule safely_bind, rule safely_mono [OF loop])
      (auto simp: safely_behind [OF p(1)])
qed

text \<open>The accumulator is the value of the digits \<open>ds\<close> read so far, which stand before the offset \<open>k\<close>.\<close>

lemma integer_loop_safely:
  assumes "tracks f t p" and "k \<le> length (unread rest p)"
    and "take k (unread rest p) = s @ ds" and "list_all is_digit ds" and "v = decimal ds"
  shows "safely f t (integer_loop n k v) p (\<lambda>r q. same p q \<and> fst r \<le> length (unread rest p))"
  using assms
proof (induction n arbitrary: p k v ds)
  case (Suc n)
  let ?c = "char_at (unread rest p) k"
  have ok: "ok p"
    using Suc.prems(1) by (simp add: tracks_def)
  have next_digit: "k < length (unread rest p) \<and> take (k + 1) (unread rest p) = s @ ds @ [?c] \<and> list_all is_digit (ds @ [?c])
      \<and> v * 10 + digit_value ?c = decimal (ds @ [?c])" if "is_digit ?c"
  proof -
    have "k < length (unread rest p)"
      using that by (metis char_at_inside NUL_in_no_word(2))
    then show ?thesis
      using that Suc.prems(3-5) by (simp add: take_Suc_conv_app_nth char_at_def decimal_snoc)
  qed
  show ?case
    unfolding integer_loop.simps
  proof (rule safely_bind, rule safely_peek_at [OF ok], intro safely_if)
    fix q
    assume q: "same p q"
    show "safely f t (preturn (k, v)) q (\<lambda>r q. same p q \<and> fst r \<le> length (unread rest p))"
      using q Suc.prems(2) by (simp add: safely_return)
    assume digit: "\<not> \<not> is_digit ?c"
    note d = next_digit [OF digit [simplified]]
    show "safely f t (pthrow SignedOverflow) q (\<lambda>r q. same p q \<and> fst r \<le> length (unread rest p))"
      if "int64_max < v * 10 + digit_value ?c"
    proof (rule safely_throw)
      obtain us where "t = us @ unread rest p"
        using Suc.prems(1) by (auto simp: tracks_def)
      then have "t = (us @ s) @ (ds @ [?c]) @ drop (k + 1) (unread rest p)"
        using d by (metis append.assoc append_take_drop_id)
      then show "blames f t SignedOverflow"
        using d that unfolding blames.simps overflowing_def by metis
    qed simp
    show "safely f t (integer_loop n (k + 1) (v * 10 + digit_value ?c)) q (\<lambda>r q. same p q \<and> fst r \<le> length (unread rest p))"
      using safely_looked [OF q Suc.IH [of q "k + 1" "ds @ [?c]"]] same_D [OF q] d tracks_same [OF Suc.prems(1) q] by simp
  qed
qed (simp add: safely_none)

lemma keeps_integer [track_intros]: "keeps f t (parse_integer n)"
  unfolding parse_integer_def
proof (rule keeps_token, rule safely_bind)
  fix p
  assume p: "placed f t p" "symbol_of (unread rest p) = S_integer"
  let ?c = "char_at (unread rest p) 0"
  let ?k = "if ?c = CHR ''-'' \<or> ?c = CHR ''+'' then 1 else 0 :: nat"
  have k: "?k \<le> length (unread rest p)"
    using symbol_of_integer [OF p(2)] by auto
  have loop: "safely f t (integer_loop n ?k 0) q (\<lambda>r q'. same p q' \<and> fst r \<le> length (unread rest p))" if "same p q" for q
    using safely_looked [OF that integer_loop_safely [of f t q ?k "take ?k (unread rest p)" "[]" 0]] k same_D [OF that]
      tracks_same [OF _ that] p(1) by (simp add: placed_def decimal_def)
  show "safely f t (peek_at 0) p (\<lambda>c q. safely f t (let negative = (c = CHR ''-'');
           len = (if c = CHR ''-'' \<or> c = CHR ''+'' then 1 else 0)
       in pbind (integer_loop n len 0) (\<lambda>(len, ret).
          pbind (advance len) (\<lambda>_. preturn (if negative then - ret else ret)))) q (\<lambda>x q. placed f t q))"
    unfolding Let_def
    by (rule safely_peek_at, use p(1) in \<open>simp add: placed_def tracks_def\<close>, rule safely_bind, rule safely_mono [OF loop])
      (auto simp: safely_behind [OF p(1)])
qed

lemma keeps_qualified_loop [track_intros]: "keeps f t (qualified_loop n sp tmp)"
proof (induction n arbitrary: sp tmp)
  case (Suc n)
  then show ?case
    unfolding qualified_loop.simps by (intro track_intros)
qed (simp add: keeps_none)

lemma keeps_names [track_intros]: "keeps f t (parse_qualified_identifier n)" "keeps f t (parse_type n)" "keeps f t (parse_include n)"
  "keeps f t (parse_struct_field n)" "keeps f t (parse_mapping_field n)" "keeps f t (parse_encoding_name n)"
  unfolding parse_qualified_identifier_def parse_type_def parse_include_def parse_struct_field_def parse_mapping_field_def
    parse_encoding_name_def
  by (intro track_intros)+

lemma keeps_until_close [track_intros]:
  assumes "\<And>n. keeps f t (item n)"
  shows "keeps f t (until_close n item acc)"
proof (induction n arbitrary: acc)
  case (Suc n)
  then show ?case
    unfolding until_close.simps by (intro track_intros assms)
qed (simp add: keeps_none)

lemma keeps_encoding_field [track_intros]: "keeps f t (parse_encoding_field n)"
  unfolding parse_encoding_field_def by (intro track_intros)

lemma keeps_nodes [track_intros]:
  "keeps f t (parse_encoding_node n)" "keeps f t (parse_encoding_delta_block n)" "keeps f t (encoding_nodes n acc)"
proof (induction n arbitrary: acc)
  case (Suc n)
  {
    case 1
    show ?case
      by (auto intro!: keeps_bind keeps_peek Suc.IH keeps_encoding_field keeps_unexpected_in split: Symbol.split)
  next
    case 2
    show ?case
      by (auto intro!: keeps_bind keeps_position keeps_parse_symbol keeps_peek Suc.IH keeps_return keeps_unexpected_in split: Symbol.split)
  next
    case 3
    show ?case
      unfolding encoding_nodes.simps by (intro track_intros Suc.IH)
  }
qed (simp_all add: keeps_none)

lemma keeps_decls [track_intros]: "keeps f t (parse_struct n)" "keeps f t (parse_mapping n)" "keeps f t (parse_encoding n)"
  "keeps f t (parse_namespace n)"
  unfolding parse_struct_def parse_mapping_def parse_encoding_def parse_namespace_def by (intro track_intros)+

lemma keeps_includes_loop [track_intros]: "keeps f t (includes_loop n acc)"
proof (induction n arbitrary: acc)
  case (Suc n)
  then show ?case
    unfolding includes_loop.simps by (intro track_intros)
qed (simp add: keeps_none)

lemma keeps_decls_loop [track_intros]: "keeps f t (decls_loop n node)"
proof (induction n arbitrary: node)
  case (Suc n)
  then show ?case
    by (auto intro!: keeps_bind keeps_peek keeps_decls keeps_return keeps_unexpected_in split: Symbol.split)
qed (simp add: keeps_none)

lemma keeps_document: "keeps f t (parse_document n)"
  unfolding parse_document_def by (intro track_intros)

text \<open>A document that begins with a symbol that no declaration begins with.\<close>

lemma document_refused:
  assumes "coherent p" and "length (unread rest p) < n"
    and "symbol_of (skip_text (unread rest p)) \<notin> {S_include_kw, S_namespace_kw, S_struct_kw, S_mapping_kw, S_encoding_kw, S_eof}"
  shows "\<exists>d message. parse_document n p = Some (Inl (ParseException d message))"
proof -
  obtain q where q: "peek_symbol n p = Some (Inr (symbol_of (skip_text (unread rest p)), q))" "at_symbol q (skip_text (unread rest p))"
    using peek_symbol_text [OF assms(1,2)] by blast
  obtain k where k: "n = Suc k"
    using assms(2) by (cases n) simp_all
  have "parse_document n p = decls_loop n \<lparr>rt_origin = ps_pos p, rt_includes = [], rt_space = \<lparr>qi_space = [], qi_name = []\<rparr>,
      rt_struct_decls = [], rt_map_decls = [], rt_enco_decls = []\<rparr> q"
    using q(1) at_symbol_peek [OF q(2)] assms(3)
    by (simp add: parse_document_def parse_namespace_def current_position_def k)
  also have "\<dots> = unexpected_in n ''document'' q"
    using at_symbol_peek [OF q(2), of n] assms(3) by (auto simp: k split: Symbol.split)
  also have "\<dots> = Some (Inl (ParseException (ps_pos q) (take 1023
      (''Unexpected symbol '' @ symbol_str (symbol_of (skip_text (unread rest p))) @ '' in '' @ ''document''))))"
    by (rule unexpected_in_text [OF q(2)])
  finally show ?thesis
    by blast
qed

lemma parse_blames:
  assumes "good r" and "parse n f \<lparr>sr_state = r, sr_read = read\<rparr> = Some (Inl e)"
  shows "blames f (rest r) e"
proof -
  let ?p = "new_Parser f \<lparr>sr_state = r, sr_read = read\<rparr>"
  have "placed f (rest r) ?p"
    using assms(1) by (simp add: placed_def tracks_def coherent_def ok_def unread_def buffered_def new_Parser_def located_def)
  moreover obtain z where z: "parse_document n ?p = Some z" "map_sum id fst z = Inl e"
    using assms(2) unfolding parse_def by blast
  moreover have "z = Inl e"
    using z(2) by (cases z) auto
  ultimately show ?thesis
    using keeps_document [of f "rest r" n] by (simp add: keeps_def safely_def)
qed

end

section \<open>Property\<close>

text \<open>
  C19. Errors are reported where they are. \<open>Parser::parse\<close> throws no exception but \<open>ParseException\<close>, unless
  an integer overflows, and the message of a \<open>ParseException\<close> names the symbol that begins at the position
  it carries: the line counts the newlines before that symbol, and the column the characters since
  the last newline, if no carriage return comes before the symbol.
\<close>

theorem parse_error_position:
  assumes "stream_reader rd rest good" and "good r"
    and "parse n file_name \<lparr>sr_state = r, sr_read = rd\<rparr> = Some (Inl e)" and "e \<noteq> SignedOverflow"
  shows "\<exists>d us v tail. rest r = us @ v \<and> skip_text v = v
    \<and> e = ParseException d (take 1023 (''Unexpected symbol '' @ symbol_str (symbol_of v) @ tail))
    \<and> dp_file d = file_name \<and> dp_line d = 1 + int (length (filter is_newline us))
    \<and> (CHR 0x0D \<notin> set us \<longrightarrow> dp_column d = int (length (takeWhile (\<lambda>c. \<not> is_newline c) (rev us))))"
  using stream_reader.parse_blames [OF assms(1-3)] assms(4) by (cases e) (simp_all add: located_def, blast)

theorem parse_error_position_witness:
  "\<exists>e. parse 9 ''f'' \<lparr>sr_state = \<lparr>fi_bytes = newline @ '' :'', fi_error = None\<rparr>, sr_read = StdinReader_read\<rparr>
      = Some (Inl e)
    \<and> (\<exists>d us v tail. newline @ '' :'' = us @ v \<and> skip_text v = v
         \<and> e = ParseException d (take 1023 (''Unexpected symbol '' @ symbol_str (symbol_of v) @ tail))
         \<and> dp_file d = ''f'' \<and> dp_line d = 1 + int (length (filter is_newline us))
         \<and> (CHR 0x0D \<notin> set us \<longrightarrow> dp_column d = int (length (takeWhile (\<lambda>c. \<not> is_newline c) (rev us)))))"
proof -
  let ?f = "\<lparr>fi_bytes = newline @ '' :'', fi_error = None\<rparr>"
  let ?p = "new_Parser ''f'' (StdinReader ?f)"
  have "symbol_of (skip_text (newline @ '' :'')) = S_colon"
    by (simp add: newline_def is_blank_def NUL_def is_digit_def sign_of_def)
  then have "\<exists>d message. parse_document 9 ?p = Some (Inl (ParseException d message))"
    by (intro stdin.document_refused [OF start_coherent(1)]) (simp_all add: start_coherent(2) newline_def)
  then obtain d message where e: "parse 9 ''f'' (StdinReader ?f) = Some (Inl (ParseException d message))"
    by (auto simp: parse_def)
  from parse_error_position [OF stdin.stream_reader_axioms _ this [unfolded StdinReader_def]] e show ?thesis
    by (intro exI [of _ "ParseException d message"]) (simp add: StdinReader_def)
qed

end
