(* ===== verification/HappyProgram.thy ===== *)
theory HappyProgram
  imports HappyPosition
begin

text \<open>
  The program \<open>happy\<close> as a whole (\<^verbatim>\<open>tools/happy/src/Main.cpp\<close>): which inputs it accepts, what it prints for
  them, and how it reports the others.
\<close>

text \<open>Positions are not printed.\<close>

lemma print_erased: "print_root (erase_root t) = print_root t"
  by (simp add: print_root_def erase_root_def print_include_def erase_include_def print_struct_def erase_struct_def
      print_struct_field_def erase_struct_field_def comp_def)

lemma report_code: "report e = Exit code out err \<Longrightarrow> code = 1 \<and> out = []"
  by (cases e) simp_all

lemma happy_main_accepts:
  assumes "fi_error f = None" and "length (fi_bytes f) + 2 \<le> n"
  shows "happy_main n f = Some (Exit 0 out err) \<longleftrightarrow> err = [] \<and> (\<exists>y. g_document (tokens (fi_bytes f)) y \<and> out = print_root y)"
proof -
  have "happy_main n f = Some (Exit 0 out err)
      \<longleftrightarrow> (\<exists>t. parse n ''<stdin>'' (StdinReader f) = Some (Inr t) \<and> out = print_root t \<and> err = [])"
    using report_code [of _ 0 out err] by (auto simp: happy_main_def split: sum.split_asm)
  also have "\<dots> \<longleftrightarrow> err = [] \<and> (\<exists>y. (\<exists>t. parse n ''<stdin>'' (StdinReader f) = Some (Inr t) \<and> erase_root t = y) \<and> out = print_root y)"
    by (auto simp: print_erased)
  finally show ?thesis
    using stdin.parse_iff_grammar [OF assms StdinReader_def] by simp
qed

text \<open>
  The line that reports an error in a text: the position of a symbol, and what is wrong with it.
  The line counts the newlines before the symbol; the column counts the characters after the last of
  them, unless a carriage return comes before the symbol.
\<close>

definition error_line :: "string \<Rightarrow> string \<Rightarrow> bool" where
  "error_line t err \<longleftrightarrow>
     (\<exists>us v tail column. t = us @ v \<and> skip_text v = v
        \<and> err = ''<stdin>:'' @ show_int (1 + int (length (filter is_newline us))) @ '':'' @ show_int column @ '': ''
            @ take 1023 (''Unexpected symbol '' @ symbol_str (symbol_of v) @ tail) @ newline
        \<and> (CHR 0x0D \<notin> set us \<longrightarrow> column = int (length (takeWhile (\<lambda>c. \<not> is_newline c) (rev us)))))"

lemma report_blamed:
  assumes "blames ''<stdin>'' t e"
  shows "(\<exists>err. report e = Exit 1 [] err \<and> error_line t err) \<or> report e = Undefined \<and> overflowing t"
proof (cases e)
  case (ParseException d message)
  then obtain us v tail where us: "t = us @ v" "skip_text v = v" "located ''<stdin>'' us d"
      "message = take 1023 (''Unexpected symbol '' @ symbol_str (symbol_of v) @ tail)"
    using assms unfolding ParseException blames.simps by blast
  let ?err = "dp_file d @ '':'' @ show_int (dp_line d) @ '':'' @ show_int (dp_column d) @ '': '' @ message @ newline"
  have "?err = ''<stdin>:'' @ show_int (1 + int (length (filter is_newline us))) @ '':'' @ show_int (dp_column d) @ '': ''
      @ take 1023 (''Unexpected symbol '' @ symbol_str (symbol_of v) @ tail) @ newline"
    using us(3) unfolding us(4) located_def by simp
  moreover have "CHR 0x0D \<notin> set us \<longrightarrow> dp_column d = int (length (takeWhile (\<lambda>c. \<not> is_newline c) (rev us)))"
    using us(3) by (simp add: located_def)
  ultimately have "error_line t ?err"
    unfolding error_line_def using us(1,2)
    by (intro exI [of _ us] exI [of _ v] exI [of _ tail] exI [of _ "dp_column d"]) simp
  then show ?thesis
    unfolding ParseException report.simps by blast
qed (use assms in simp_all)

lemma happy_main_none:
  assumes "fi_error f = None" and "length (fi_bytes f) + 2 \<le> n" and "happy_main n f = None"
  shows "quoted (fi_bytes f)" and "happy_main m f = None"
proof -
  note settled = stdin.parse_settled [OF assms(1), of _ _ "StdinReader f" "''<stdin>''", OF _ _ StdinReader_def]
  have none: "parse n ''<stdin>'' (StdinReader f) = None"
    using assms(3) by (simp add: happy_main_def)
  then show "quoted (fi_bytes f)"
    using settled(2) [OF assms(2) order_refl] by blast
  have "parse m ''<stdin>'' (StdinReader f) = None"
  proof (cases "m \<le> n")
    case True
    then show ?thesis
      using parse_more_fuel [OF True] none by fastforce
  next
    case False
    then show ?thesis
      using settled(1) [OF assms(2), of m] none by simp
  qed
  then show "happy_main m f = None"
    by (simp add: happy_main_def)
qed

text \<open>
  C2. The program. On an input without read errors, \<open>happy\<close> exits with 0 if and only if the tokens of
  the input form a document of the grammar, and then prints that document and nothing else. On every
  other input one of three things happens. It exits with 1, prints nothing, and its error output is
  one line with the position and the name of the symbol that begins there; or, only if the input
  has digits that denote more than a 64-bit signed integer can hold, the accumulation of such an
  integer overflows, which is undefined; or, only if the input contains a quotation mark, it never
  ends, whatever the fuel of the model. With neither, it exits with 1.
\<close>

theorem happy_main_correct:
  assumes "fi_error f = None" and "length (fi_bytes f) + 2 \<le> n"
  shows "(\<forall>out err. happy_main n f = Some (Exit 0 out err)
        \<longleftrightarrow> err = [] \<and> (\<exists>y. g_document (tokens (fi_bytes f)) y \<and> out = print_root y))
    \<and> ((\<nexists>y. g_document (tokens (fi_bytes f)) y) \<longrightarrow>
        (\<exists>err. happy_main n f = Some (Exit 1 [] err) \<and> error_line (fi_bytes f) err)
        \<or> (happy_main n f = Some Undefined \<and> overflowing (fi_bytes f))
        \<or> ((\<forall>m. happy_main m f = None) \<and> quoted (fi_bytes f)))"
proof (intro conjI allI impI)
  show accepts: "happy_main n f = Some (Exit 0 out err)
      \<longleftrightarrow> err = [] \<and> (\<exists>y. g_document (tokens (fi_bytes f)) y \<and> out = print_root y)" for out err
    by (rule happy_main_accepts [OF assms])
  assume refused: "\<nexists>y. g_document (tokens (fi_bytes f)) y"
  show "(\<exists>err. happy_main n f = Some (Exit 1 [] err) \<and> error_line (fi_bytes f) err)
      \<or> (happy_main n f = Some Undefined \<and> overflowing (fi_bytes f))
      \<or> ((\<forall>m. happy_main m f = None) \<and> quoted (fi_bytes f))"
  proof (cases "parse n ''<stdin>'' (StdinReader f)")
    case None
    then have "happy_main n f = None"
      by (simp add: happy_main_def)
    then show ?thesis
      using happy_main_none [OF assms] by blast
  next
    case (Some z)
    show ?thesis
    proof (cases z)
      case (Inl e)
      then have "blames ''<stdin>'' (fi_bytes f) e" "happy_main n f = Some (report e)"
        using stdin.parse_blames [OF assms(1)] Some by (simp_all add: StdinReader_def happy_main_def)
      then show ?thesis
        using report_blamed by metis
    next
      case (Inr root)
      then have "happy_main n f = Some (Exit 0 (print_root root) [])"
        using Some by (simp add: happy_main_def)
      then show ?thesis
        using accepts refused by blast
    qed
  qed
qed

text \<open>A document, and a text that is none: it begins with a colon.\<close>

theorem happy_main_correct_witness:
  "happy_main 100 \<lparr>fi_bytes = example_text, fi_error = None\<rparr> = Some (Exit 0 (print_root example_tree) [])
   \<and> (\<exists>err. happy_main 9 \<lparr>fi_bytes = '':'', fi_error = None\<rparr> = Some (Exit 1 [] err) \<and> error_line '':'' err)"
proof
  have "length example_text + 2 \<le> 100"
    by (simp add: example_text_def newline_def)
  then show "happy_main 100 \<lparr>fi_bytes = example_text, fi_error = None\<rparr> = Some (Exit 0 (print_root example_tree) [])"
    using happy_main_correct [of "\<lparr>fi_bytes = example_text, fi_error = None\<rparr>" 100, THEN conjunct1]
      example_document by auto
  let ?f = "\<lparr>fi_bytes = '':'', fi_error = None\<rparr>"
  have "symbol_of (skip_text '':'') = S_colon"
    by (simp add: is_blank_def NUL_def is_digit_def sign_of_def)
  then have "\<exists>d message. parse_document 9 (new_Parser ''<stdin>'' (StdinReader ?f)) = Some (Inl (ParseException d message))"
    by (intro stdin.document_refused [OF start_coherent(1)]) (simp_all add: start_coherent(2))
  then obtain d message where e: "happy_main 9 ?f = Some (report (ParseException d message))"
    by (auto simp: happy_main_def parse_def)
  have other: "happy_main 9 ?f \<noteq> Some (Exit 0 out err)" "happy_main 9 ?f \<noteq> Some Undefined" "happy_main 9 ?f \<noteq> None" for out err
    unfolding e by simp_all
  have fuel: "fi_error ?f = None" "length (fi_bytes ?f) + 2 \<le> 9"
    by simp_all
  note correct = happy_main_correct [OF fuel]
  have "\<nexists>y. g_document (tokens (fi_bytes ?f)) y"
  proof
    assume "\<exists>y. g_document (tokens (fi_bytes ?f)) y"
    then obtain y where "g_document (tokens (fi_bytes ?f)) y" ..
    then have "happy_main 9 ?f = Some (Exit 0 (print_root y) [])"
      by (intro correct [THEN conjunct1, THEN spec, THEN spec, THEN iffD2] conjI refl exI [of _ y])
    then show False
      using other(1) by metis
  qed
  from correct [THEN conjunct2, THEN mp, OF this] other(2,3)
  show "\<exists>err. happy_main 9 ?f = Some (Exit 1 [] err) \<and> error_line '':'' err"
    by (elim disjE) (simp_all only: stdin_file.select_convs simp_thms)
qed

end
