(* ===== verification/FrontGlobals.thy ===== *)
theory FrontGlobals
  imports Connection
begin

text \<open>
  The configuration values and the shared counter of the front server
  (\<^verbatim>\<open>server/front/src/FrontGlobals.hpp\<close> and \<^verbatim>\<open>FrontGlobals.cpp\<close>). A configuration value can change
  when the configuration is reloaded, so the operations that read one take the current values as an
  argument. Times are readings of the steady clock in nanoseconds.
\<close>

record front_globals =
  connection_limit_soft :: int
  connection_limit_hard :: int
  message_max_size :: int
  rate_limit_messages :: int
  rate_limit_bytes :: int
  ws_message_auto_fragment :: bool
  ws_setup_timeout :: int
  ws_timeout :: int

definition default_globals :: front_globals where
  "default_globals =
     \<lparr>connection_limit_soft = 1000, connection_limit_hard = 1050, message_max_size = 0x4000,
      rate_limit_messages = 100, rate_limit_bytes = 0x8000, ws_message_auto_fragment = True,
      ws_setup_timeout = 3, ws_timeout = 30\<rparr>"

type_synonym time = int

definition seconds :: "int \<Rightarrow> int" where
  "seconds n = n * 1000000000"

end
