(* ===== verification/WsConnection.thy ===== *)
theory WsConnection
  imports FrontGlobals
begin

text \<open>
  The connection of a client to the front server
  (\<^verbatim>\<open>server/front/src/ws/WsConnection.hpp\<close> and \<^verbatim>\<open>WsConnection.cpp\<close>): SSL handshake, HTTP request,
  upgrade to a websocket, then messages both ways under a rate limit and an inactivity timeout. As
  for cluster connections, a handler is a function on the connection record and the asynchronous
  operations it starts are appended to \<open>ws_ops\<close>. The HTTP request is reduced to the one question
  asked of it, whether it requests an upgrade; a synchronous HTTP response is recorded by its status
  in \<open>ws_responses\<close>; \<open>ws_inbound\<close> records the calls of \<open>process_message\<close>, whose body is empty.
\<close>

section \<open>State\<close>

datatype ws_timer = MainTimer | StateTimer

text \<open>A wait on a timer carries whether it still is armed: it loses that mark when cancelled.\<close>

datatype ws_op =
    WsSslHandshake
  | WsReadRequest
  | WsAccept
  | WsRead
  | WsWrite "byte list"
  | WsSslShutdown
  | WsSendTask message
  | WsTimerWait ws_timer bool

text \<open>The options of the websocket stream that the connection sets.\<close>

record ws_stream =
  binary :: bool
  auto_fragment :: bool
  read_message_max :: int

record ws_connection =
  ws_dropped :: bool
  ws_shutting_down :: bool
  ws_is_writing :: bool
  ws_socket_open :: bool
  ws_timer_expiry :: time
  ws_state_timer_expiry :: time
  ws_message_queue :: message_queue
  ws_message_outbound :: message
  ws_request_upgrade :: bool
  ws_read_buffer :: "byte list"
  ws_stream :: ws_stream
  ws_rate_start :: time
  ws_rate_messages :: int
  ws_rate_bytes :: u64
  ws_ops :: "ws_op list"
  ws_responses :: "nat list"
  ws_inbound :: "message list"

fun is_connection_reset_error :: "error_code \<Rightarrow> bool" where
  "is_connection_reset_error ConnectionAborted = True"
| "is_connection_reset_error ConnectionReset = True"
| "is_connection_reset_error Eof = True"
| "is_connection_reset_error StreamTruncated = True"
| "is_connection_reset_error _ = False"

fun is_connection_canceled_error :: "error_code \<Rightarrow> bool" where
  "is_connection_canceled_error (SslError SSL_R_PROTOCOL_IS_SHUTDOWN) = True"
| "is_connection_canceled_error _ = False"

text \<open>
  Construction from a socket at a time. The stream's options and the expiry of timers that were
  never set are what the libraries initialise them to.
\<close>

definition WsConnection :: "ws_stream \<Rightarrow> time \<Rightarrow> bool \<Rightarrow> time \<Rightarrow> ws_connection" where
  "WsConnection stream0 expiry0 open_socket now =
     \<lparr>ws_dropped = False, ws_shutting_down = False, ws_is_writing = False,
      ws_socket_open = open_socket, ws_timer_expiry = expiry0, ws_state_timer_expiry = expiry0,
      ws_message_queue = MessageQueue, ws_message_outbound = Message,
      ws_request_upgrade = False, ws_read_buffer = [],
      ws_stream = stream0,
      ws_rate_start = now, ws_rate_messages = 0, ws_rate_bytes = 0,
      ws_ops = [], ws_responses = [], ws_inbound = []\<rparr>"

text \<open>The body of the constructor and the destructor: the number of active connections.\<close>

definition WsConnection_constructor :: "int \<Rightarrow> int" where
  [simp]: "WsConnection_constructor active = active + 1"

definition WsConnection_destructor :: "int \<Rightarrow> int" where
  "WsConnection_destructor active = active - 1"

definition ws_start :: "ws_op \<Rightarrow> ws_connection \<Rightarrow> ws_connection" where
  "ws_start op c = c\<lparr>ws_ops := ws_ops c @ [op]\<rparr>"

section \<open>Timers\<close>

fun disarm :: "ws_timer \<Rightarrow> ws_op \<Rightarrow> ws_op" where
  "disarm t (WsTimerWait t' armed) = WsTimerWait t' (armed \<and> t' \<noteq> t)"
| "disarm t op = op"

definition ws_cancel :: "ws_timer \<Rightarrow> ws_connection \<Rightarrow> ws_connection" where
  "ws_cancel t c = c\<lparr>ws_ops := map (disarm t) (ws_ops c)\<rparr>"

definition ws_set_timeout :: "time \<Rightarrow> int \<Rightarrow> ws_connection \<Rightarrow> ws_connection" where
  "ws_set_timeout now delay c =
     (let c1 = ws_cancel MainTimer c;
          c2 = c1\<lparr>ws_timer_expiry := now + delay\<rparr>
      in ws_start (WsTimerWait MainTimer True) c2)"

definition ws_set_state_timeout :: "time \<Rightarrow> int \<Rightarrow> ws_connection \<Rightarrow> ws_connection" where
  "ws_set_state_timeout now delay c =
     (let c1 = ws_cancel StateTimer c;
          c2 = c1\<lparr>ws_state_timer_expiry := now + delay\<rparr>
      in ws_start (WsTimerWait StateTimer True) c2)"

definition ws_cancel_state_timeout :: "ws_connection \<Rightarrow> ws_connection" where
  "ws_cancel_state_timeout c = ws_cancel StateTimer c"

text \<open>The test that on_read and on_control_frame make before they renew the timeout.\<close>

definition ws_refresh_timeout :: "front_globals \<Rightarrow> time \<Rightarrow> ws_connection \<Rightarrow> ws_connection" where
  "ws_refresh_timeout g now c =
     (if ws_timer_expiry c - now \<le> seconds (ws_timeout g)
      then ws_set_timeout now (seconds (ws_timeout g + 5)) c
      else c)"

section \<open>Operations\<close>

definition ws_run :: "front_globals \<Rightarrow> time \<Rightarrow> ws_connection \<Rightarrow> ws_connection" where
  "ws_run g now c =
     (if \<not> ws_socket_open c then c
      else ws_start WsSslHandshake (ws_set_timeout now (seconds (ws_setup_timeout g)) c))"

definition ws_abort :: "ws_connection \<Rightarrow> ws_connection" where
  "ws_abort c =
     (if ws_dropped c then c
      else
        let c1 = ws_cancel StateTimer (ws_cancel MainTimer c);
            c2 = c1\<lparr>ws_message_queue := mq_clear (ws_message_queue c1)\<rparr>;
            c3 = c2\<lparr>ws_socket_open := False\<rparr>
        in c3\<lparr>ws_dropped := True\<rparr>)"

definition ws_shutdown :: "ws_connection \<Rightarrow> ws_connection" where
  "ws_shutdown c =
     (if ws_dropped c \<or> ws_shutting_down c then c
      else
        let c1 = ws_cancel StateTimer (ws_cancel MainTimer c);
            c2 = c1\<lparr>ws_message_queue := mq_clear (ws_message_queue c1)\<rparr>
        in if \<not> ws_socket_open c2 then c2
           else (ws_start WsSslShutdown c2)\<lparr>ws_shutting_down := True\<rparr>)"

definition ws_do_write_message :: "message \<Rightarrow> ws_connection \<Rightarrow> crash + ws_connection" where
  "ws_do_write_message m c =
     (let c1 = c\<lparr>ws_message_outbound := m\<rparr>
      in ebind (message_data (ws_message_outbound c1)) (\<lambda>payload.
         ebind (message_size (ws_message_outbound c1)) (\<lambda>n.
           Inr (ws_start (WsWrite (take (unat n) payload)) c1))))"

text \<open>\<open>send_message\<close> refuses a null message and posts the rest of its work to the strand.\<close>

definition ws_send_message :: "message \<Rightarrow> ws_connection \<Rightarrow> ws_connection" where
  "ws_send_message m c = (if is_empty m then c else ws_start (WsSendTask m) c)"

definition ws_send_task :: "message \<Rightarrow> ws_connection \<Rightarrow> crash + ws_connection" where
  "ws_send_task m c =
     (if ws_dropped c \<or> ws_shutting_down c then Inr c
      else if \<not> ws_is_writing c then ws_do_write_message m (c\<lparr>ws_is_writing := True\<rparr>)
      else ebind (mq_push m (ws_message_queue c)) (\<lambda>q. Inr (c\<lparr>ws_message_queue := q\<rparr>)))"

text \<open>
  The inbound rate limit; the flag says that the connection was aborted. The byte limit is
  converted to an unsigned 64-bit number before the comparison.
\<close>

definition ws_check_rate_limit :: "front_globals \<Rightarrow> time \<Rightarrow> ws_connection \<Rightarrow> bool \<times> ws_connection" where
  "ws_check_rate_limit g now c =
     (if rate_limit_messages g < ws_rate_messages c \<or> of_int (rate_limit_bytes g) < ws_rate_bytes c
      then
        if seconds 1 < now - ws_rate_start c
        then (False, c\<lparr>ws_rate_start := now, ws_rate_messages := 0, ws_rate_bytes := 0\<rparr>)
        else (True, ws_abort c)
      else (False, c))"

definition ws_count_inbound :: "nat \<Rightarrow> ws_connection \<Rightarrow> ws_connection" where
  "ws_count_inbound len c =
     c\<lparr>ws_rate_messages := ws_rate_messages c + 1, ws_rate_bytes := ws_rate_bytes c + of_nat len\<rparr>"

definition ws_process_message :: "message \<Rightarrow> ws_connection \<Rightarrow> ws_connection" where
  "ws_process_message m c = c\<lparr>ws_inbound := ws_inbound c @ [m]\<rparr>"

definition ws_handle_read_error :: "error_code \<Rightarrow> ws_connection \<Rightarrow> ws_connection" where
  "ws_handle_read_error ec c =
     (if ws_dropped c then c
      else if is_connection_reset_error ec then ws_abort c
      else if is_connection_canceled_error ec then c
      else ws_shutdown c)"

definition ws_handle_write_error :: "error_code \<Rightarrow> ws_connection \<Rightarrow> ws_connection" where
  "ws_handle_write_error ec c =
     (if ws_dropped c then c
      else if is_connection_reset_error ec then ws_abort c
      else if is_connection_canceled_error ec then c
      else ws_shutdown c)"

section \<open>Completion handlers\<close>

definition ws_on_timeout :: "error_code \<Rightarrow> ws_connection \<Rightarrow> ws_connection" where
  "ws_on_timeout ec c = (if ws_dropped c \<or> ec = OperationAborted then c else ws_abort c)"

text \<open>The error code of the SSL shutdown only decides what is logged.\<close>

definition ws_on_shutdown :: "error_code \<Rightarrow> ws_connection \<Rightarrow> ws_connection" where
  "ws_on_shutdown ec c =
     (if ws_dropped c then c else c\<lparr>ws_socket_open := False, ws_dropped := True\<rparr>)"

definition ws_on_ssl_handshake :: "error_code \<Rightarrow> ws_connection \<Rightarrow> ws_connection" where
  "ws_on_ssl_handshake ec c =
     (if ec \<noteq> NoError then ws_abort c else ws_start WsReadRequest c)"

text \<open>
  The request that was read, whether it asks for an upgrade, and the data left in the buffer.
  \<open>active\<close> is the number of active connections at that moment.
\<close>

definition ws_on_read_request ::
    "front_globals \<Rightarrow> int \<Rightarrow> error_code \<Rightarrow> bool \<Rightarrow> byte list \<Rightarrow> ws_connection \<Rightarrow> ws_connection" where
  "ws_on_read_request g active ec upgrade left c =
     (let c0 = c\<lparr>ws_request_upgrade := upgrade, ws_read_buffer := left\<rparr>
      in if ec \<noteq> NoError then ws_handle_read_error ec c0
         else
           let c1 = (if 0 < length (ws_read_buffer c0) then c0\<lparr>ws_read_buffer := []\<rparr> else c0)
           in if connection_limit_soft g < active
              then ws_shutdown (c1\<lparr>ws_responses := ws_responses c1 @ [503]\<rparr>)
              else if ws_request_upgrade c1 then ws_start WsAccept c1
              else ws_shutdown (c1\<lparr>ws_responses := ws_responses c1 @ [501]\<rparr>))"

definition ws_on_ws_handshake :: "front_globals \<Rightarrow> time \<Rightarrow> error_code \<Rightarrow> ws_connection \<Rightarrow> ws_connection" where
  "ws_on_ws_handshake g now ec c =
     (if ws_dropped c then c
      else
        let c1 = c\<lparr>ws_request_upgrade := False\<rparr>
        in if ec \<noteq> NoError then ws_shutdown c1
           else
             let c2 = c1\<lparr>ws_stream := (ws_stream c1)\<lparr>binary := True,
                         auto_fragment := ws_message_auto_fragment g,
                         read_message_max := message_max_size g\<rparr>\<rparr>
             in ws_start WsRead (ws_set_timeout now (seconds (ws_timeout g + 5)) c2))"

datatype frame_type = ping | pong | close

text \<open>The control handler; its registration with the stream is commented out in the source.\<close>

definition ws_on_control_frame ::
    "front_globals \<Rightarrow> time \<Rightarrow> frame_type \<Rightarrow> byte list \<Rightarrow> ws_connection \<Rightarrow> ws_connection" where
  "ws_on_control_frame g now type data c =
     (case ws_check_rate_limit g now (ws_count_inbound (length data) c) of
        (True, c1) \<Rightarrow> c1
      | (False, c1) \<Rightarrow>
          let c2 = ws_refresh_timeout g now c1
          in case type of ping \<Rightarrow> c2 | pong \<Rightarrow> c2 | close \<Rightarrow> ws_shutdown c2)"

text \<open>A message of the stream was appended to the read buffer; \<open>got_binary\<close> is its kind.\<close>

definition ws_on_read ::
    "front_globals \<Rightarrow> time \<Rightarrow> error_code \<Rightarrow> bool \<Rightarrow> byte list \<Rightarrow> ws_connection \<Rightarrow> ws_connection" where
  "ws_on_read g now ec got_binary data c =
     (let c0 = c\<lparr>ws_read_buffer := ws_read_buffer c @ data\<rparr>; readlen = length data
      in if ec \<noteq> NoError then ws_handle_read_error ec c0
         else
           case ws_check_rate_limit g now (ws_count_inbound readlen c0) of
             (True, c1) \<Rightarrow> c1
           | (False, c1) \<Rightarrow>
               if \<not> got_binary then ws_shutdown c1
               else
                 let buf = take readlen (ws_read_buffer c1);
                     c2 = c1\<lparr>ws_read_buffer := drop (length buf) (ws_read_buffer c1)\<rparr>;
                     c3 = ws_start WsRead c2;
                     c4 = ws_refresh_timeout g now c3
                 in ws_process_message (from_vector buf) c4)"

definition ws_on_write_message :: "error_code \<Rightarrow> ws_connection \<Rightarrow> crash + ws_connection" where
  "ws_on_write_message ec c =
     (let c1 = c\<lparr>ws_message_outbound := Message\<rparr>
      in if ec \<noteq> NoError then Inr (ws_handle_write_error ec c1)
         else
           ebind (mq_try_pop Message (ws_message_queue c1)) (\<lambda>(ok, m, q).
             let c2 = c1\<lparr>ws_message_queue := q\<rparr>
             in if ok then ws_do_write_message m c2
                else Inr (c2\<lparr>ws_is_writing := False\<rparr>)))"

end
