(* ===== verification/Config.thy ===== *)
theory Config
  imports IanPrelude
begin

text \<open>
  The configuration (\<^verbatim>\<open>server/common/src/config\<close> and \<^verbatim>\<open>include/common/config\<close>): a property tree read from
  a file, groups that prefix paths, and configuration values, objects that cache the value at a path
  and are registered as listeners to be refreshed when the file is loaded again. The property tree
  is the library's: its lookups, the names of the children of a path and the reading of a file are
  the parameter \<open>ptree_api\<close>. The values live in a store of objects by address; the process-wide set
  of listeners holds addresses, as the code's holds pointers, and a load refreshes the objects whose
  addresses it holds. That the two go together is proved, not built in.
\<close>

section \<open>Property tree and values\<close>

record 't ptree_api =
  pt_get_bool :: "'t \<Rightarrow> string \<Rightarrow> bool \<Rightarrow> bool"
  pt_get_string :: "'t \<Rightarrow> string \<Rightarrow> string \<Rightarrow> string"
  pt_get_int :: "'t \<Rightarrow> string \<Rightarrow> int \<Rightarrow> int"
  pt_children :: "'t \<Rightarrow> string \<Rightarrow> string list"
  pt_read_info :: "string \<Rightarrow> 't option"

record config_bool_value =
  cb_path :: string
  cb_default :: bool
  cb_value :: bool

record config_string_value =
  cs_path :: string
  cs_default :: string
  cs_value :: string

record config_int_value =
  ci_path :: string
  ci_default :: int
  ci_value :: int

datatype listener =
    BoolListener config_bool_value
  | StringListener config_string_value
  | IntListener config_int_value

text \<open>The process-wide tree, the live values by address, and the addresses registered as listeners.\<close>

record 't config_state =
  config_tree :: 't
  objects :: "(nat \<times> listener) list"
  listeners :: "nat set"

definition get_bool :: "'t ptree_api \<Rightarrow> 't config_state \<Rightarrow> string \<Rightarrow> bool \<Rightarrow> bool" where
  "get_bool api s path default_val = pt_get_bool api (config_tree s) path default_val"

definition get_string :: "'t ptree_api \<Rightarrow> 't config_state \<Rightarrow> string \<Rightarrow> string \<Rightarrow> string" where
  "get_string api s path default_val = pt_get_string api (config_tree s) path default_val"

definition get_int :: "'t ptree_api \<Rightarrow> 't config_state \<Rightarrow> string \<Rightarrow> int \<Rightarrow> int" where
  "get_int api s path default_val = pt_get_int api (config_tree s) path default_val"

section \<open>Listeners\<close>

text \<open>The constructor and the destructor of the base class.\<close>

definition register :: "nat \<Rightarrow> 't config_state \<Rightarrow> 't config_state" where
  "register addr s = s\<lparr>listeners := insert addr (listeners s)\<rparr>"

definition unregister :: "nat \<Rightarrow> 't config_state \<Rightarrow> 't config_state" where
  "unregister addr s = s\<lparr>listeners := listeners s - {addr}\<rparr>"

text \<open>
  An object is constructed at an address: the constructor of its base class, then its own members.
  It is destroyed in the opposite order.
\<close>

definition construct :: "nat \<Rightarrow> listener \<Rightarrow> 't config_state \<Rightarrow> 't config_state" where
  "construct addr l s = (register addr s)\<lparr>objects := (addr, l) # filter (\<lambda>(a, _). a \<noteq> addr) (objects s)\<rparr>"

definition destroy :: "nat \<Rightarrow> 't config_state \<Rightarrow> 't config_state" where
  "destroy addr s = unregister addr (s\<lparr>objects := filter (\<lambda>(a, _). a \<noteq> addr) (objects s)\<rparr>)"

definition ConfigBoolValue :: "'t ptree_api \<Rightarrow> string \<Rightarrow> bool \<Rightarrow> 't config_state \<Rightarrow> config_bool_value" where
  "ConfigBoolValue api key default_val s =
     \<lparr>cb_path = key, cb_default = default_val, cb_value = get_bool api s key default_val\<rparr>"

definition ConfigStringValue :: "'t ptree_api \<Rightarrow> string \<Rightarrow> string \<Rightarrow> 't config_state \<Rightarrow> config_string_value" where
  "ConfigStringValue api key default_val s =
     \<lparr>cs_path = key, cs_default = default_val, cs_value = get_string api s key default_val\<rparr>"

definition ConfigIntValue :: "'t ptree_api \<Rightarrow> string \<Rightarrow> int \<Rightarrow> 't config_state \<Rightarrow> config_int_value" where
  "ConfigIntValue api key default_val s =
     \<lparr>ci_path = key, ci_default = default_val, ci_value = get_int api s key default_val\<rparr>"

definition copy_bool :: "config_bool_value \<Rightarrow> config_bool_value" where
  "copy_bool other = \<lparr>cb_path = cb_path other, cb_default = cb_default other, cb_value = cb_value other\<rparr>"

definition copy_string :: "config_string_value \<Rightarrow> config_string_value" where
  "copy_string other = \<lparr>cs_path = cs_path other, cs_default = cs_default other, cs_value = cs_value other\<rparr>"

definition copy_int :: "config_int_value \<Rightarrow> config_int_value" where
  "copy_int other = \<lparr>ci_path = ci_path other, ci_default = ci_default other, ci_value = ci_value other\<rparr>"

fun copy_listener :: "listener \<Rightarrow> listener" where
  "copy_listener (BoolListener v) = BoolListener (copy_bool v)"
| "copy_listener (StringListener v) = StringListener (copy_string v)"
| "copy_listener (IntListener v) = IntListener (copy_int v)"

definition on_update_bool :: "'t ptree_api \<Rightarrow> 't config_state \<Rightarrow> config_bool_value \<Rightarrow> config_bool_value" where
  [simp]: "on_update_bool api s v = v\<lparr>cb_value := get_bool api s (cb_path v) (cb_default v)\<rparr>"

definition on_update_string :: "'t ptree_api \<Rightarrow> 't config_state \<Rightarrow> config_string_value \<Rightarrow> config_string_value" where
  [simp]: "on_update_string api s v = v\<lparr>cs_value := get_string api s (cs_path v) (cs_default v)\<rparr>"

definition on_update_int :: "'t ptree_api \<Rightarrow> 't config_state \<Rightarrow> config_int_value \<Rightarrow> config_int_value" where
  [simp]: "on_update_int api s v = v\<lparr>ci_value := get_int api s (ci_path v) (ci_default v)\<rparr>"

text \<open>The virtual call.\<close>

fun on_update :: "'t ptree_api \<Rightarrow> 't config_state \<Rightarrow> listener \<Rightarrow> listener" where
  "on_update api s (BoolListener v) = BoolListener (on_update_bool api s v)"
| "on_update api s (StringListener v) = StringListener (on_update_string api s v)"
| "on_update api s (IntListener v) = IntListener (on_update_int api s v)"

definition invoke_config_listeners :: "'t ptree_api \<Rightarrow> 't config_state \<Rightarrow> 't config_state" where
  "invoke_config_listeners api s =
     s\<lparr>objects := map (\<lambda>(a, l). (a, if a \<in> listeners s then on_update api s l else l)) (objects s)\<rparr>"

text \<open>Reading a file either fails, which leaves the tree as it was, or replaces the tree.\<close>

definition load :: "'t ptree_api \<Rightarrow> string \<Rightarrow> 't config_state \<Rightarrow> bool \<times> 't config_state" where
  "load api file s =
     (case pt_read_info api (if file = [] then ''config.info'' else file) of
        None \<Rightarrow> (False, s)
      | Some tree \<Rightarrow> (True, invoke_config_listeners api (s\<lparr>config_tree := tree\<rparr>)))"

section \<open>Groups\<close>

record ConfigGroup =
  cg_path :: string

definition group_key :: "ConfigGroup \<Rightarrow> string \<Rightarrow> string" where
  "group_key c path = cg_path c @ ''.'' @ path"

definition group_get_bool :: "'t ptree_api \<Rightarrow> ConfigGroup \<Rightarrow> string \<Rightarrow> bool \<Rightarrow> 't config_state \<Rightarrow> config_bool_value" where
  "group_get_bool api c path default_val s = ConfigBoolValue api (group_key c path) default_val s"

definition group_get_bool_value :: "'t ptree_api \<Rightarrow> ConfigGroup \<Rightarrow> string \<Rightarrow> bool \<Rightarrow> 't config_state \<Rightarrow> bool" where
  "group_get_bool_value api c path default_val s = get_bool api s (group_key c path) default_val"

definition group_get_string ::
    "'t ptree_api \<Rightarrow> ConfigGroup \<Rightarrow> string \<Rightarrow> string \<Rightarrow> 't config_state \<Rightarrow> config_string_value" where
  "group_get_string api c path default_val s = ConfigStringValue api (group_key c path) default_val s"

definition group_get_string_value :: "'t ptree_api \<Rightarrow> ConfigGroup \<Rightarrow> string \<Rightarrow> string \<Rightarrow> 't config_state \<Rightarrow> string" where
  "group_get_string_value api c path default_val s = get_string api s (group_key c path) default_val"

definition group_get_int :: "'t ptree_api \<Rightarrow> ConfigGroup \<Rightarrow> string \<Rightarrow> int \<Rightarrow> 't config_state \<Rightarrow> config_int_value" where
  "group_get_int api c path default_val s = ConfigIntValue api (group_key c path) default_val s"

definition group_get_int_value :: "'t ptree_api \<Rightarrow> ConfigGroup \<Rightarrow> string \<Rightarrow> int \<Rightarrow> 't config_state \<Rightarrow> int" where
  "group_get_int_value api c path default_val s = get_int api s (group_key c path) default_val"

definition get_group :: "ConfigGroup \<Rightarrow> string \<Rightarrow> ConfigGroup" where
  "get_group c path = \<lparr>cg_path = group_key c path\<rparr>"

text \<open>The groups of the children of a path.\<close>

definition get_childs :: "'t ptree_api \<Rightarrow> 't config_state \<Rightarrow> string \<Rightarrow> ConfigGroup list" where
  "get_childs api s path = map (\<lambda>name. \<lparr>cg_path = path @ ''.'' @ name\<rparr>) (pt_children api (config_tree s) path)"

definition group_get_childs :: "'t ptree_api \<Rightarrow> 't config_state \<Rightarrow> ConfigGroup \<Rightarrow> ConfigGroup list" where
  "group_get_childs api s c = get_childs api s (cg_path c)"

definition group_get_childs_at :: "'t ptree_api \<Rightarrow> 't config_state \<Rightarrow> ConfigGroup \<Rightarrow> string \<Rightarrow> ConfigGroup list" where
  "group_get_childs_at api s c path = get_childs api s (group_key c path)"

section \<open>Reachable states\<close>

text \<open>
  What the program does to the configuration: create a value at an address that is free, copy a live
  value to a free address, destroy a value, load a file. Each load sees the files as they are then.
\<close>

inductive config_step :: "'t ptree_api \<Rightarrow> 't config_state \<Rightarrow> 't config_state \<Rightarrow> bool" for api where
  new_bool: "addr \<notin> fst ` set (objects s) \<Longrightarrow>
    config_step api s (construct addr (BoolListener (ConfigBoolValue api key b s)) s)"
| new_string: "addr \<notin> fst ` set (objects s) \<Longrightarrow>
    config_step api s (construct addr (StringListener (ConfigStringValue api key v s)) s)"
| new_int: "addr \<notin> fst ` set (objects s) \<Longrightarrow>
    config_step api s (construct addr (IntListener (ConfigIntValue api key i s)) s)"
| copied: "addr \<notin> fst ` set (objects s) \<Longrightarrow> (addr', l) \<in> set (objects s) \<Longrightarrow>
    config_step api s (construct addr (copy_listener l) s)"
| destroyed: "config_step api s (destroy addr s)"
| loaded: "config_step api s (snd (load (api\<lparr>pt_read_info := read\<rparr>) file s))"

definition bool_current :: "'t ptree_api \<Rightarrow> 't config_state \<Rightarrow> config_bool_value \<Rightarrow> bool" where
  "bool_current api s v \<longleftrightarrow> cb_value v = get_bool api s (cb_path v) (cb_default v)"

definition string_current :: "'t ptree_api \<Rightarrow> 't config_state \<Rightarrow> config_string_value \<Rightarrow> bool" where
  "string_current api s v \<longleftrightarrow> cs_value v = get_string api s (cs_path v) (cs_default v)"

definition int_current :: "'t ptree_api \<Rightarrow> 't config_state \<Rightarrow> config_int_value \<Rightarrow> bool" where
  "int_current api s v \<longleftrightarrow> ci_value v = get_int api s (ci_path v) (ci_default v)"

fun up_to_date :: "'t ptree_api \<Rightarrow> 't config_state \<Rightarrow> listener \<Rightarrow> bool" where
  "up_to_date api s (BoolListener v) = bool_current api s v"
| "up_to_date api s (StringListener v) = string_current api s v"
| "up_to_date api s (IntListener v) = int_current api s v"

text \<open>What the three classes of values promise: to agree with the tree when constructed and refreshed.\<close>

locale cached_value =
  fixes create :: "'t ptree_api \<Rightarrow> string \<Rightarrow> 'v \<Rightarrow> 't config_state \<Rightarrow> 'o"
    and copy :: "'o \<Rightarrow> 'o"
    and refresh :: "'t ptree_api \<Rightarrow> 't config_state \<Rightarrow> 'o \<Rightarrow> 'o"
    and agrees :: "'t ptree_api \<Rightarrow> 't config_state \<Rightarrow> 'o \<Rightarrow> bool"
  assumes create_agrees: "agrees api s (create api key d s)"
    and copy_agrees: "agrees api s (copy v) \<longleftrightarrow> agrees api s v"
    and refresh_agrees: "agrees api s (refresh api s v)"
    and tree_only: "config_tree s' = config_tree s \<Longrightarrow> agrees api s' v \<longleftrightarrow> agrees api s v"
begin

lemma refreshed_elsewhere: "config_tree s' = config_tree s \<Longrightarrow> agrees api s' (refresh api s v)"
  using refresh_agrees tree_only by blast

lemma copy_of_new: "config_tree s' = config_tree s \<Longrightarrow> agrees api s' (copy (create api key d s))"
  by (simp add: copy_agrees create_agrees tree_only [of s' s])

end

interpretation bool_value: cached_value ConfigBoolValue copy_bool on_update_bool bool_current
  by unfold_locales (simp_all add: bool_current_def ConfigBoolValue_def copy_bool_def get_bool_def)

interpretation string_value: cached_value ConfigStringValue copy_string on_update_string string_current
  by unfold_locales (simp_all add: string_current_def ConfigStringValue_def copy_string_def get_string_def)

interpretation int_value: cached_value ConfigIntValue copy_int on_update_int int_current
  by unfold_locales (simp_all add: int_current_def ConfigIntValue_def copy_int_def get_int_def)

lemma up_to_date_tree:
  "config_tree s' = config_tree s \<Longrightarrow> up_to_date api s' l = up_to_date api s l"
  by (cases l) (auto dest: bool_value.tree_only string_value.tree_only int_value.tree_only)

lemma construct_tree [simp]:
  "config_tree (construct addr l s) = config_tree s" "config_tree (destroy addr s) = config_tree s"
  by (simp_all add: construct_def destroy_def register_def unregister_def)

lemma construct_listeners [simp]: "listeners (construct addr l s) = insert addr (listeners s)"
  by (simp add: construct_def register_def)

lemma up_to_date_update: "config_tree s' = config_tree s \<Longrightarrow> up_to_date api s' (on_update api s l)"
  by (cases l) (simp_all only: on_update.simps up_to_date.simps bool_value.refreshed_elsewhere
      string_value.refreshed_elsewhere int_value.refreshed_elsewhere)

lemma up_to_date_copy: "up_to_date api s (copy_listener l) = up_to_date api s l"
  by (cases l) (simp_all add: bool_value.copy_agrees string_value.copy_agrees int_value.copy_agrees)

text \<open>The invariant: the registered addresses are those of the live objects, and these are up to date.\<close>

definition current :: "'t ptree_api \<Rightarrow> 't config_state \<Rightarrow> bool" where
  "current api s \<longleftrightarrow> listeners s = fst ` set (objects s) \<and> (\<forall>(a, l) \<in> set (objects s). up_to_date api s l)"

lemma get_construct [simp]:
  "get_int papi (construct addr l cs) = get_int papi cs" "get_bool papi (construct addr l cs) = get_bool papi cs"
  "get_string papi (construct addr l cs) = get_string papi cs" "get_childs papi (construct addr l cs) = get_childs papi cs"
  by (simp_all add: fun_eq_iff get_int_def get_bool_def get_string_def get_childs_def)

lemma addresses_without: "fst ` set (filter (\<lambda>(a, _). a \<noteq> addr) ls) = fst ` set ls - {addr}"
  by (induction ls) auto

lemma map_of_construct:
  "map_of (objects (construct addr l s)) addr' = (if addr' = addr then Some l else map_of (objects s) addr')"
proof -
  have "map_of (filter (\<lambda>(a, _). a \<noteq> addr) ls) addr' = map_of ls addr'" if "addr' \<noteq> addr" for ls :: "(nat \<times> listener) list"
    using that by (induction ls) auto
  then show ?thesis
    by (simp add: construct_def)
qed

lemma map_of_invoke:
  "map_of (objects (invoke_config_listeners api s)) addr
     = map_option (\<lambda>l. if addr \<in> listeners s then on_update api s l else l) (map_of (objects s) addr)"
proof -
  have "map_of (map (\<lambda>(a, l). (a, f a l)) ls) addr = map_option (f addr) (map_of ls addr)"
    for f and ls :: "(nat \<times> listener) list"
    by (induction ls) auto
  then show ?thesis
    by (simp add: invoke_config_listeners_def)
qed

lemma construct_current:
  assumes "current api s" and "up_to_date api s l"
  shows "current api (construct addr l s)"
proof -
  have "listeners (construct addr l s) = fst ` set (objects (construct addr l s))"
    using assms(1) by (simp add: current_def addresses_without construct_def register_def del: set_filter)
  then show ?thesis
    using assms up_to_date_tree [of "construct addr l s" s api]
    by (auto simp: current_def) (auto simp: construct_def)
qed

lemma destroy_current:
  assumes "current api s"
  shows "current api (destroy addr s)"
proof -
  have "listeners (destroy addr s) = fst ` set (objects (destroy addr s))"
    using assms by (simp add: current_def destroy_def unregister_def addresses_without del: set_filter)
  then show ?thesis
    using assms up_to_date_tree [of "destroy addr s" s api]
    by (auto simp: current_def) (auto simp: destroy_def unregister_def)
qed

lemma on_update_read_info: "on_update (api\<lparr>pt_read_info := read\<rparr>) s l = on_update api s l"
  by (cases l) (simp_all add: get_bool_def get_string_def get_int_def)

text \<open>A load refreshes the registered objects; when these are all the live ones, nothing is left stale.\<close>

lemma invoke_registered:
  assumes "fst ` set (objects s) \<subseteq> listeners s"
  shows "objects (invoke_config_listeners api s) = map (map_prod id (on_update api s)) (objects s)"
  using assms by (auto simp: invoke_config_listeners_def)

lemma invoke_same [simp]:
  "config_tree (invoke_config_listeners api s) = config_tree s"
  "listeners (invoke_config_listeners api s) = listeners s"
  by (simp_all add: invoke_config_listeners_def)

lemma invoke_current:
  assumes "listeners s = fst ` set (objects s)"
  shows "current api (invoke_config_listeners (api\<lparr>pt_read_info := read\<rparr>) s)"
  using assms by (auto simp: current_def invoke_registered image_image on_update_read_info up_to_date_update)

lemma load_current: "current api s \<Longrightarrow> current api (snd (load (api\<lparr>pt_read_info := read\<rparr>) file s))"
  using invoke_current [of "s\<lparr>config_tree := tree\<rparr>" api read for tree]
  by (cases "pt_read_info (api\<lparr>pt_read_info := read\<rparr>) (if file = [] then ''config.info'' else file)")
    (simp_all add: load_def current_def [of api s])

lemma config_step_current: "config_step api s s' \<Longrightarrow> current api s \<Longrightarrow> current api s'"
proof (induction rule: config_step.induct)
  case (copied addr s addr' l)
  then have "up_to_date api s (copy_listener l)"
    by (auto simp: current_def up_to_date_copy)
  with copied show ?case
    by (simp add: construct_current)
qed (auto intro: construct_current destroy_current load_current
    simp: bool_value.create_agrees string_value.create_agrees int_value.create_agrees)

interpretation configuration: preserved "config_step api" "current api" for api
  by unfold_locales (rule config_step_current)

section \<open>Properties\<close>

text \<open>
  C28. Configuration values are current. Whatever values are created, copied and destroyed, and however
  often the file is loaded with or without success: every live value is registered as a listener and
  holds what the current tree has at its path, or its default; and every registered listener is a
  live value, so that a load never calls an object that was destroyed.
\<close>

theorem config_values_current:
  assumes "(config_step api)\<^sup>*\<^sup>* \<lparr>config_tree = tree0, objects = [], listeners = {}\<rparr> s"
  shows "(\<forall>(addr, l) \<in> set (objects s). addr \<in> listeners s \<and> up_to_date api s l)
    \<and> listeners s \<subseteq> fst ` set (objects s)"
  using configuration.steps_inv [OF assms] by (simp add: current_def) (auto intro: rev_image_eqI)

text \<open>A tree with one integer, and a file that sets it to seven.\<close>

definition example_ptree :: "int ptree_api" where
  "example_ptree = \<lparr>pt_get_bool = (\<lambda>t p d. d), pt_get_string = (\<lambda>t p d. d), pt_get_int = (\<lambda>t p d. t),
     pt_children = (\<lambda>t p. []), pt_read_info = (\<lambda>f. Some 7)\<rparr>"

theorem config_values_current_witness:
  "\<exists>s. (config_step example_ptree)\<^sup>*\<^sup>* \<lparr>config_tree = 0, objects = [], listeners = {}\<rparr> s
     \<and> (1, IntListener \<lparr>ci_path = ''a'', ci_default = 3, ci_value = 7\<rparr>) \<in> set (objects s) \<and> 1 \<in> listeners s
     \<and> up_to_date example_ptree s (IntListener \<lparr>ci_path = ''a'', ci_default = 3, ci_value = 7\<rparr>)
     \<and> listeners s \<subseteq> fst ` set (objects s)"
proof -
  let ?s0 = "\<lparr>config_tree = 0, objects = [], listeners = {}\<rparr>"
  let ?s1 = "construct 1 (IntListener (ConfigIntValue example_ptree ''a'' 3 ?s0)) ?s0"
  let ?s2 = "snd (load example_ptree [] ?s1)"
  have "config_step example_ptree ?s0 ?s1"
    by (rule new_int) simp
  moreover have "config_step example_ptree ?s1 ?s2"
    using loaded [of example_ptree ?s1 "pt_read_info example_ptree" "[]"] by simp
  ultimately have reach: "(config_step example_ptree)\<^sup>*\<^sup>* ?s0 ?s2"
    by (metis r_into_rtranclp rtranclp.rtrancl_into_rtrancl)
  have live: "(1, IntListener \<lparr>ci_path = ''a'', ci_default = 3, ci_value = 7\<rparr>) \<in> set (objects ?s2)"
    by (simp add: load_def example_ptree_def construct_def register_def ConfigIntValue_def get_int_def
        invoke_config_listeners_def)
  show ?thesis
    using config_values_current [OF reach] live by (intro exI [of _ ?s2]) (auto simp only: reach)
qed

end
