(* ===== verification/Ssl.thy ===== *)
theory Ssl
  imports Config Connection
begin

text \<open>
  The setup of a TLS context from the configuration (\<^verbatim>\<open>server/common/src/Ssl.cpp\<close>). The context of
  the library is a parameter: a record of the calls the code makes, each with its outcome and the
  context afterwards. Calls that throw leave the block through its handler, the others report an
  error code; either way the function logs a message and returns.
\<close>

section \<open>Calls on a context\<close>

datatype ssl_option = default_workarounds | no_sslv2 | no_sslv3 | no_tlsv1 | no_tlsv1_1 | single_dh_use

record 'c ssl_api =
  sa_set_options :: "ssl_option list \<Rightarrow> 'c \<Rightarrow> error_code \<times> 'c"
  sa_set_password_callback :: "string \<Rightarrow> 'c \<Rightarrow> error_code \<times> 'c"
  sa_use_certificate_chain_file :: "string \<Rightarrow> 'c \<Rightarrow> error_code \<times> 'c"
  sa_use_private_key_file :: "string \<Rightarrow> 'c \<Rightarrow> error_code \<times> 'c"
  sa_use_tmp_dh_file :: "string \<Rightarrow> 'c \<Rightarrow> error_code \<times> 'c"
  sa_load_verify_file :: "string \<Rightarrow> 'c \<Rightarrow> error_code \<times> 'c"
  sa_set_cipher_list :: "string \<Rightarrow> 'c \<Rightarrow> int \<times> 'c"

datatype ssl_message =
    DhFileFailed error_code
  | AuthorityFailed error_code
  | CipherListFailed
  | ContextFailed error_code

definition default_cert :: string where
  "default_cert = ''cert.pem''"

definition default_cipher_list :: string where
  "default_cipher_list =
     ''ECDHE-ECDSA-AES256-GCM-SHA384:ECDHE-RSA-AES256-GCM-SHA384:ECDHE-ECDSA-CHACHA20-POLY1305:ECDHE-''
     @ ''RSA-CHACHA20-POLY1305:ECDHE-ECDSA-AES128-GCM-SHA256:ECDHE-RSA-AES128-GCM-SHA256:ECDHE-ECDSA-''
     @ ''AES256-SHA384:ECDHE-RSA-AES256-SHA384:ECDHE-ECDSA-AES128-SHA256:ECDHE-RSA-AES128-SHA256''"

section \<open>Setup\<close>

text \<open>A call that throws, and one whose error is logged before the block goes on.\<close>

definition throwing ::
    "('c \<Rightarrow> error_code \<times> 'c) \<Rightarrow> ('c \<Rightarrow> ssl_message list \<times> 'c) \<Rightarrow> 'c \<Rightarrow> ssl_message list \<times> 'c" where
  "throwing call rest ctx =
     (let (ec, ctx') = call ctx in if ec \<noteq> NoError then ([ContextFailed ec], ctx') else rest ctx')"

definition logging ::
    "(error_code \<Rightarrow> ssl_message) \<Rightarrow> ('c \<Rightarrow> error_code \<times> 'c) \<Rightarrow> ('c \<Rightarrow> ssl_message list \<times> 'c) \<Rightarrow> 'c \<Rightarrow> ssl_message list \<times> 'c" where
  "logging msg call rest ctx =
     (let (ec, ctx') = call ctx; (log, ctx'') = rest ctx'
      in if ec \<noteq> NoError then (msg ec # log, ctx'') else (log, ctx''))"

definition set_cipher_list :: "'c ssl_api \<Rightarrow> string \<Rightarrow> 'c \<Rightarrow> ssl_message list \<times> 'c" where
  "set_cipher_list sapi cipher_list ctx =
     (let (r, ctx') = sa_set_cipher_list sapi cipher_list ctx
      in if r \<noteq> 1 then ([CipherListFailed], ctx') else ([], ctx'))"

definition init_ssl_context ::
    "'c ssl_api \<Rightarrow> 't ptree_api \<Rightarrow> 't config_state \<Rightarrow> ConfigGroup \<Rightarrow> 'c \<Rightarrow> ssl_message list \<times> 'c" where
  "init_ssl_context sapi papi cs config ctx =
     (let ca = group_get_string_value papi config ''certificate_authority_file'' [] cs;
          cert_chain = group_get_string_value papi config ''certificate_chain'' default_cert cs;
          priv_key = group_get_string_value papi config ''private_key'' default_cert cs;
          dh = group_get_string_value papi config ''dh'' [] cs;
          password = group_get_string_value papi config ''private_key_password'' [] cs;
          cipher_list = group_get_string_value papi config ''cipher_list'' default_cipher_list cs
      in throwing (sa_set_options sapi [default_workarounds, no_sslv2, no_sslv3, no_tlsv1, no_tlsv1_1, single_dh_use])
          (throwing (sa_set_password_callback sapi password)
          (throwing (sa_use_certificate_chain_file sapi cert_chain)
          (throwing (sa_use_private_key_file sapi priv_key)
          ((if dh \<noteq> [] then logging DhFileFailed (sa_use_tmp_dh_file sapi dh) else id)
          ((if ca \<noteq> [] then logging AuthorityFailed (sa_load_verify_file sapi ca) else id)
          (set_cipher_list sapi cipher_list)))))) ctx)"

section \<open>Complete setups\<close>

text \<open>The calls the configuration asks for, in order, and all of them performed with success.\<close>

datatype ssl_call =
    SetOptions "ssl_option list"
  | PasswordCallback string
  | CertificateChain string
  | PrivateKey string
  | TmpDh string
  | VerifyFile string
  | CipherList string

fun perform :: "'c ssl_api \<Rightarrow> ssl_call \<Rightarrow> 'c \<Rightarrow> bool \<times> 'c" where
  "perform sapi (SetOptions os) ctx = apfst (\<lambda>ec. ec = NoError) (sa_set_options sapi os ctx)"
| "perform sapi (PasswordCallback p) ctx = apfst (\<lambda>ec. ec = NoError) (sa_set_password_callback sapi p ctx)"
| "perform sapi (CertificateChain f) ctx = apfst (\<lambda>ec. ec = NoError) (sa_use_certificate_chain_file sapi f ctx)"
| "perform sapi (PrivateKey f) ctx = apfst (\<lambda>ec. ec = NoError) (sa_use_private_key_file sapi f ctx)"
| "perform sapi (TmpDh f) ctx = apfst (\<lambda>ec. ec = NoError) (sa_use_tmp_dh_file sapi f ctx)"
| "perform sapi (VerifyFile f) ctx = apfst (\<lambda>ec. ec = NoError) (sa_load_verify_file sapi f ctx)"
| "perform sapi (CipherList l) ctx = apfst (\<lambda>r. r = 1) (sa_set_cipher_list sapi l ctx)"

fun perform_all :: "'c ssl_api \<Rightarrow> ssl_call list \<Rightarrow> 'c \<Rightarrow> 'c option" where
  "perform_all sapi [] ctx = Some ctx"
| "perform_all sapi (call # calls) ctx =
     (let (ok, ctx') = perform sapi call ctx in if ok then perform_all sapi calls ctx' else None)"

definition configured_calls :: "'t ptree_api \<Rightarrow> 't config_state \<Rightarrow> ConfigGroup \<Rightarrow> ssl_call list" where
  "configured_calls papi cs config =
     (let str = (\<lambda>key def. group_get_string_value papi config key def cs)
      in [SetOptions [default_workarounds, no_sslv2, no_sslv3, no_tlsv1, no_tlsv1_1, single_dh_use],
          PasswordCallback (str ''private_key_password'' []),
          CertificateChain (str ''certificate_chain'' default_cert),
          PrivateKey (str ''private_key'' default_cert)]
         @ (if str ''dh'' [] = [] then [] else [TmpDh (str ''dh'' [])])
         @ (if str ''certificate_authority_file'' [] = [] then [] else [VerifyFile (str ''certificate_authority_file'' [])])
         @ [CipherList (str ''cipher_list'' default_cipher_list)])"

text \<open>A setup from here on is silent exactly when the remaining calls all succeed.\<close>

definition silent :: "'c ssl_api \<Rightarrow> ssl_call list \<Rightarrow> ('c \<Rightarrow> ssl_message list \<times> 'c) \<Rightarrow> bool" where
  "silent sapi calls setup \<longleftrightarrow>
     (\<forall>ctx ctx'. setup ctx = ([], ctx') \<longleftrightarrow> perform_all sapi calls ctx = Some ctx')"

lemma silent_cipher_list: "silent sapi [CipherList l] (set_cipher_list sapi l)"
  by (auto simp: silent_def set_cipher_list_def apfst_def map_prod_def split: prod.split if_split_asm)

lemma silent_throwing:
  assumes "silent sapi calls rest" and "\<And>ctx. perform sapi call ctx = apfst (\<lambda>ec. ec = NoError) (op ctx)"
  shows "silent sapi (call # calls) (throwing op rest)"
  using assms by (simp add: silent_def throwing_def apfst_def map_prod_def split: prod.split)

lemma silent_logging:
  assumes "silent sapi calls rest" and "\<And>ctx. perform sapi call ctx = apfst (\<lambda>ec. ec = NoError) (op ctx)"
  shows "silent sapi (call # calls) (logging msg op rest)"
  using assms by (auto simp: silent_def logging_def apfst_def map_prod_def Let_def split: prod.split)

section \<open>Properties\<close>

text \<open>
  C40. A TLS context that is set up without a logged message is complete: no message is logged exactly
  when every call the configuration asks for was made, in order, and succeeded, and the context is
  then the result of those calls.
\<close>

theorem ssl_silent_complete:
  "init_ssl_context sapi papi cs config ctx = ([], ctx')
     \<longleftrightarrow> perform_all sapi (configured_calls papi cs config) ctx = Some ctx'"
proof -
  have "silent sapi (configured_calls papi cs config) (init_ssl_context sapi papi cs config)"
    unfolding configured_calls_def init_ssl_context_def Let_def
    by (auto intro!: silent_throwing silent_logging silent_cipher_list)
  then show ?thesis
    by (simp add: silent_def)
qed

end
