(* ===== verification/Acceptors.thy ===== *)
theory Acceptors
  imports ClusterConnection WsConnection Ssl "HOL-Library.Signed_Division"
begin

text \<open>
  The objects that open connections: the websocket acceptor of the front server
  (\<^verbatim>\<open>server/front/src/ws/WsAcceptor.cpp\<close>), the acceptor of cluster peers
  (\<^verbatim>\<open>server/common/src/cluster/ClusterAcceptor.cpp\<close>) and the watcher that keeps a connection to a
  peer (\<^verbatim>\<open>ClusterWatcher.cpp\<close>). The libraries are a parameter: the property tree, the TLS context, and
  the TCP acceptor and address parser, a record of their operations on an abstract state. Calls that
  throw on failure give \<open>Inl\<close> of the error: nothing catches it, so it ends the program. The lists of
  operations record what a handler started, timers with their delay.
\<close>

section \<open>TCP acceptors\<close>

type_synonym 'e endpoint = "'e \<times> 16 word"

record ('a, 'e) tcp_api =
  ta_make_address :: "string \<Rightarrow> error_code + 'e"
  ta_set_option :: "'a \<Rightarrow> error_code \<times> 'a"
  ta_open :: "'e endpoint \<Rightarrow> 'a \<Rightarrow> error_code \<times> 'a"
  ta_bind :: "'e endpoint \<Rightarrow> 'a \<Rightarrow> error_code \<times> 'a"
  ta_listen :: "'a \<Rightarrow> error_code \<times> 'a"
  ta_close :: "'a \<Rightarrow> error_code \<times> 'a"

text \<open>
  What the library documents of them: options cannot be set on an acceptor that is not open,
  \<open>open\<close> opens it when it succeeds, \<open>bind\<close> and \<open>listen\<close> do not close it, \<open>close\<close> closes it.
\<close>

definition tcp_contract :: "('a, 'e) tcp_api \<Rightarrow> ('a \<Rightarrow> bool) \<Rightarrow> bool" where
  "tcp_contract api is_open \<longleftrightarrow>
     (\<forall>a. \<not> is_open a \<longrightarrow> fst (ta_set_option api a) \<noteq> NoError \<and> \<not> is_open (snd (ta_set_option api a)))
     \<and> (\<forall>e a. is_open (snd (ta_open api e a)) \<longleftrightarrow> fst (ta_open api e a) = NoError \<or> is_open a)
     \<and> (\<forall>e a. is_open (snd (ta_bind api e a)) \<longleftrightarrow> is_open a)
     \<and> (\<forall>a. is_open (snd (ta_listen api a)) \<longleftrightarrow> is_open a)
     \<and> (\<forall>a. \<not> is_open (snd (ta_close api a)))"

record ('t, 'a, 'e, 'c) library =
  lib_ptree :: "'t ptree_api"
  lib_tcp :: "('a, 'e) tcp_api"
  lib_ssl :: "'c ssl_api"

text \<open>
  What \<open>open\<close> reads of its group. A configuration value it creates for that lives only for the
  expression. The port is converted to the 16 bits of an endpoint.
\<close>

definition config_string :: "('t, 'a, 'e, 'c) library \<Rightarrow> 't config_state \<Rightarrow> ConfigGroup \<Rightarrow> string \<Rightarrow> string \<Rightarrow> string" where
  "config_string lib cs config key def = cs_value (group_get_string (lib_ptree lib) config key def cs)"

definition config_int :: "('t, 'a, 'e, 'c) library \<Rightarrow> 't config_state \<Rightarrow> ConfigGroup \<Rightarrow> string \<Rightarrow> int \<Rightarrow> int" where
  "config_int lib cs config key def = ci_value (group_get_int (lib_ptree lib) config key def cs)"

definition config_bool :: "('t, 'a, 'e, 'c) library \<Rightarrow> 't config_state \<Rightarrow> ConfigGroup \<Rightarrow> string \<Rightarrow> bool \<Rightarrow> bool" where
  "config_bool lib cs config key def = cb_value (group_get_bool (lib_ptree lib) config key def cs)"

lemma config_construct [simp]:
  "config_string lib (construct addr l cs) = config_string lib cs" "config_int lib (construct addr l cs) = config_int lib cs"
  "config_bool lib (construct addr l cs) = config_bool lib cs"
  by (simp_all add: fun_eq_iff config_string_def config_int_def config_bool_def group_get_string_def group_get_int_def
      group_get_bool_def ConfigStringValue_def ConfigIntValue_def ConfigBoolValue_def)

definition make_endpoint :: "('t, 'a, 'e, 'c) library \<Rightarrow> string \<Rightarrow> int \<Rightarrow> error_code + 'e endpoint" where
  "make_endpoint lib addr port =
     ebind (ta_make_address (lib_tcp lib) addr) (\<lambda>a. Inr (a, word_of_int port))"

text \<open>Whether the address of a group, or the default, can be parsed.\<close>

definition parses :: "('t, 'a, 'e, 'c) library \<Rightarrow> 't config_state \<Rightarrow> string \<Rightarrow> ConfigGroup \<Rightarrow> bool" where
  "parses lib cs def grp \<longleftrightarrow> (\<exists>e. ta_make_address (lib_tcp lib) (config_string lib cs grp ''ip'' def) = Inr e)"

section \<open>Websocket acceptor\<close>

datatype wa_callback = RetryOpen | RetryAccept | RetryReopen

datatype wa_op = WaAccept | WaWait time wa_callback

record ('a, 'c) ws_acceptor =
  wa_config :: ConfigGroup
  wa_ssl_context :: 'c
  wa_acceptor :: 'a
  wa_ops :: "wa_op list"

definition wa_start :: "wa_op \<Rightarrow> ('a, 'c) ws_acceptor \<Rightarrow> ('a, 'c) ws_acceptor" where
  "wa_start op w = w\<lparr>wa_ops := wa_ops w @ [op]\<rparr>"

definition WsAcceptor :: "'c \<Rightarrow> 'a \<Rightarrow> ConfigGroup \<Rightarrow> ('a, 'c) ws_acceptor" where
  "WsAcceptor ctx a config = \<lparr>wa_config = config, wa_ssl_context = ctx, wa_acceptor = a, wa_ops = []\<rparr>"

text \<open>
  The block of \<open>open\<close> that each failure leaves with \<open>break\<close>: the result is the error code
  variable at its end. Closing the acceptor after a failure assigns that variable again.
\<close>

definition wa_listen :: "('a, 'e) tcp_api \<Rightarrow> bool \<Rightarrow> 'e endpoint \<Rightarrow> 'a \<Rightarrow> error_code \<times> 'a" where
  "wa_listen api reuse_addr endpoint a =
     (let (ec0, a0) = (if reuse_addr then ta_set_option api a else (NoError, a))
      in if ec0 \<noteq> NoError then (ec0, a0)
         else let (ec1, a1) = ta_open api endpoint a0
         in if ec1 \<noteq> NoError then (ec1, a1)
            else let (ec2, a2) = ta_bind api endpoint a1
            in if ec2 \<noteq> NoError then ta_close api a2
               else let (ec3, a3) = ta_listen api a2
               in if ec3 \<noteq> NoError then ta_close api a3
                  else (ec3, a3))"

definition wa_accept_next ::
    "('a, 'e) tcp_api \<Rightarrow> front_globals \<Rightarrow> int \<Rightarrow> ('a, 'c) ws_acceptor \<Rightarrow> error_code + ('a, 'c) ws_acceptor" where
  "wa_accept_next api g active w =
     (if connection_limit_hard g \<le> active
      then
        let (ec, a) = ta_close api (wa_acceptor w)
        in if ec \<noteq> NoError then Inl ec
           else Inr (wa_start (WaWait (seconds 5) RetryReopen) (w\<lparr>wa_acceptor := a\<rparr>))
      else Inr (wa_start WaAccept w))"

definition wa_open ::
    "('t, 'a, 'e, 'c) library \<Rightarrow> 't config_state \<Rightarrow> front_globals \<Rightarrow> int \<Rightarrow> ('a, 'c) ws_acceptor
     \<Rightarrow> error_code + ('a, 'c) ws_acceptor" where
  "wa_open lib cs g active w =
     (let listen_addr = config_string lib cs (wa_config w) ''ip'' ''0.0.0.0'';
          listen_port = config_int lib cs (wa_config w) ''port'' 7011;
          reuse_addr = config_bool lib cs (wa_config w) ''reuse_addr'' False
      in ebind (make_endpoint lib listen_addr listen_port) (\<lambda>endpoint.
           let (ec, a) = wa_listen (lib_tcp lib) reuse_addr endpoint (wa_acceptor w);
               w1 = w\<lparr>wa_acceptor := a\<rparr>
           in if ec \<noteq> NoError then Inr (wa_start (WaWait (seconds 10) RetryOpen) w1)
              else wa_accept_next (lib_tcp lib) g active w1))"

definition wa_run ::
    "('t, 'a, 'e, 'c) library \<Rightarrow> 't config_state \<Rightarrow> front_globals \<Rightarrow> int \<Rightarrow> ('a, 'c) ws_acceptor
     \<Rightarrow> error_code + ('a, 'c) ws_acceptor" where
  "wa_run lib cs g active w =
     (let (log, ctx) = init_ssl_context (lib_ssl lib) (lib_ptree lib) cs \<lparr>cg_path = ''front.ssl''\<rparr> (wa_ssl_context w)
      in wa_open lib cs g active (w\<lparr>wa_ssl_context := ctx\<rparr>))"

text \<open>
  An accept completed. \<open>peer_ec\<close> and \<open>opt_ec\<close> are the outcomes of asking the new socket for its
  remote endpoint and of disabling Nagle's algorithm, which throw on failure. The constructor
  of the new connection increments the number of active connections.
\<close>

definition wa_on_accept ::
    "('a, 'e) tcp_api \<Rightarrow> front_globals \<Rightarrow> int \<Rightarrow> error_code \<Rightarrow> error_code \<Rightarrow> error_code \<Rightarrow> (time \<Rightarrow> ws_connection) \<Rightarrow> time
     \<Rightarrow> ('a, 'c) ws_acceptor \<Rightarrow> error_code + (int \<times> ws_connection option \<times> ('a, 'c) ws_acceptor)" where
  "wa_on_accept api g active ec peer_ec opt_ec new_connection now w =
     (let accepted =
        (if ec \<noteq> NoError then Inr (active, None)
         else if peer_ec \<noteq> NoError then Inl peer_ec
         else if opt_ec \<noteq> NoError then Inl opt_ec
         else Inr (WsConnection_constructor active, Some (ws_run g now (new_connection now))))
      in ebind accepted (\<lambda>(active', client).
           if connection_limit_hard g sdiv 2 < active'
           then Inr (active', client, wa_start (WaWait 20000000 RetryAccept) w)
           else ebind (wa_accept_next api g active' w) (\<lambda>w'. Inr (active', client, w'))))"

definition wa_on_timer_accept ::
    "('a, 'e) tcp_api \<Rightarrow> front_globals \<Rightarrow> int \<Rightarrow> ('a, 'c) ws_acceptor \<Rightarrow> error_code + ('a, 'c) ws_acceptor" where
  "wa_on_timer_accept api g active w = wa_accept_next api g active w"

definition wa_on_timer_reopen ::
    "('t, 'a, 'e, 'c) library \<Rightarrow> 't config_state \<Rightarrow> front_globals \<Rightarrow> int \<Rightarrow> ('a, 'c) ws_acceptor
     \<Rightarrow> error_code + ('a, 'c) ws_acceptor" where
  "wa_on_timer_reopen lib cs g active w =
     (if connection_limit_hard g \<le> active then Inr (wa_start (WaWait (seconds 5) RetryReopen) w)
      else wa_open lib cs g active w)"

section \<open>Cluster acceptor\<close>

datatype ca_op = CaAccept | CaWaitOpen time

record 'a cluster_acceptor =
  ca_config :: ConfigGroup
  ca_acceptor :: 'a
  ca_safe_link :: bool
  ca_ops :: "ca_op list"

definition ca_start :: "ca_op \<Rightarrow> 'a cluster_acceptor \<Rightarrow> 'a cluster_acceptor" where
  "ca_start op w = w\<lparr>ca_ops := ca_ops w @ [op]\<rparr>"

text \<open>The member \<open>safe_link_\<close> has no initialiser; its indeterminate value is an argument.\<close>

definition ClusterAcceptor :: "'a \<Rightarrow> bool \<Rightarrow> ConfigGroup \<Rightarrow> 'a cluster_acceptor" where
  "ClusterAcceptor a safe0 config = \<lparr>ca_config = config, ca_acceptor = a, ca_safe_link = safe0, ca_ops = []\<rparr>"

definition ca_listen :: "('a, 'e) tcp_api \<Rightarrow> bool \<Rightarrow> 'e endpoint \<Rightarrow> 'a \<Rightarrow> error_code \<times> 'a" where
  "ca_listen api reuse_addr endpoint a =
     (let (ec0, a0) = (if reuse_addr then ta_set_option api a else (NoError, a))
      in if ec0 \<noteq> NoError then (ec0, a0)
         else let (ec1, a1) = ta_open api endpoint a0
         in if ec1 \<noteq> NoError then (ec1, a1)
            else let (ec2, a2) = ta_bind api endpoint a1
            in if ec2 \<noteq> NoError then ta_close api a2
               else let (ec3, a3) = ta_listen api a2
               in if ec3 \<noteq> NoError then ta_close api a3
                  else (ec3, a3))"

definition ca_accept_next :: "'a cluster_acceptor \<Rightarrow> 'a cluster_acceptor" where
  "ca_accept_next w = ca_start CaAccept w"

definition ca_open ::
    "('t, 'a, 'e, 'c) library \<Rightarrow> 't config_state \<Rightarrow> 'a cluster_acceptor \<Rightarrow> error_code + 'a cluster_acceptor" where
  "ca_open lib cs w =
     (let listen_addr = config_string lib cs (ca_config w) ''ip'' ''127.0.0.1'';
          listen_port = config_int lib cs (ca_config w) ''port'' 17001;
          reuse_addr = config_bool lib cs (ca_config w) ''reuse_addr'' False;
          w0 = w\<lparr>ca_safe_link := config_bool lib cs (ca_config w) ''safe_link'' False\<rparr>
      in ebind (make_endpoint lib listen_addr listen_port) (\<lambda>endpoint.
           let (ec, a) = ca_listen (lib_tcp lib) reuse_addr endpoint (ca_acceptor w0);
               w1 = w0\<lparr>ca_acceptor := a\<rparr>
           in if ec \<noteq> NoError then Inr (ca_start (CaWaitOpen (seconds 10)) w1)
              else Inr (ca_accept_next w1)))"

definition ca_run ::
    "('t, 'a, 'e, 'c) library \<Rightarrow> 't config_state \<Rightarrow> 'a cluster_acceptor \<Rightarrow> error_code + 'a cluster_acceptor" where
  "ca_run lib cs w = ca_open lib cs w"

definition ca_on_accept ::
    "error_code \<Rightarrow> error_code \<Rightarrow> cluster_connection \<Rightarrow> error_code \<Rightarrow> 'a cluster_acceptor
     \<Rightarrow> error_code + (cluster_connection option \<times> 'a cluster_acceptor)" where
  "ca_on_accept ec peer_ec new_connection verify_ec w =
     (if ec \<noteq> NoError then Inr (None, ca_accept_next w)
      else if peer_ec \<noteq> NoError then Inl peer_ec
      else Inr (Some (cc_run Server (ca_safe_link w) verify_ec new_connection), ca_accept_next w))"

section \<open>Cluster watcher\<close>

text \<open>
  \<open>cw_connection\<close> is the weak pointer to the last connection; it is \<open>None\<close> once that connection
  was destroyed, and before the first one.
\<close>

datatype 'e cw_op = CwConnect "'e endpoint" | CwWait time

record 'e cluster_watcher =
  cw_safe_link :: bool
  cw_endpoint :: "'e endpoint"
  cw_connection :: "cluster_connection option"
  cw_ops :: "'e cw_op list"

definition ClusterWatcher :: "'e endpoint \<Rightarrow> bool \<Rightarrow> 'e cluster_watcher" where
  "ClusterWatcher endpoint safe_link = \<lparr>cw_safe_link = safe_link, cw_endpoint = endpoint, cw_connection = None, cw_ops = []\<rparr>"

definition cw_start :: "'e cw_op \<Rightarrow> 'e cluster_watcher \<Rightarrow> 'e cluster_watcher" where
  "cw_start op w = w\<lparr>cw_ops := cw_ops w @ [op]\<rparr>"

definition cw_try_connect :: "'e cluster_watcher \<Rightarrow> 'e cluster_watcher" where
  "cw_try_connect w = cw_start (CwConnect (cw_endpoint w)) w"

definition cw_run :: "'e cluster_watcher \<Rightarrow> 'e cluster_watcher" where
  "cw_run w = cw_try_connect w"

definition cw_wait :: "time \<Rightarrow> 'e cluster_watcher \<Rightarrow> 'e cluster_watcher" where
  "cw_wait delay w = cw_start (CwWait delay) w"

definition cw_on_connect ::
    "error_code \<Rightarrow> error_code \<Rightarrow> cluster_connection \<Rightarrow> error_code \<Rightarrow> 'e cluster_watcher \<Rightarrow> error_code + 'e cluster_watcher" where
  "cw_on_connect ec peer_ec new_connection verify_ec w =
     (if ec \<noteq> NoError then Inr (cw_wait (seconds 30) w)
      else if peer_ec \<noteq> NoError then Inl peer_ec
      else
        let client = cc_run Client (cw_safe_link w) verify_ec new_connection
        in Inr (cw_wait (seconds 30) (w\<lparr>cw_connection := Some client\<rparr>)))"

definition cw_on_timer :: "error_code \<Rightarrow> 'e cluster_watcher \<Rightarrow> 'e cluster_watcher" where
  "cw_on_timer ec w =
     (if ec = OperationAborted then w
      else if cw_connection w = None then cw_try_connect w
      else cw_wait (seconds 30) w)"

end
