(* ===== verification/AsioPool.thy ===== *)
theory AsioPool
  imports Config "HOL-Library.Word"
begin

text \<open>
  The pool of asio contexts (\<^verbatim>\<open>server/common/src/AsioPool.cpp\<close>). A context is represented by whether it is
  stopped, the address of its copy of the thread count, a configuration value that is refreshed when
  the configuration is loaded, and the number of its worker threads. A worker runs until its context
  is stopped: the \<open>work\<close> object of an instance keeps it from running out of work.
\<close>

record asio_instance =
  ai_name :: string
  ai_stopped :: bool
  ai_threads :: nat
  ai_workers :: nat

type_synonym asio_pool = "asio_instance list"

definition AsioInstance :: "string \<Rightarrow> nat \<Rightarrow> asio_instance" where
  "AsioInstance name addr = \<lparr>ai_name = name, ai_stopped = False, ai_threads = addr, ai_workers = 0\<rparr>"

text \<open>The instance holds a copy of the thread count, at the address \<open>addr\<close>.\<close>

definition create_asio ::
    "string \<Rightarrow> config_int_value \<Rightarrow> nat \<Rightarrow> asio_pool \<Rightarrow> 't config_state \<Rightarrow> asio_pool \<times> 't config_state" where
  "create_asio name threads addr pool cs =
     (pool @ [AsioInstance name addr], construct addr (IntListener (copy_int threads)) cs)"

definition pool_stop :: "asio_pool \<Rightarrow> asio_pool" where
  "pool_stop pool = map (\<lambda>inst. inst\<lparr>ai_stopped := True\<rparr>) pool"

text \<open>
  The value of an integer setting; \<open>None\<close> if there is none at the address. The thread count is
  converted to \<open>size_t\<close> in the comparison with the number of workers.
\<close>

definition int_value_at :: "'t config_state \<Rightarrow> nat \<Rightarrow> int option" where
  "int_value_at cs addr =
     (case map_of (objects cs) addr of Some (IntListener v) \<Rightarrow> Some (ci_value v) | _ \<Rightarrow> None)"

definition size_t_of_int :: "int \<Rightarrow> nat" where
  "size_t_of_int i = unat (word_of_int i :: 64 word)"

text \<open>
  The loop that creates worker threads; \<open>created k\<close> is the outcome of creating a thread beside \<open>k\<close>
  workers of the instance. A failure throws, and nothing catches it.
\<close>

function start_workers :: "(nat \<Rightarrow> bool) \<Rightarrow> nat \<Rightarrow> nat \<Rightarrow> nat option" where
  "start_workers created threads workers =
     (if workers < threads
      then if created workers then start_workers created threads (Suc workers) else None
      else Some workers)"
  by pat_completeness auto

termination start_workers
  by (relation "measure (\<lambda>(created, threads, workers). threads - workers)") auto

declare start_workers.simps [simp del]

lemma start_workers_eq:
  "workers \<le> threads \<Longrightarrow> start_workers created threads workers
     = (if \<forall>k. workers \<le> k \<and> k < threads \<longrightarrow> created k then Some threads else None)"
proof (induction created threads workers rule: start_workers.induct)
  case (1 created threads workers)
  show ?case
  proof (cases "workers < threads \<and> created workers")
    case True
    then have "start_workers created threads workers = start_workers created threads (Suc workers)"
      by (subst start_workers.simps) simp
    also have "\<dots> = (if \<forall>k. Suc workers \<le> k \<and> k < threads \<longrightarrow> created k then Some threads else None)"
      using 1 True by auto
    also have "(\<forall>k. Suc workers \<le> k \<and> k < threads \<longrightarrow> created k) \<longleftrightarrow> (\<forall>k. workers \<le> k \<and> k < threads \<longrightarrow> created k)"
      (is "?l \<longleftrightarrow> ?r")
    proof
      assume l: ?l
      show ?r
      proof (intro allI impI)
        fix k
        assume "workers \<le> k \<and> k < threads"
        then show "created k"
          using l True by (cases "k = workers") auto
      qed
    qed auto
    finally show ?thesis .
  next
    case False
    then show ?thesis
      using 1(2) by (subst start_workers.simps) auto
  qed
qed

text \<open>One turn of the first loop of \<open>run\<close>, and of its second, which is stuck while a worker runs.\<close>

definition start_instance :: "(nat \<Rightarrow> bool) \<Rightarrow> 't config_state \<Rightarrow> asio_instance \<Rightarrow> asio_instance option" where
  "start_instance created cs inst =
     (case int_value_at cs (ai_threads inst) of
        None \<Rightarrow> None
      | Some threads \<Rightarrow>
          map_option (\<lambda>w. inst\<lparr>ai_stopped := False, ai_workers := w\<rparr>)
            (start_workers created (size_t_of_int threads) (ai_workers inst)))"

definition join_instance :: "asio_instance \<Rightarrow> asio_instance option" where
  "join_instance inst =
     (if ai_workers inst = 0 \<or> ai_stopped inst then Some (inst\<lparr>ai_workers := 0\<rparr>) else None)"

section \<open>Thread counts\<close>

lemma size_t_of_int_nonneg: "0 \<le> i \<Longrightarrow> i < 2 ^ 64 \<Longrightarrow> size_t_of_int i = nat i"
  by (simp add: size_t_of_int_def unsigned_of_int take_bit_int_eq_self)

lemma size_t_of_int_neg: "- (2 ^ 31) \<le> i \<Longrightarrow> i < 0 \<Longrightarrow> int (size_t_of_int i) = 2 ^ 64 + i"
proof -
  assume i: "- (2 ^ 31) \<le> i" "i < 0"
  have "i mod 2 ^ 64 = (i + 2 ^ 64) mod 2 ^ 64"
    by simp
  also have "\<dots> = i + 2 ^ 64"
    using i by (intro mod_pos_pos_trivial) simp_all
  finally show ?thesis
    by (simp add: size_t_of_int_def unsigned_of_int take_bit_eq_mod)
qed

lemma int_value_at_invoke:
  "int_value_at (invoke_config_listeners api cs) addr = None \<longleftrightarrow> int_value_at cs addr = None"
  by (auto simp: int_value_at_def map_of_invoke split: option.split) (auto split: listener.split listener.split_asm)

lemma int_value_at_load: "int_value_at (snd (load api file cs)) addr = None \<longleftrightarrow> int_value_at cs addr = None"
proof (cases "pt_read_info api (if file = [] then ''config.info'' else file)")
  case (Some tree)
  have "int_value_at (cs\<lparr>config_tree := tree\<rparr>) addr = int_value_at cs addr"
    by (simp add: int_value_at_def)
  with Some show ?thesis
    by (simp add: load_def int_value_at_invoke)
qed (simp add: load_def)

lemma int_value_at_construct:
  "int_value_at (construct addr (IntListener v) cs) addr = Some (ci_value v)"
  "addr' \<noteq> addr \<Longrightarrow> int_value_at (construct addr l cs) addr' = int_value_at cs addr'"
  by (simp_all add: int_value_at_def map_of_construct)

section \<open>Properties\<close>

text \<open>
  C39. Starting the workers of an instance. When threads can be created, an instance without workers
  gets as many as its thread count says, none for zero, and is no longer stopped; with a negative
  count the comparison in \<open>size_t\<close> asks for more than \<open>2\<^sup>6\<^sup>4 - 2\<^sup>3\<^sup>2\<close> threads, and the first thread
  that cannot be created ends the program.
\<close>

theorem start_instance_threads:
  assumes "int_value_at cs (ai_threads inst) = Some threads" and "- (2 ^ 31) \<le> threads" and "threads < 2 ^ 31"
    and "ai_workers inst = 0"
  shows "(0 \<le> threads \<and> (\<forall>k < nat threads. created k) \<longrightarrow>
        start_instance created cs inst = Some (inst\<lparr>ai_stopped := False, ai_workers := nat threads\<rparr>))
    \<and> (threads < 0 \<and> (\<exists>k < 2 ^ 64 - 2 ^ 32. \<not> created k) \<longrightarrow> start_instance created cs inst = None)"
proof -
  have "size_t_of_int threads = nat threads" if "0 \<le> threads"
    using that assms(3) by (simp add: size_t_of_int_nonneg)
  moreover have "2 ^ 64 - 2 ^ 32 < size_t_of_int threads" if "threads < 0"
    using size_t_of_int_neg [OF assms(2) that] assms(2) by simp
  ultimately show ?thesis
    using assms(1,4) by (auto simp: start_instance_def start_workers_eq)
qed

text \<open>One context with the thread count at the address one.\<close>

theorem start_instance_threads_witness:
  "start_instance (\<lambda>k. k < 8)
     (construct 1 (IntListener \<lparr>ci_path = ''front.threads'', ci_default = 2, ci_value = 2\<rparr>) \<lparr>config_tree = (), objects = [], listeners = {}\<rparr>)
     (AsioInstance ''front'' 1) = Some \<lparr>ai_name = ''front'', ai_stopped = False, ai_threads = 1, ai_workers = 2\<rparr>
   \<and> start_instance (\<lambda>k. k < 8)
     (construct 1 (IntListener \<lparr>ci_path = ''front.threads'', ci_default = 2, ci_value = - 1\<rparr>) \<lparr>config_tree = (), objects = [], listeners = {}\<rparr>)
     (AsioInstance ''front'' 1) = None"
proof -
  let ?cs = "\<lambda>n. construct 1 (IntListener \<lparr>ci_path = ''front.threads'', ci_default = 2, ci_value = n\<rparr>)
    \<lparr>config_tree = (), objects = [], listeners = {}\<rparr>"
  have v: "int_value_at (?cs n) (ai_threads (AsioInstance ''front'' 1)) = Some n" for n
    by (simp add: AsioInstance_def int_value_at_construct)
  have 1: "start_instance (\<lambda>k. k < 8) (?cs 2) (AsioInstance ''front'' 1)
      = Some ((AsioInstance ''front'' 1)\<lparr>ai_stopped := False, ai_workers := nat 2\<rparr>)"
    by (rule start_instance_threads [OF v, THEN conjunct1, THEN mp]) (simp_all add: AsioInstance_def)
  have 2: "start_instance (\<lambda>k. k < 8) (?cs (- 1)) (AsioInstance ''front'' 1) = None"
    by (rule start_instance_threads [OF v, THEN conjunct2, THEN mp])
      (auto simp: AsioInstance_def intro!: exI [of _ "8 :: nat"])
  show ?thesis
    using 1 2 by (simp add: AsioInstance_def)
qed

end
