(* ===== verification/Cluster.thy ===== *)
theory Cluster
  imports Acceptors AsioPool
begin

text \<open>
  The start of the cluster component (\<^verbatim>\<open>server/common/src/cluster/Cluster.cpp\<close>): its asio context, its TLS
  context, an acceptor for every child of \<open>listen\<close> and a watcher for every child of \<open>connect\<close>.
  \<open>closed\<close> is the state of a newly constructed TCP acceptor and \<open>safe0\<close> the indeterminate initial
  value of the flag of a cluster acceptor. An address that cannot be parsed throws.
\<close>

record ('a, 'e, 'c) cluster_system =
  cl_ssl :: 'c
  cl_acceptors :: "'a cluster_acceptor list"
  cl_watchers :: "'e cluster_watcher list"

definition cluster_listen ::
    "('t, 'a, 'e, 'c) library \<Rightarrow> 'a \<Rightarrow> bool \<Rightarrow> 't config_state \<Rightarrow> ConfigGroup \<Rightarrow> error_code + 'a cluster_acceptor" where
  "cluster_listen lib closed safe0 cs grp = ca_run lib cs (ClusterAcceptor closed safe0 grp)"

definition cluster_connect ::
    "('t, 'a, 'e, 'c) library \<Rightarrow> 't config_state \<Rightarrow> ConfigGroup \<Rightarrow> error_code + 'e cluster_watcher" where
  "cluster_connect lib cs grp =
     ebind (make_endpoint lib (config_string lib cs grp ''ip'' []) (config_int lib cs grp ''port'' 17001))
       (\<lambda>endpoint. Inr (cw_run (ClusterWatcher endpoint (config_bool lib cs grp ''safe_link'' False))))"

definition cluster_init ::
    "('t, 'a, 'e, 'c) library \<Rightarrow> 'a \<Rightarrow> bool \<Rightarrow> nat \<Rightarrow> ConfigGroup \<Rightarrow> asio_pool \<Rightarrow> 't config_state \<Rightarrow> 'c
     \<Rightarrow> error_code + (asio_pool \<times> 't config_state \<times> ('a, 'e, 'c) cluster_system)" where
  "cluster_init lib closed safe0 addr config pool cs ctx =
     (let papi = lib_ptree lib;
          (pool', cs') = create_asio ''cluster'' (group_get_int papi config ''threads'' 2 cs) addr pool cs;
          (log, ctx') = init_ssl_context (lib_ssl lib) papi cs' (get_group config ''ssl'') ctx
      in ebind (emap (cluster_listen lib closed safe0 cs') (group_get_childs_at papi cs' config ''listen'')) (\<lambda>acceptors.
         ebind (emap (cluster_connect lib cs') (group_get_childs_at papi cs' config ''connect'')) (\<lambda>watchers.
         Inr (pool', cs', \<lparr>cl_ssl = ctx', cl_acceptors = acceptors, cl_watchers = watchers\<rparr>))))"

section \<open>What is started\<close>

text \<open>
  A group whose address parses is started. A cluster acceptor that was started keeps its group and
  has one operation outstanding.
\<close>

lemma cluster_listen_defined:
  "(\<exists>w. cluster_listen lib closed safe0 cs grp = Inr w) \<longleftrightarrow> parses lib cs ''127.0.0.1'' grp"
  by (auto simp: cluster_listen_def ca_run_def ca_open_def ClusterAcceptor_def parses_def make_endpoint_def ebind_eq_Inr
      Let_def case_prod_unfold)

lemma cluster_connect_defined: "(\<exists>w. cluster_connect lib cs grp = Inr w) \<longleftrightarrow> parses lib cs [] grp"
  by (auto simp: cluster_connect_def parses_def make_endpoint_def ebind_eq_Inr)

lemma cluster_listen_started:
  assumes "cluster_listen lib closed safe0 cs grp = Inr w"
  shows "ca_config w = grp \<and> ca_safe_link w = config_bool lib cs grp ''safe_link'' False \<and> length (ca_ops w) = 1"
  using assms by (auto simp: cluster_listen_def ca_run_def ca_open_def ClusterAcceptor_def ebind_eq_Inr Let_def
      ca_start_def ca_accept_next_def case_prod_unfold split: if_split_asm)

text \<open>A watcher that was started connects to the address and the port of its group.\<close>

definition connecting :: "('t, 'a, 'e, 'c) library \<Rightarrow> 't config_state \<Rightarrow> ConfigGroup \<Rightarrow> 'e cluster_watcher \<Rightarrow> bool" where
  "connecting lib cs grp w \<longleftrightarrow>
     (\<exists>e. ta_make_address (lib_tcp lib) (config_string lib cs grp ''ip'' []) = Inr e
        \<and> cw_endpoint w = (e, word_of_int (config_int lib cs grp ''port'' 17001)))
     \<and> cw_safe_link w = config_bool lib cs grp ''safe_link'' False
     \<and> cw_ops w = [CwConnect (cw_endpoint w)] \<and> cw_connection w = None"

lemma cluster_connect_connecting: "cluster_connect lib cs grp = Inr w \<Longrightarrow> connecting lib cs grp w"
  by (auto simp: connecting_def cluster_connect_def ebind_eq_Inr make_endpoint_def cw_run_def cw_try_connect_def cw_start_def
      ClusterWatcher_def)

lemma cluster_initE:
  assumes "cluster_init lib closed safe0 addr config pool cs ctx = Inr (pool', cs', cl)"
  shows "pool' = pool @ [AsioInstance ''cluster'' addr]"
    and "cs' = construct addr (IntListener (copy_int (group_get_int (lib_ptree lib) config ''threads'' 2 cs))) cs"
    and "list_all2 (\<lambda>grp w. cluster_listen lib closed safe0 cs' grp = Inr w)
           (group_get_childs_at (lib_ptree lib) cs' config ''listen'') (cl_acceptors cl)"
    and "list_all2 (\<lambda>grp w. cluster_connect lib cs' grp = Inr w)
           (group_get_childs_at (lib_ptree lib) cs' config ''connect'') (cl_watchers cl)"
  using assms
  by (auto simp: cluster_init_def create_asio_def ebind_eq_Inr emap_eq_Inr Let_def split: prod.split_asm)

lemma cluster_init_defined:
  assumes "\<forall>grp \<in> set (get_childs (lib_ptree lib) cs (group_key config ''listen'')). \<exists>w. cluster_listen lib closed safe0 cs grp = Inr w"
    and "\<forall>grp \<in> set (get_childs (lib_ptree lib) cs (group_key config ''connect'')). \<exists>w. cluster_connect lib cs grp = Inr w"
  shows "\<exists>pool' cs' cl. cluster_init lib closed safe0 addr config pool cs ctx = Inr (pool', cs', cl)"
proof -
  define cs' where "cs' = construct addr (IntListener (copy_int (group_get_int (lib_ptree lib) config ''threads'' 2 cs))) cs"
  have same: "cluster_listen lib closed safe0 cs' = cluster_listen lib closed safe0 cs" "cluster_connect lib cs' = cluster_connect lib cs"
    by (simp_all add: cs'_def fun_eq_iff cluster_listen_def cluster_connect_def ca_run_def ca_open_def)
  obtain as ws where "emap (cluster_listen lib closed safe0 cs') (get_childs (lib_ptree lib) cs (group_key config ''listen'')) = Inr as"
      "emap (cluster_connect lib cs') (get_childs (lib_ptree lib) cs (group_key config ''connect'')) = Inr ws"
    using assms unfolding same emap_defined [symmetric] by blast
  then show ?thesis
    by (simp add: cluster_init_def create_asio_def group_get_childs_at_def Let_def cs'_def [symmetric] split: prod.split)
qed

end
