(* ===== verification/FrontMain.thy ===== *)
theory FrontMain
  imports Cluster
begin

text \<open>
  The program of the front server (\<^verbatim>\<open>server/front/src/Main.cpp\<close>) and its global settings
  (\<^verbatim>\<open>FrontGlobals.cpp\<close>): the start of its components, and the loop that runs the asio pool until a
  signal, reloads the configuration or ends. The main thread advances by atomic steps; a signal
  handler can run between any two of them.
\<close>

section \<open>Global settings\<close>

text \<open>
  The settings are constructed before \<open>main\<close>, at the addresses zero to seven here. \<open>stored_globals\<close>
  reads the objects; it is \<open>None\<close> only in a state without them.
\<close>

definition bool_value_at :: "'t config_state \<Rightarrow> nat \<Rightarrow> bool option" where
  "bool_value_at cs addr =
     (case map_of (objects cs) addr of Some (BoolListener v) \<Rightarrow> Some (cb_value v) | _ \<Rightarrow> None)"

definition new_int_value :: "'t ptree_api \<Rightarrow> nat \<Rightarrow> string \<Rightarrow> int \<Rightarrow> 't config_state \<Rightarrow> 't config_state" where
  "new_int_value papi addr path default_val cs = construct addr (IntListener (ConfigIntValue papi path default_val cs)) cs"

definition new_bool_value :: "'t ptree_api \<Rightarrow> nat \<Rightarrow> string \<Rightarrow> bool \<Rightarrow> 't config_state \<Rightarrow> 't config_state" where
  "new_bool_value papi addr path default_val cs = construct addr (BoolListener (ConfigBoolValue papi path default_val cs)) cs"

definition static_init :: "'t ptree_api \<Rightarrow> 't \<Rightarrow> 't config_state" where
  "static_init papi empty_tree =
     new_int_value papi 7 ''front.ws.socket_timeout'' 30
     (new_int_value papi 6 ''front.ws.socket_setup_timeout'' 3
     (new_bool_value papi 5 ''front.ws.message_auto_fragment'' True
     (new_int_value papi 4 ''front.rate_limit_bytes'' 0x8000
     (new_int_value papi 3 ''front.rate_limit_messages'' 100
     (new_int_value papi 2 ''front.message_max_size'' 0x4000
     (new_int_value papi 1 ''front.connection_limit_hard'' 1050
     (new_int_value papi 0 ''front.connection_limit_soft'' 1000
        \<lparr>config_tree = empty_tree, objects = [], listeners = {}\<rparr>)))))))"

definition stored_globals :: "'t config_state \<Rightarrow> front_globals option" where
  "stored_globals cs =
     (case (int_value_at cs 0, int_value_at cs 1, int_value_at cs 2, int_value_at cs 3, int_value_at cs 4,
            bool_value_at cs 5, int_value_at cs 6, int_value_at cs 7) of
        (Some soft, Some hard, Some max_size, Some messages, Some bytes, Some fragment, Some setup, Some timeout) \<Rightarrow>
          Some \<lparr>connection_limit_soft = soft, connection_limit_hard = hard, message_max_size = max_size,
            rate_limit_messages = messages, rate_limit_bytes = bytes, ws_message_auto_fragment = fragment,
            ws_setup_timeout = setup, ws_timeout = timeout\<rparr>
      | _ \<Rightarrow> None)"

section \<open>The main thread\<close>

datatype exit_reason = ConfigUnreadable | StopSignal | ReloadFailed | StoppedWithoutSignal

fun exit_code :: "exit_reason \<Rightarrow> int" where
  "exit_code ConfigUnreadable = 1"
| "exit_code StopSignal = 0"
| "exit_code ReloadFailed = 1"
| "exit_code StoppedWithoutSignal = 1"

text \<open>
  Where the main thread is: in the first or the second loop of \<open>run\<close>, at one of the tests after it,
  about to load the configuration or to reset \<open>should_reload\<close>, or at its end. \<open>Terminated\<close> is the end
  by an exception nothing catches.
\<close>

datatype main_pc =
    Starting nat
  | Joining nat
  | TestStop
  | TestReload
  | Reloading
  | ClearReload
  | Exited exit_reason
  | Terminated

record 't main_state =
  ms_pc :: main_pc
  ms_should_stop :: bool
  ms_should_reload :: bool
  ms_pool :: asio_pool
  ms_config :: "'t config_state"

definition sig_stop :: "'t main_state \<Rightarrow> 't main_state" where
  "sig_stop s = s\<lparr>ms_should_stop := True, ms_pool := pool_stop (ms_pool s)\<rparr>"

definition sig_reload :: "'t main_state \<Rightarrow> 't main_state" where
  "sig_reload s = s\<lparr>ms_should_reload := True, ms_pool := pool_stop (ms_pool s)\<rparr>"

text \<open>
  One step of the main thread. \<open>created\<close> tells which threads can be created, \<open>read\<close> what reading a
  file gives. A step that is blocked, or of a thread that has ended, changes nothing.
\<close>

definition step_starting :: "(nat \<Rightarrow> bool) \<Rightarrow> nat \<Rightarrow> 't main_state \<Rightarrow> 't main_state" where
  "step_starting created i s =
     (if i < length (ms_pool s)
      then case start_instance created (ms_config s) (ms_pool s ! i) of
             None \<Rightarrow> s\<lparr>ms_pc := Terminated\<rparr>
           | Some inst \<Rightarrow> s\<lparr>ms_pc := Starting (Suc i), ms_pool := (ms_pool s)[i := inst]\<rparr>
      else s\<lparr>ms_pc := Joining 0\<rparr>)"

definition step_joining :: "nat \<Rightarrow> 't main_state \<Rightarrow> 't main_state" where
  "step_joining i s =
     (if i < length (ms_pool s)
      then case join_instance (ms_pool s ! i) of
             None \<Rightarrow> s
           | Some inst \<Rightarrow> s\<lparr>ms_pc := Joining (Suc i), ms_pool := (ms_pool s)[i := inst]\<rparr>
      else s\<lparr>ms_pc := TestStop\<rparr>)"

fun main_step :: "'t ptree_api \<Rightarrow> (string \<Rightarrow> 't option) \<Rightarrow> (nat \<Rightarrow> bool) \<Rightarrow> main_pc \<Rightarrow> 't main_state \<Rightarrow> 't main_state" where
  "main_step papi read created (Starting i) s = step_starting created i s"
| "main_step papi read created (Joining i) s = step_joining i s"
| "main_step papi read created TestStop s =
     s\<lparr>ms_pc := if ms_should_stop s then Exited StopSignal else TestReload\<rparr>"
| "main_step papi read created TestReload s =
     s\<lparr>ms_pc := if ms_should_reload s then Reloading else Exited StoppedWithoutSignal\<rparr>"
| "main_step papi read created Reloading s =
     (let (ok, cs) = load (papi\<lparr>pt_read_info := read\<rparr>) [] (ms_config s)
      in s\<lparr>ms_pc := if ok then ClearReload else Exited ReloadFailed, ms_config := cs\<rparr>)"
| "main_step papi read created ClearReload s = s\<lparr>ms_pc := Starting 0, ms_should_reload := False\<rparr>"
| "main_step papi read created (Exited r) s = s"
| "main_step papi read created Terminated s = s"

datatype 't main_event = Step "string \<Rightarrow> 't option" "nat \<Rightarrow> bool" | SigStop | SigReload

fun main_handle :: "'t ptree_api \<Rightarrow> 't main_event \<Rightarrow> 't main_state \<Rightarrow> 't main_state" where
  "main_handle papi (Step read created) s = main_step papi read created (ms_pc s) s"
| "main_handle papi SigStop s = sig_stop s"
| "main_handle papi SigReload s = sig_reload s"

definition main_run :: "'t ptree_api \<Rightarrow> 't main_event list \<Rightarrow> 't main_state \<Rightarrow> 't main_state" where
  "main_run papi evs s = fold (main_handle papi) evs s"

section \<open>The start of the program\<close>

record ('t, 'a, 'e, 'c) front_process =
  fp_main :: "'t main_state"
  fp_cluster :: "('a, 'e, 'c) cluster_system"
  fp_acceptors :: "('a, 'c) ws_acceptor list"

datatype 'p startup = Ended exit_reason | Uncaught error_code | Running 'p

definition ws_listen ::
    "('t, 'a, 'e, 'c) library \<Rightarrow> 'a \<Rightarrow> 'c \<Rightarrow> 't config_state \<Rightarrow> ConfigGroup \<Rightarrow> error_code + ('a, 'c) ws_acceptor" where
  "ws_listen lib closed ctx cs grp =
     wa_run lib cs (the (stored_globals cs)) 0 (WsAcceptor ctx closed grp)"

definition front_main ::
    "('t, 'a, 'e, 'c) library \<Rightarrow> 'a \<Rightarrow> 'c \<Rightarrow> bool \<Rightarrow> 't config_state \<Rightarrow> ('t, 'a, 'e, 'c) front_process startup" where
  "front_main lib closed ctx safe0 cs0 =
     (let papi = lib_ptree lib; (ok, cs) = load papi [] cs0
      in if \<not> ok then Ended ConfigUnreadable
         else
           let (pool1, cs1) = create_asio ''front'' (ConfigIntValue papi ''front.threads'' 2 cs) 8 [] cs
           in case cluster_init lib closed safe0 9 \<lparr>cg_path = ''cluster''\<rparr> pool1 cs1 ctx of
                Inl ec \<Rightarrow> Uncaught ec
              | Inr (pool2, cs2, cluster) \<Rightarrow>
                  (case emap (ws_listen lib closed ctx cs2) (get_childs papi cs2 ''front.ws.listen'') of
                     Inl ec \<Rightarrow> Uncaught ec
                   | Inr acceptors \<Rightarrow>
                       Running \<lparr>fp_main = \<lparr>ms_pc = Starting 0, ms_should_stop = False, ms_should_reload = False,
                                            ms_pool = pool2, ms_config = cs2\<rparr>,
                                fp_cluster = cluster, fp_acceptors = acceptors\<rparr>))"

end
