(* ===== verification/AcceptorProps.thy ===== *)
theory AcceptorProps
  imports Acceptors
begin

text \<open>
  The front server's acceptors share the number of active connections; \<open>fs_step\<close> interleaves their
  handlers with connections that end. The hard limit bounds that number. Further properties: what
  \<open>open\<close> does when a step of it fails, and that a watcher keeps exactly one thing going.
\<close>

section \<open>The acceptors of a front server\<close>

record accept_outcome =
  ao_ec :: error_code
  ao_peer_ec :: error_code
  ao_opt_ec :: error_code
  ao_now :: time

fun wa_handler ::
    "('t, 'a, 'e, 'c) library \<Rightarrow> 't config_state \<Rightarrow> front_globals \<Rightarrow> (time \<Rightarrow> ws_connection) \<Rightarrow> int \<Rightarrow> wa_op \<Rightarrow> accept_outcome
     \<Rightarrow> ('a, 'c) ws_acceptor \<Rightarrow> error_code + (int \<times> ws_connection option \<times> ('a, 'c) ws_acceptor)" where
  "wa_handler lib cs g new active WaAccept out w =
     wa_on_accept (lib_tcp lib) g active (ao_ec out) (ao_peer_ec out) (ao_opt_ec out) new (ao_now out) w"
| "wa_handler lib cs g new active (WaWait t RetryOpen) out w =
     ebind (wa_open lib cs g active w) (\<lambda>w'. Inr (active, None, w'))"
| "wa_handler lib cs g new active (WaWait t RetryAccept) out w =
     ebind (wa_on_timer_accept (lib_tcp lib) g active w) (\<lambda>w'. Inr (active, None, w'))"
| "wa_handler lib cs g new active (WaWait t RetryReopen) out w =
     ebind (wa_on_timer_reopen lib cs g active w) (\<lambda>w'. Inr (active, None, w'))"

definition wa_complete :: "wa_op \<Rightarrow> ('a, 'c) ws_acceptor \<Rightarrow> ('a, 'c) ws_acceptor" where
  "wa_complete op w = w\<lparr>wa_ops := remove1 op (wa_ops w)\<rparr>"

record ('a, 'c) front_system =
  fs_active :: int
  fs_acceptors :: "('a, 'c) ws_acceptor list"

text \<open>Each event sees the configuration as it is then; only the limits are fixed.\<close>

inductive fs_step ::
    "('t, 'a, 'e, 'c) library \<Rightarrow> front_globals \<Rightarrow> (time \<Rightarrow> ws_connection)
     \<Rightarrow> ('a, 'c) front_system \<Rightarrow> ('a, 'c) front_system \<Rightarrow> bool" for lib g new where
  acceptor_event: "i < length (fs_acceptors s) \<Longrightarrow> w = fs_acceptors s ! i \<Longrightarrow> op \<in> set (wa_ops w) \<Longrightarrow>
    wa_handler lib cs g new (fs_active s) op out (wa_complete op w) = Inr (active', client, w') \<Longrightarrow>
    fs_step lib g new s \<lparr>fs_active = active', fs_acceptors = (fs_acceptors s)[i := w']\<rparr>"
| connection_ends: "0 < fs_active s \<Longrightarrow> fs_step lib g new s (s\<lparr>fs_active := fs_active s - 1\<rparr>)"

definition accepting :: "('a, 'c) ws_acceptor \<Rightarrow> bool" where
  "accepting w \<longleftrightarrow> WaAccept \<in> set (wa_ops w)"

definition pending :: "('a, 'c) front_system \<Rightarrow> nat" where
  "pending s = length (filter accepting (fs_acceptors s))"

definition fs_inv :: "front_globals \<Rightarrow> ('a, 'c) front_system \<Rightarrow> bool" where
  "fs_inv g s \<longleftrightarrow>
     fs_active s + int (pending s) \<le> connection_limit_hard g - 1 + int (length (fs_acceptors s))
     \<and> (\<forall>w \<in> set (fs_acceptors s). length (wa_ops w) \<le> 1)"

text \<open>A handler starts at most one operation, and an accept only below the hard limit.\<close>

definition starts :: "front_globals \<Rightarrow> int \<Rightarrow> ('a, 'c) ws_acceptor \<Rightarrow> ('a, 'c) ws_acceptor \<Rightarrow> bool" where
  "starts g active w w' \<longleftrightarrow>
     (\<exists>op. wa_ops w' = wa_ops w @ [op] \<and> (op = WaAccept \<longrightarrow> active < connection_limit_hard g))"

lemma wa_start_starts:
  "op \<noteq> WaAccept \<Longrightarrow> starts g active w (wa_start op w)" "op \<noteq> WaAccept \<Longrightarrow> starts g active w (wa_start op (w\<lparr>wa_acceptor := a\<rparr>))"
  "active < connection_limit_hard g \<Longrightarrow> starts g active w (wa_start op (w\<lparr>wa_acceptor := a\<rparr>))"
  "active < connection_limit_hard g \<Longrightarrow> starts g active w (wa_start op w)"
  by (simp_all add: starts_def wa_start_def)

lemma wa_accept_next_starts: "wa_accept_next api g active w = Inr w' \<Longrightarrow> starts g active w w'"
  by (auto simp: wa_accept_next_def wa_start_starts split: if_split_asm prod.split_asm)

lemma wa_open_starts:
  assumes "wa_open lib cs g active w = Inr w'"
  shows "starts g active w w'"
proof -
  obtain reuse_addr endpoint where o: "(let (ec, a) = wa_listen (lib_tcp lib) reuse_addr endpoint (wa_acceptor w);
      w1 = w\<lparr>wa_acceptor := a\<rparr> in if ec \<noteq> NoError then Inr (wa_start (WaWait (seconds 10) RetryOpen) w1)
        else wa_accept_next (lib_tcp lib) g active w1) = Inr w'"
    using assms by (auto simp: wa_open_def Let_def ebind_eq_Inr)
  obtain ec a where l: "wa_listen (lib_tcp lib) reuse_addr endpoint (wa_acceptor w) = (ec, a)"
    by (cases "wa_listen (lib_tcp lib) reuse_addr endpoint (wa_acceptor w)")
  show ?thesis
  proof (cases "ec = NoError")
    case True
    then have "wa_accept_next (lib_tcp lib) g active (w\<lparr>wa_acceptor := a\<rparr>) = Inr w'"
      using o l by simp
    from wa_accept_next_starts [OF this] show ?thesis
      by (simp add: starts_def)
  next
    case False
    then show ?thesis
      using o l by (auto simp: wa_start_starts)
  qed
qed

lemma wa_handler_starts:
  assumes "wa_handler lib cs g new active op out w = Inr (active', client, w')"
  shows "starts g active' w w' \<and> active' \<le> active + (if op = WaAccept then 1 else 0)"
proof (cases op)
  case WaAccept
  then show ?thesis
    using assms wa_accept_next_starts [of "lib_tcp lib" g _ w w']
    by (auto simp: wa_on_accept_def Let_def ebind_eq_Inr wa_start_starts split: if_split_asm)
next
  case (WaWait t cb)
  then show ?thesis
    using assms by (cases cb) (auto simp: ebind_eq_Inr wa_on_timer_accept_def wa_on_timer_reopen_def wa_start_starts
        dest!: wa_open_starts wa_accept_next_starts split: if_split_asm)
qed

lemma fs_step_inv:
  assumes "fs_step lib g new s s'" and "fs_inv g s"
  shows "fs_inv g s'"
  using assms(1)
proof cases
  case (acceptor_event i w op cs out active' client w')
  note st = wa_handler_starts [OF acceptor_event(5)]
  have w: "w \<in> set (fs_acceptors s)" "length (wa_ops w) \<le> 1"
    using acceptor_event(2,3) assms(2) by (auto simp: fs_inv_def)
  then have ops: "wa_ops w = [op]"
    using acceptor_event(4) by (cases "wa_ops w") auto
  obtain op' where op': "wa_ops w' = [op']" "op' = WaAccept \<longrightarrow> active' < connection_limit_hard g"
    using st ops by (auto simp: starts_def wa_complete_def)
  have cnt: "pending s' + (if op = WaAccept then 1 else 0) = pending s + (if op' = WaAccept then 1 else 0)"
    using length_filter_update [OF acceptor_event(2), of accepting w'] acceptor_event(1,3) ops op'(1)
    by (simp add: pending_def accepting_def split: if_split_asm)
  have le: "pending s' \<le> length (fs_acceptors s)"
    using acceptor_event(1) length_filter_le [of accepting "(fs_acceptors s)[i := w']"] by (simp add: pending_def)
  have s': "fs_active s' = active'" "length (fs_acceptors s') = length (fs_acceptors s)"
    using acceptor_event(1) by simp_all
  have "active' + int (pending s') \<le> connection_limit_hard g - 1 + int (length (fs_acceptors s))"
  proof (cases "op' = WaAccept")
    case True
    then show ?thesis
      using op'(2) le by simp
  next
    case False
    then show ?thesis
      using cnt st assms(2) by (auto simp: fs_inv_def split: if_split_asm)
  qed
  moreover have "\<forall>v \<in> set (fs_acceptors s'). length (wa_ops v) \<le> 1"
    using acceptor_event(1) assms(2) op'(1) set_update_subset_insert [of "fs_acceptors s" i w']
    by (fastforce simp: fs_inv_def)
  ultimately show ?thesis
    using s' by (simp add: fs_inv_def)
next
  case connection_ends
  then show ?thesis
    using assms(2) by (simp add: fs_inv_def pending_def)
qed

interpretation front: preserved "fs_step lib g new" "\<lambda>s. fs_inv g s \<and> length (fs_acceptors s) = n" for lib g new n
proof unfold_locales
  fix s s'
  assume st: "fs_step lib g new s s'" and "fs_inv g s \<and> length (fs_acceptors s) = n"
  then show "fs_inv g s' \<and> length (fs_acceptors s') = n"
    using fs_step_inv [OF st] by (auto elim: fs_step.cases)
qed

text \<open>Acceptors that have run and accepted nothing yet.\<close>

lemma fs_inv_initial:
  assumes "0 < connection_limit_hard g"
    and "\<forall>w \<in> set ws. \<exists>ctx a config cs. wa_run lib cs g 0 (WsAcceptor ctx a config) = Inr w"
  shows "fs_inv g \<lparr>fs_active = 0, fs_acceptors = ws\<rparr>"
proof -
  have "length (wa_ops w) \<le> 1" if w: "w \<in> set ws" for w
  proof -
    obtain ctx a config cs where "wa_run lib cs g 0 (WsAcceptor ctx a config) = Inr w"
      using assms(2) w by blast
    then obtain ctx' where "starts g 0 ((WsAcceptor ctx a config)\<lparr>wa_ssl_context := ctx'\<rparr>) w"
      by (auto simp: wa_run_def split: prod.split_asm dest: wa_open_starts)
    then show ?thesis
      by (auto simp: starts_def WsAcceptor_def)
  qed
  moreover have "pending \<lparr>fs_active = 0, fs_acceptors = ws\<rparr> \<le> length ws"
    by (simp add: pending_def)
  ultimately show ?thesis
    using assms(1) by (simp add: fs_inv_def)
qed

text \<open>
  With \<open>n\<close> acceptors of websocket clients, however their accepts, timers and errors interleave with
  connections that end, the number of active connections never exceeds the hard limit by more than
  \<open>n - 1\<close>.
\<close>

lemma fs_active_bound:
  assumes "0 < connection_limit_hard g"
    and "\<forall>w \<in> set ws. \<exists>ctx a config cs. wa_run lib cs g 0 (WsAcceptor ctx a config) = Inr w"
    and "(fs_step lib g new)\<^sup>*\<^sup>* \<lparr>fs_active = 0, fs_acceptors = ws\<rparr> s"
  shows "fs_active s \<le> connection_limit_hard g + int (length ws) - 1"
  using front.steps_inv [OF assms(3), of "length ws"] fs_inv_initial [OF assms(1,2)]
  by (simp add: fs_inv_def [of g s])

section \<open>Opening an acceptor\<close>

lemma ca_listen_eq: "ca_listen = wa_listen"
  by (simp add: ca_listen_def wa_listen_def fun_eq_iff)

lemma wa_listen_reuse:
  assumes "tcp_contract api is_open" and "\<not> is_open a"
  shows "fst (wa_listen api True e a) \<noteq> NoError \<and> \<not> is_open (snd (wa_listen api True e a))"
proof -
  obtain ec a' where so: "ta_set_option api a = (ec, a')"
    by (cases "ta_set_option api a")
  then have "ec \<noteq> NoError" "\<not> is_open a'"
    using assms by (auto simp: tcp_contract_def dest: spec [of _ a])
  then show ?thesis
    by (simp add: wa_listen_def so)
qed

text \<open>
  The life of one acceptor by itself: its outstanding operations complete, under any configuration
  that satisfies \<open>config\<close>, any limits and any number of active connections.
\<close>

inductive wa_step ::
    "('t, 'a, 'e, 'c) library \<Rightarrow> ('t config_state \<Rightarrow> bool) \<Rightarrow> ('a, 'c) ws_acceptor \<Rightarrow> ('a, 'c) ws_acceptor \<Rightarrow> bool"
    for lib config where
  wa_completes: "config cs \<Longrightarrow> op \<in> set (wa_ops w) \<Longrightarrow>
    wa_handler lib cs g new active op out (wa_complete op w) = Inr (active', client, w') \<Longrightarrow> wa_step lib config w w'"

fun ca_handler ::
    "('t, 'a, 'e, 'c) library \<Rightarrow> 't config_state \<Rightarrow> cluster_connection \<Rightarrow> ca_op \<Rightarrow> accept_outcome \<Rightarrow> 'a cluster_acceptor
     \<Rightarrow> error_code + (cluster_connection option \<times> 'a cluster_acceptor)" where
  "ca_handler lib cs new CaAccept out v = ca_on_accept (ao_ec out) (ao_peer_ec out) new (ao_opt_ec out) v"
| "ca_handler lib cs new (CaWaitOpen t) out v = ebind (ca_open lib cs v) (\<lambda>v'. Inr (None, v'))"

definition ca_complete :: "ca_op \<Rightarrow> 'a cluster_acceptor \<Rightarrow> 'a cluster_acceptor" where
  "ca_complete op v = v\<lparr>ca_ops := remove1 op (ca_ops v)\<rparr>"

inductive ca_step ::
    "('t, 'a, 'e, 'c) library \<Rightarrow> ('t config_state \<Rightarrow> bool) \<Rightarrow> 'a cluster_acceptor \<Rightarrow> 'a cluster_acceptor \<Rightarrow> bool"
    for lib config where
  ca_completes: "config cs \<Longrightarrow> op \<in> set (ca_ops v) \<Longrightarrow>
    ca_handler lib cs new op out (ca_complete op v) = Inr (client, v') \<Longrightarrow> ca_step lib config v v'"

text \<open>An acceptor that is closed and waits for its next attempt to open, under a library that keeps its contract.\<close>

definition reuse_on :: "('t, 'a, 'e, 'c) library \<Rightarrow> ConfigGroup \<Rightarrow> 't config_state \<Rightarrow> bool" where
  "reuse_on lib grp cs \<longleftrightarrow> config_bool lib cs grp ''reuse_addr'' False"

definition wa_retrying :: "('t, 'a, 'e, 'c) library \<Rightarrow> ('a \<Rightarrow> bool) \<Rightarrow> ConfigGroup \<Rightarrow> ('a, 'c) ws_acceptor \<Rightarrow> bool" where
  "wa_retrying lib is_open grp w \<longleftrightarrow> tcp_contract (lib_tcp lib) is_open \<and> wa_config w = grp \<and> \<not> is_open (wa_acceptor w)
     \<and> wa_ops w = [WaWait (seconds 10) RetryOpen]"

definition ca_retrying :: "('t, 'a, 'e, 'c) library \<Rightarrow> ('a \<Rightarrow> bool) \<Rightarrow> ConfigGroup \<Rightarrow> 'a cluster_acceptor \<Rightarrow> bool" where
  "ca_retrying lib is_open grp v \<longleftrightarrow> tcp_contract (lib_tcp lib) is_open \<and> ca_config v = grp \<and> \<not> is_open (ca_acceptor v)
     \<and> ca_ops v = [CaWaitOpen (seconds 10)]"

lemma wa_open_reuse:
  assumes "tcp_contract (lib_tcp lib) is_open" and "reuse_on lib (wa_config w) cs" and "\<not> is_open (wa_acceptor w)"
    and "wa_ops w = []" and "wa_open lib cs g active w = Inr w'"
  shows "wa_retrying lib is_open (wa_config w) w'"
  using assms(2-) wa_listen_reuse [OF assms(1,3)]
  by (auto simp: wa_open_def wa_retrying_def assms(1) reuse_on_def Let_def ebind_eq_Inr case_prod_unfold wa_start_def)

lemma ca_open_reuse:
  assumes "tcp_contract (lib_tcp lib) is_open" and "reuse_on lib (ca_config v) cs" and "\<not> is_open (ca_acceptor v)"
    and "ca_ops v = []" and "ca_open lib cs v = Inr v'"
  shows "ca_retrying lib is_open (ca_config v) v'"
  using assms(2-) wa_listen_reuse [OF assms(1,3)]
  by (auto simp: ca_open_def ca_retrying_def assms(1) reuse_on_def Let_def ebind_eq_Inr case_prod_unfold ca_start_def
      ca_listen_eq)

lemma wa_step_retrying:
  assumes "wa_step lib (reuse_on lib grp) w w'" and "wa_retrying lib is_open grp w"
  shows "wa_retrying lib is_open grp w'"
  using assms(1)
proof cases
  case (wa_completes cs op g new active out active' client)
  with assms(2) have "op = WaWait (seconds 10) RetryOpen"
    by (simp add: wa_retrying_def)
  with wa_completes assms(2) have "wa_open lib cs g active (wa_complete op w) = Inr w'"
    by (auto simp: ebind_eq_Inr)
  from wa_open_reuse [OF _ _ _ _ this, of is_open] wa_completes assms(2) show ?thesis
    by (simp add: wa_retrying_def wa_complete_def)
qed

lemma ca_step_retrying:
  assumes "ca_step lib (reuse_on lib grp) v v'" and "ca_retrying lib is_open grp v"
  shows "ca_retrying lib is_open grp v'"
  using assms(1)
proof cases
  case (ca_completes cs op new out client)
  with assms(2) have "op = CaWaitOpen (seconds 10)"
    by (simp add: ca_retrying_def)
  with ca_completes assms(2) have "ca_open lib cs (ca_complete op v) = Inr v'"
    by (auto simp: ebind_eq_Inr)
  from ca_open_reuse [OF _ _ _ _ this, of is_open] ca_completes assms(2) show ?thesis
    by (simp add: ca_retrying_def ca_complete_def)
qed

interpretation wa_life: preserved "wa_step lib (reuse_on lib grp)" "wa_retrying lib is_open grp" for lib grp is_open
  by unfold_locales (rule wa_step_retrying)

interpretation ca_life: preserved "ca_step lib (reuse_on lib grp)" "ca_retrying lib is_open grp" for lib grp is_open
  by unfold_locales (rule ca_step_retrying)



text \<open>
  A library with an acceptor that reports a chosen outcome of binding, addresses that are their
  text, a configuration that sets only \<open>reuse_addr\<close>, and TLS calls that succeed.
\<close>

definition example_api :: "(bool \<times> error_code, string) tcp_api" where
  "example_api =
     \<lparr>ta_make_address = Inr,
      ta_set_option = (\<lambda>(opened, ec). (if opened then NoError else BadDescriptor, (opened, ec))),
      ta_open = (\<lambda>e (opened, ec). (NoError, (True, ec))), ta_bind = (\<lambda>e (opened, ec). (ec, (opened, ec))),
      ta_listen = (\<lambda>(opened, ec). (NoError, (opened, ec))), ta_close = (\<lambda>(opened, ec). (NoError, (False, ec)))\<rparr>"

definition example_library :: "(bool, bool \<times> error_code, string, nat) library" where
  "example_library =
     \<lparr>lib_ptree = \<lparr>pt_get_bool = (\<lambda>t p d. t), pt_get_string = (\<lambda>t p d. d), pt_get_int = (\<lambda>t p d. d),
        pt_children = (\<lambda>t p. []), pt_read_info = (\<lambda>f. None)\<rparr>,
      lib_tcp = example_api,
      lib_ssl = \<lparr>sa_set_options = (\<lambda>p c. (NoError, c + 1)), sa_set_password_callback = (\<lambda>p c. (NoError, c + 1)),
        sa_use_certificate_chain_file = (\<lambda>p c. (NoError, c + 1)), sa_use_private_key_file = (\<lambda>p c. (NoError, c + 1)),
        sa_use_tmp_dh_file = (\<lambda>p c. (NoError, c + 1)), sa_load_verify_file = (\<lambda>p c. (NoError, c + 1)),
        sa_set_cipher_list = (\<lambda>p c. (1, c + 1))\<rparr>\<rparr>"

definition example_config :: "bool \<Rightarrow> bool config_state" where
  "example_config reuse_addr = \<lparr>config_tree = reuse_addr, objects = [], listeners = {}\<rparr>"

lemma example_contract: "tcp_contract (lib_tcp example_library) fst"
  by (auto simp: tcp_contract_def example_api_def example_library_def)

lemmas example_simps = config_string_def config_int_def config_bool_def make_endpoint_def group_get_string_def
  group_get_int_def group_get_bool_def ConfigStringValue_def ConfigIntValue_def ConfigBoolValue_def get_string_def
  get_int_def get_bool_def example_library_def example_config_def example_api_def

text \<open>
  The same library with addresses that parse only when they are one of the two defaults, and \<open>open\<close> that
  fails on an acceptor that is open.
\<close>

definition strict_library :: "error_code \<Rightarrow> (bool, bool \<times> error_code, string, nat) library" where
  "strict_library bind_ec = example_library\<lparr>lib_tcp := example_api
     \<lparr>ta_make_address := (\<lambda>addr. if addr \<in> {''0.0.0.0'', ''127.0.0.1''} then Inr addr else Inl (OtherError 22)),
      ta_open := (\<lambda>e (opened, ec). (if opened then OtherError 1 else NoError, (True, ec))),
      ta_bind := (\<lambda>e (opened, ec). (bind_ec, (opened, ec)))\<rparr>\<rparr>"

lemma strict_contract: "tcp_contract (lib_tcp (strict_library bind_ec)) fst"
  by (auto simp: tcp_contract_def example_api_def strict_library_def)

text \<open>An acceptor that has run and accepts one client.\<close>

definition example_acceptor :: "(bool \<times> error_code, nat) ws_acceptor" where
  "example_acceptor = \<lparr>wa_config = \<lparr>cg_path = ''a''\<rparr>, wa_ssl_context = 7, wa_acceptor = (True, NoError), wa_ops = [WaAccept]\<rparr>"

definition example_client :: "time \<Rightarrow> ws_connection" where
  "example_client = WsConnection \<lparr>binary = False, auto_fragment = True, read_message_max = 0\<rparr> 0 True"

definition example_accepted :: accept_outcome where
  "example_accepted = \<lparr>ao_ec = NoError, ao_peer_ec = NoError, ao_opt_ec = NoError, ao_now = 7\<rparr>"

lemma example_acceptors:
  "\<forall>w \<in> set [example_acceptor]. \<exists>ctx a config cs. wa_run example_library cs default_globals 0 (WsAcceptor ctx a config) = Inr w"
proof -
  have "wa_run example_library (example_config False) default_globals 0 (WsAcceptor 2 (False, NoError) \<lparr>cg_path = ''a''\<rparr>)
      = Inr example_acceptor"
    by (simp add: wa_run_def wa_open_def wa_listen_def wa_accept_next_def wa_start_def WsAcceptor_def
        default_globals_def init_ssl_context_def throwing_def logging_def set_cipher_list_def
        group_get_string_value_def example_simps example_acceptor_def)
  then show ?thesis
    by fastforce
qed

lemma example_accept:
  "WaAccept \<in> set (wa_ops example_acceptor)
   \<and> wa_handler example_library (example_config False) default_globals example_client 0 WaAccept example_accepted
       (wa_complete WaAccept example_acceptor)
     = Inr (1, Some (ws_run default_globals 7 (example_client 7)), example_acceptor)"
  by (simp add: wa_on_accept_def wa_accept_next_def wa_start_def wa_complete_def default_globals_def
      example_acceptor_def example_accepted_def)

section \<open>The watcher of a peer\<close>

fun cw_handler ::
    "'e cw_op \<Rightarrow> accept_outcome \<Rightarrow> cluster_connection \<Rightarrow> 'e cluster_watcher \<Rightarrow> error_code + 'e cluster_watcher" where
  "cw_handler (CwConnect e) out new w = cw_on_connect (ao_ec out) (ao_peer_ec out) new (ao_opt_ec out) w"
| "cw_handler (CwWait t) out new w = Inr (cw_on_timer (ao_ec out) w)"

definition is_connect :: "'e cw_op \<Rightarrow> bool" where
  "is_connect op \<longleftrightarrow> (\<exists>e. op = CwConnect e)"

text \<open>The timer is never cancelled, so a wait does not end with \<open>operation_aborted\<close>.\<close>

inductive cw_step :: "'e cluster_watcher \<Rightarrow> 'e cluster_watcher \<Rightarrow> bool" where
  watcher_event: "op \<in> set (cw_ops w) \<Longrightarrow> \<not> is_connect op \<longrightarrow> ao_ec out \<noteq> OperationAborted \<Longrightarrow>
    cw_handler op out new (w\<lparr>cw_ops := remove1 op (cw_ops w)\<rparr>) = Inr w' \<Longrightarrow> cw_step w w'"
| connection_destroyed: "cw_step w (w\<lparr>cw_connection := None\<rparr>)"

definition cw_inv :: "'e endpoint \<Rightarrow> 'e cluster_watcher \<Rightarrow> bool" where
  "cw_inv e w \<longleftrightarrow> cw_endpoint w = e
     \<and> ((cw_ops w = [CwConnect e] \<and> cw_connection w = None) \<or> cw_ops w = [CwWait (seconds 30)])"

lemma cw_step_inv:
  assumes "cw_step w w'" and "cw_inv e w"
  shows "cw_inv e w'"
  using assms(1)
proof cases
  case (watcher_event op out new)
  then have "cw_ops w = [op]"
    using assms(2) by (auto simp: cw_inv_def)
  with watcher_event assms(2) show ?thesis
    by (cases op) (auto simp: cw_inv_def cw_on_connect_def cw_on_timer_def cw_wait_def cw_try_connect_def
        cw_start_def is_connect_def Let_def split: if_split_asm)
next
  case connection_destroyed
  then show ?thesis
    using assms(2) by (auto simp: cw_inv_def)
qed

interpretation watcher: preserved cw_step "cw_inv e" for e
  by unfold_locales (rule cw_step_inv)

section \<open>Properties\<close>

text \<open>
  C37. With \<open>reuse_addr\<close> configured, neither acceptor ever listens. \<open>open\<close> sets the option before the
  acceptor is open, which the library refuses. So from the start of the acceptor on, and as long as
  the configuration keeps the setting, after any number of its handlers have run the acceptor is
  closed and waits ten seconds for the next attempt to open it, and never accepts. (An address that
  cannot be parsed ends the program instead; one that can be parsed lets the acceptor start.)
\<close>

theorem reuse_addr_never_listens:
  assumes "tcp_contract (lib_tcp lib) is_open" and "\<not> is_open closed" and "reuse_on lib grp cs"
  shows "(parses lib cs ''0.0.0.0'' grp \<longrightarrow> (\<exists>w. wa_run lib cs g active (WsAcceptor ctx closed grp) = Inr w))
    \<and> (\<forall>w w'. wa_run lib cs g active (WsAcceptor ctx closed grp) = Inr w \<and> (wa_step lib (reuse_on lib grp))\<^sup>*\<^sup>* w w'
        \<longrightarrow> \<not> is_open (wa_acceptor w') \<and> wa_ops w' = [WaWait (seconds 10) RetryOpen])
    \<and> (parses lib cs ''127.0.0.1'' grp \<longrightarrow> (\<exists>v. ca_run lib cs (ClusterAcceptor closed safe0 grp) = Inr v))
    \<and> (\<forall>v v'. ca_run lib cs (ClusterAcceptor closed safe0 grp) = Inr v \<and> (ca_step lib (reuse_on lib grp))\<^sup>*\<^sup>* v v'
        \<longrightarrow> \<not> is_open (ca_acceptor v') \<and> ca_ops v' = [CaWaitOpen (seconds 10)])"
proof -
  have refused: "fst (wa_listen (lib_tcp lib) True e closed) \<noteq> NoError" for e
    using wa_listen_reuse [OF assms(1,2)] by simp
  have "\<exists>w. wa_run lib cs g active (WsAcceptor ctx closed grp) = Inr w" if "parses lib cs ''0.0.0.0'' grp"
    using that assms(3) refused
    by (auto simp: parses_def make_endpoint_def wa_run_def wa_open_def WsAcceptor_def reuse_on_def Let_def case_prod_unfold)
  moreover have "\<exists>v. ca_run lib cs (ClusterAcceptor closed safe0 grp) = Inr v" if "parses lib cs ''127.0.0.1'' grp"
    using that by (auto simp: parses_def make_endpoint_def ca_run_def ca_open_def ClusterAcceptor_def Let_def case_prod_unfold)
  moreover have "wa_retrying lib is_open grp w" if run: "wa_run lib cs g active (WsAcceptor ctx closed grp) = Inr w" for w
  proof -
    obtain ctx' where "wa_open lib cs g active ((WsAcceptor ctx closed grp)\<lparr>wa_ssl_context := ctx'\<rparr>) = Inr w"
      using run by (auto simp: wa_run_def split: prod.split_asm)
    from wa_open_reuse [OF assms(1) _ _ _ this] assms(2,3) show ?thesis
      by (simp add: WsAcceptor_def)
  qed
  moreover have "ca_retrying lib is_open grp v" if "ca_run lib cs (ClusterAcceptor closed safe0 grp) = Inr v" for v
    using ca_open_reuse [OF assms(1) _ _ _ that [unfolded ca_run_def]] assms(2,3) by (simp add: ClusterAcceptor_def)
  ultimately show ?thesis
    using wa_life.steps_inv [of lib grp _ _ is_open] ca_life.steps_inv [of lib grp _ _ is_open]
    unfolding wa_retrying_def ca_retrying_def by blast
qed

text \<open>
  Two attempts of each acceptor, with a library that knows the two default addresses only.
\<close>

theorem reuse_addr_never_listens_witness:
  "\<exists>w w' v v'. wa_run (strict_library NoError) (example_config True) default_globals 0 (WsAcceptor 0 (False, NoError) \<lparr>cg_path = ''a''\<rparr>) = Inr w
     \<and> wa_step (strict_library NoError) (reuse_on (strict_library NoError) \<lparr>cg_path = ''a''\<rparr>) w w'
     \<and> \<not> fst (wa_acceptor w') \<and> wa_ops w' = [WaWait (seconds 10) RetryOpen]
     \<and> ca_run (strict_library NoError) (example_config True) (ClusterAcceptor (False, NoError) False \<lparr>cg_path = ''a''\<rparr>) = Inr v
     \<and> ca_step (strict_library NoError) (reuse_on (strict_library NoError) \<lparr>cg_path = ''a''\<rparr>) v v'
     \<and> \<not> fst (ca_acceptor v') \<and> ca_ops v' = [CaWaitOpen (seconds 10)]"
proof -
  let ?lib = "strict_library NoError" and ?grp = "\<lparr>cg_path = ''a''\<rparr>" and ?cs = "example_config True"
  have on: "reuse_on ?lib ?grp ?cs"
    by (simp add: reuse_on_def strict_library_def example_simps)
  have "parses ?lib ?cs ''0.0.0.0'' ?grp" "parses ?lib ?cs ''127.0.0.1'' ?grp"
    by (simp_all add: parses_def strict_library_def example_simps)
  note never = reuse_addr_never_listens [OF strict_contract _ on, of "(False, NoError)" default_globals 0 0 False]
  have "\<exists>w. wa_run ?lib ?cs default_globals 0 (WsAcceptor 0 (False, NoError) ?grp) = Inr w"
    and "\<exists>v. ca_run ?lib ?cs (ClusterAcceptor (False, NoError) False ?grp) = Inr v"
    using never \<open>parses ?lib ?cs ''0.0.0.0'' ?grp\<close> \<open>parses ?lib ?cs ''127.0.0.1'' ?grp\<close> by simp_all
  then obtain w v where w: "wa_run ?lib ?cs default_globals 0 (WsAcceptor 0 (False, NoError) ?grp) = Inr w"
    and v: "ca_run ?lib ?cs (ClusterAcceptor (False, NoError) False ?grp) = Inr v"
    by blast
  have "wa_step ?lib (reuse_on ?lib ?grp) w w"
    using w by (intro wa_completes [of "reuse_on ?lib ?grp", OF on, of "WaWait (seconds 10) RetryOpen" _ _ default_globals example_client 0 example_accepted])
      (auto simp: wa_run_def wa_open_def wa_listen_def WsAcceptor_def wa_start_def wa_complete_def strict_library_def
        example_simps init_ssl_context_def throwing_def logging_def set_cipher_list_def group_get_string_value_def)
  moreover have "ca_step ?lib (reuse_on ?lib ?grp) v v"
    using v by (intro ca_completes [of "reuse_on ?lib ?grp", OF on, of "CaWaitOpen (seconds 10)" _ _ "ClusterConnection True True 0" example_accepted])
      (auto simp: ca_run_def ca_open_def ca_listen_eq wa_listen_def ClusterAcceptor_def ca_start_def ca_complete_def
        strict_library_def example_simps)
  moreover have "\<not> fst (wa_acceptor w) \<and> wa_ops w = [WaWait (seconds 10) RetryOpen]"
      "\<not> fst (ca_acceptor v) \<and> ca_ops v = [CaWaitOpen (seconds 10)]"
    using never w v calculation by auto
  ultimately show ?thesis
    using w v by blast
qed



text \<open>
  C31. A watcher keeps exactly one operation outstanding, a connection attempt to its endpoint or a
  wait of thirty seconds before the next look, and attempts a connection only while it has none: it
  never stops watching and never opens a second connection beside a live one.
\<close>

theorem watcher_single_connection:
  assumes "cw_step\<^sup>*\<^sup>* (cw_run (ClusterWatcher e safe_link)) w"
  shows "(cw_ops w = [CwConnect e] \<and> cw_connection w = None) \<or> cw_ops w = [CwWait (seconds 30)]"
proof -
  have "cw_inv e (cw_run (ClusterWatcher e safe_link))"
    by (simp add: cw_inv_def cw_run_def cw_try_connect_def cw_start_def ClusterWatcher_def)
  with watcher.steps_inv [OF assms] show ?thesis
    by (auto simp: cw_inv_def)
qed

theorem watcher_single_connection_witness:
  "\<exists>w. cw_step\<^sup>*\<^sup>* (cw_run (ClusterWatcher (''::1'', 17001) True)) w \<and> cw_connection w \<noteq> None
     \<and> cw_ops w = [CwWait (seconds 30)]"
proof -
  let ?new = "ClusterConnection True True 0"
  let ?out = "\<lparr>ao_ec = NoError, ao_peer_ec = NoError, ao_opt_ec = NoError, ao_now = 0\<rparr>"
  let ?e = "(''::1'', 17001 :: 16 word)"
  let ?w = "\<lparr>cw_safe_link = True, cw_endpoint = ?e, cw_connection = None, cw_ops = [CwConnect ?e]\<rparr>"
  define c where "c = cc_run Client True NoError ?new"
  define w where "w = \<lparr>cw_safe_link = True, cw_endpoint = ?e, cw_connection = Some c, cw_ops = [CwWait (seconds 30)]\<rparr>"
  have run: "cw_run (ClusterWatcher ?e True) = ?w"
    by (simp add: cw_run_def cw_try_connect_def cw_start_def ClusterWatcher_def)
  have "cw_handler (CwConnect ?e) ?out ?new (?w\<lparr>cw_ops := remove1 (CwConnect ?e) (cw_ops ?w)\<rparr>) = Inr w"
    by (simp add: w_def c_def cw_on_connect_def cw_wait_def cw_start_def)
  then have "cw_step ?w w"
    by (intro watcher_event [of "CwConnect ?e" ?w ?out ?new w]) (simp_all add: is_connect_def)
  then have steps: "cw_step\<^sup>*\<^sup>* (cw_run (ClusterWatcher ?e True)) w"
    unfolding run by (rule r_into_rtranclp)
  have "cw_connection w \<noteq> None"
    by (simp add: w_def)
  moreover from this have "cw_ops w = [CwWait (seconds 30)]"
    using watcher_single_connection [OF steps] by metis
  ultimately show ?thesis
    using steps by metis
qed

end
