(* ===== verification/FrontProps.thy ===== *)
theory FrontProps
  imports FrontMain AcceptorProps
begin

text \<open>
  Properties of the program of the front server: its settings and thread counts follow the
  configuration, why it ends, and when a stop signal ends it.
\<close>

section \<open>Settings follow the configuration\<close>

definition int_setting :: "'t ptree_api \<Rightarrow> 't config_state \<Rightarrow> nat \<Rightarrow> string \<Rightarrow> int \<Rightarrow> bool" where
  "int_setting papi cs addr path d \<longleftrightarrow>
     addr \<in> listeners cs \<and> map_of (objects cs) addr = Some (IntListener \<lparr>ci_path = path, ci_default = d, ci_value = get_int papi cs path d\<rparr>)"

definition bool_setting :: "'t ptree_api \<Rightarrow> 't config_state \<Rightarrow> nat \<Rightarrow> string \<Rightarrow> bool \<Rightarrow> bool" where
  "bool_setting papi cs addr path d \<longleftrightarrow>
     addr \<in> listeners cs \<and> map_of (objects cs) addr = Some (BoolListener \<lparr>cb_path = path, cb_default = d, cb_value = get_bool papi cs path d\<rparr>)"

lemma setting_new:
  "int_setting papi (new_int_value papi addr path d cs) addr' path' d'
     \<longleftrightarrow> (if addr' = addr then path' = path \<and> d' = d else int_setting papi cs addr' path' d')"
  "addr' \<noteq> addr \<Longrightarrow> bool_setting papi (new_int_value papi addr path d cs) addr' = bool_setting papi cs addr'"
  "addr' \<noteq> addr \<Longrightarrow> int_setting papi (new_bool_value papi addr path b cs) addr' = int_setting papi cs addr'"
  "bool_setting papi (new_bool_value papi addr path b cs) addr path b"
  by (auto simp: int_setting_def bool_setting_def new_int_value_def new_bool_value_def map_of_construct fun_eq_iff
      ConfigIntValue_def ConfigBoolValue_def)

lemma setting_load:
  "int_setting papi cs addr path d \<Longrightarrow> int_setting papi (snd (load (papi\<lparr>pt_read_info := read\<rparr>) file cs)) addr path d"
  "bool_setting papi cs addr path b \<Longrightarrow> bool_setting papi (snd (load (papi\<lparr>pt_read_info := read\<rparr>) file cs)) addr path b"
  by (simp_all add: int_setting_def bool_setting_def load_def map_of_invoke
      get_int_def get_bool_def split: option.split)

lemma setting_value:
  "int_setting papi cs addr path d \<Longrightarrow> int_value_at cs addr = Some (get_int papi cs path d)"
  "bool_setting papi cs addr path b \<Longrightarrow> bool_value_at cs addr = Some (get_bool papi cs path b)"
  by (simp_all add: int_setting_def bool_setting_def int_value_at_def bool_value_at_def)

definition globals_set :: "'t ptree_api \<Rightarrow> 't config_state \<Rightarrow> bool" where
  "globals_set papi cs \<longleftrightarrow>
     int_setting papi cs 0 ''front.connection_limit_soft'' 1000 \<and> int_setting papi cs 1 ''front.connection_limit_hard'' 1050
     \<and> int_setting papi cs 2 ''front.message_max_size'' 0x4000 \<and> int_setting papi cs 3 ''front.rate_limit_messages'' 100
     \<and> int_setting papi cs 4 ''front.rate_limit_bytes'' 0x8000 \<and> bool_setting papi cs 5 ''front.ws.message_auto_fragment'' True
     \<and> int_setting papi cs 6 ''front.ws.socket_setup_timeout'' 3 \<and> int_setting papi cs 7 ''front.ws.socket_timeout'' 30"

lemma globals_set_static: "globals_set papi (static_init papi t)"
  by (simp add: globals_set_def static_init_def setting_new)

lemma globals_set_load: "globals_set papi cs \<Longrightarrow> globals_set papi (snd (load (papi\<lparr>pt_read_info := read\<rparr>) file cs))"
  by (simp add: globals_set_def setting_load)

text \<open>What the settings should be: the values in the configuration, or the defaults.\<close>

definition current_globals :: "'t ptree_api \<Rightarrow> 't config_state \<Rightarrow> front_globals" where
  "current_globals papi cs =
     \<lparr>connection_limit_soft = get_int papi cs ''front.connection_limit_soft'' 1000,
      connection_limit_hard = get_int papi cs ''front.connection_limit_hard'' 1050,
      message_max_size = get_int papi cs ''front.message_max_size'' 0x4000,
      rate_limit_messages = get_int papi cs ''front.rate_limit_messages'' 100,
      rate_limit_bytes = get_int papi cs ''front.rate_limit_bytes'' 0x8000,
      ws_message_auto_fragment = get_bool papi cs ''front.ws.message_auto_fragment'' True,
      ws_setup_timeout = get_int papi cs ''front.ws.socket_setup_timeout'' 3,
      ws_timeout = get_int papi cs ''front.ws.socket_timeout'' 30\<rparr>"

lemma globals_set_stored: "globals_set papi cs \<Longrightarrow> stored_globals cs = Some (current_globals papi cs)"
  by (auto simp: globals_set_def stored_globals_def current_globals_def dest!: setting_value)

lemma setting_construct:
  "addr' \<noteq> addr \<Longrightarrow> int_setting papi (construct addr l cs) addr' = int_setting papi cs addr'"
  "addr' \<noteq> addr \<Longrightarrow> bool_setting papi (construct addr l cs) addr' = bool_setting papi cs addr'"
  by (simp_all add: int_setting_def bool_setting_def map_of_construct fun_eq_iff)

lemma globals_set_construct: "8 \<le> addr \<Longrightarrow> globals_set papi cs \<Longrightarrow> globals_set papi (construct addr l cs)"
  by (simp add: globals_set_def setting_construct)

text \<open>The thread counts of the two contexts, and both groups of settings together.\<close>

definition threads_set :: "'t ptree_api \<Rightarrow> 't config_state \<Rightarrow> bool" where
  "threads_set papi cs \<longleftrightarrow> int_setting papi cs 8 ''front.threads'' 2 \<and> int_setting papi cs 9 ''cluster.threads'' 2"

definition settings_ok :: "'t ptree_api \<Rightarrow> 't config_state \<Rightarrow> bool" where
  "settings_ok papi cs \<longleftrightarrow> globals_set papi cs \<and> threads_set papi cs"

lemma settings_ok_load: "settings_ok papi cs \<Longrightarrow> settings_ok papi (snd (load (papi\<lparr>pt_read_info := read\<rparr>) file cs))"
  by (simp add: settings_ok_def threads_set_def globals_set_load setting_load)

section \<open>The start of the program\<close>

text \<open>What is running when \<open>front_main\<close> reaches its loop.\<close>

definition ws_listening :: "ConfigGroup \<Rightarrow> ('a, 'c) ws_acceptor \<Rightarrow> bool" where
  "ws_listening grp w \<longleftrightarrow> wa_config w = grp \<and> (\<exists>op. wa_ops w = [op])"

lemma ws_listen_listening: "ws_listen lib closed ctx cs grp = Inr w \<Longrightarrow> ws_listening grp w"
  by (auto simp: ws_listen_def wa_run_def wa_open_def wa_accept_next_def WsAcceptor_def ws_listening_def ebind_eq_Inr Let_def
      wa_start_def case_prod_unfold split: if_split_asm)

lemma ws_listen_defined:
  assumes "globals_set (lib_ptree lib) cs"
  shows "(\<exists>w. ws_listen lib closed ctx cs grp = Inr w) \<Longrightarrow> parses lib cs ''0.0.0.0'' grp"
    and "0 < get_int (lib_ptree lib) cs ''front.connection_limit_hard'' 1050 \<Longrightarrow> parses lib cs ''0.0.0.0'' grp
      \<Longrightarrow> \<exists>w. ws_listen lib closed ctx cs grp = Inr w"
  using globals_set_stored [OF assms]
  by (auto simp: ws_listen_def wa_run_def wa_open_def WsAcceptor_def parses_def make_endpoint_def ebind_eq_Inr
      wa_accept_next_def current_globals_def Let_def case_prod_unfold)

lemma front_main_running:
  assumes "front_main lib closed ctx safe0 cs0 = Running p"
  obtains cs where "load (lib_ptree lib) [] cs0 = (True, cs)"
    and "ms_config (fp_main p) = construct 9 (IntListener \<lparr>ci_path = ''cluster.threads'', ci_default = 2,
           ci_value = get_int (lib_ptree lib) cs ''cluster.threads'' 2\<rparr>)
         (construct 8 (IntListener \<lparr>ci_path = ''front.threads'', ci_default = 2,
           ci_value = get_int (lib_ptree lib) cs ''front.threads'' 2\<rparr>) cs)"
    and "fp_main p = \<lparr>ms_pc = Starting 0, ms_should_stop = False, ms_should_reload = False,
           ms_pool = [AsioInstance ''front'' 8, AsioInstance ''cluster'' 9], ms_config = ms_config (fp_main p)\<rparr>"
    and "list_all2 (\<lambda>grp w. cluster_listen lib closed safe0 (ms_config (fp_main p)) grp = Inr w)
           (get_childs (lib_ptree lib) cs ''cluster.listen'') (cl_acceptors (fp_cluster p))"
    and "list_all2 (\<lambda>grp w. cluster_connect lib (ms_config (fp_main p)) grp = Inr w)
           (get_childs (lib_ptree lib) cs ''cluster.connect'') (cl_watchers (fp_cluster p))"
    and "list_all2 (\<lambda>grp w. ws_listen lib closed ctx (ms_config (fp_main p)) grp = Inr w)
           (get_childs (lib_ptree lib) cs ''front.ws.listen'') (fp_acceptors p)"
proof -
  let ?papi = "lib_ptree lib"
  obtain ok cs where load: "load ?papi [] cs0 = (ok, cs)"
    by (cases "load ?papi [] cs0")
  define cs1 where "cs1 = construct 8 (IntListener (copy_int (ConfigIntValue ?papi ''front.threads'' 2 cs))) cs"
  have "ok"
    using assms load by (cases ok) (simp_all add: front_main_def)
  have main: "(case cluster_init lib closed safe0 9 \<lparr>cg_path = ''cluster''\<rparr> [AsioInstance ''front'' 8] cs1 ctx of
      Inl ec \<Rightarrow> Uncaught ec
    | Inr (pool2, cs2, cluster) \<Rightarrow>
        (case emap (ws_listen lib closed ctx cs2) (get_childs ?papi cs2 ''front.ws.listen'') of
           Inl ec \<Rightarrow> Uncaught ec
         | Inr acceptors \<Rightarrow>
             Running \<lparr>fp_main = \<lparr>ms_pc = Starting 0, ms_should_stop = False, ms_should_reload = False,
                                  ms_pool = pool2, ms_config = cs2\<rparr>,
                      fp_cluster = cluster, fp_acceptors = acceptors\<rparr>)) = Running p"
    using assms load \<open>ok\<close> by (simp add: front_main_def create_asio_def cs1_def Let_def)
  then obtain pool2 cs2 cluster where c:
      "cluster_init lib closed safe0 9 \<lparr>cg_path = ''cluster''\<rparr> [AsioInstance ''front'' 8] cs1 ctx = Inr (pool2, cs2, cluster)"
    by (auto split: sum.split_asm prod.split_asm)
  with main obtain acceptors where a: "emap (ws_listen lib closed ctx cs2) (get_childs ?papi cs2 ''front.ws.listen'') = Inr acceptors"
    by (auto split: sum.split_asm)
  have p: "p = \<lparr>fp_main = \<lparr>ms_pc = Starting 0, ms_should_stop = False, ms_should_reload = False,
      ms_pool = pool2, ms_config = cs2\<rparr>, fp_cluster = cluster, fp_acceptors = acceptors\<rparr>"
    using main by (simp add: c a)
  have cs2: "cs2 = construct 9 (IntListener \<lparr>ci_path = ''cluster.threads'', ci_default = 2,
      ci_value = get_int ?papi cs ''cluster.threads'' 2\<rparr>) cs1"
    using cluster_initE(2) [OF c] by (simp add: cs1_def group_get_int_def group_key_def ConfigIntValue_def copy_int_def)
  have "list_all2 (\<lambda>grp w. ws_listen lib closed ctx cs2 grp = Inr w) (get_childs ?papi cs ''front.ws.listen'') acceptors"
    using a by (simp add: emap_eq_Inr cs2 cs1_def)
  then show thesis
    using that [of cs] load \<open>ok\<close> cluster_initE(1,3,4) [OF c]
    by (simp add: p cs2 cs1_def group_get_childs_at_def group_key_def ConfigIntValue_def copy_int_def)
qed

text \<open>Every address the start of the program parses.\<close>

definition addresses_ok :: "('t, 'a, 'e, 'c) library \<Rightarrow> 't config_state \<Rightarrow> bool" where
  "addresses_ok lib cs \<longleftrightarrow>
     list_all (parses lib cs ''127.0.0.1'') (get_childs (lib_ptree lib) cs ''cluster.listen'')
     \<and> list_all (parses lib cs []) (get_childs (lib_ptree lib) cs ''cluster.connect'')
     \<and> list_all (parses lib cs ''0.0.0.0'') (get_childs (lib_ptree lib) cs ''front.ws.listen'')"

lemma parses_construct [simp]: "parses lib (construct addr l cs) = parses lib cs"
  by (simp add: fun_eq_iff parses_def)

lemma connecting_construct [simp]: "connecting lib (construct addr l cs) = connecting lib cs"
  by (simp add: fun_eq_iff connecting_def)

lemma loaded_globals:
  "load (lib_ptree lib) [] (static_init (lib_ptree lib) t) = (True, cs) \<Longrightarrow> globals_set (lib_ptree lib) cs"
  using globals_set_load [OF globals_set_static, of "lib_ptree lib" "pt_read_info (lib_ptree lib)" "[]" t] by simp

lemma front_main_not_ended:
  "load (lib_ptree lib) [] (static_init (lib_ptree lib) t) = (True, cs)
   \<Longrightarrow> front_main lib closed ctx safe0 (static_init (lib_ptree lib) t) \<noteq> Ended r"
  by (simp add: front_main_def Let_def split: prod.split sum.split)

lemma front_main_reaches:
  assumes "load (lib_ptree lib) [] (static_init (lib_ptree lib) t) = (True, cs)" and "addresses_ok lib cs"
    and "0 < get_int (lib_ptree lib) cs ''front.connection_limit_hard'' 1050"
  shows "\<exists>p. front_main lib closed ctx safe0 (static_init (lib_ptree lib) t) = Running p"
proof -
  let ?papi = "lib_ptree lib"
  define cs1 where "cs1 = construct 8 (IntListener (copy_int (ConfigIntValue ?papi ''front.threads'' 2 cs))) cs"
  have "\<exists>pool2 cs2 cluster. cluster_init lib closed safe0 9 \<lparr>cg_path = ''cluster''\<rparr> [AsioInstance ''front'' 8] cs1 ctx
      = Inr (pool2, cs2, cluster)"
    by (rule cluster_init_defined)
      (use assms(2) in \<open>simp_all add: addresses_ok_def list_all_iff cluster_listen_defined cluster_connect_defined cs1_def group_key_def\<close>)
  then obtain pool2 cs2 cluster where c:
      "cluster_init lib closed safe0 9 \<lparr>cg_path = ''cluster''\<rparr> [AsioInstance ''front'' 8] cs1 ctx = Inr (pool2, cs2, cluster)"
    by blast
  note cs2 = cluster_initE(2) [OF c]
  have "globals_set ?papi cs2"
    unfolding cs2 cs1_def by (intro globals_set_construct loaded_globals [OF assms(1)]) simp_all
  then have "\<forall>grp \<in> set (get_childs ?papi cs ''front.ws.listen''). \<exists>w. ws_listen lib closed ctx cs2 grp = Inr w"
    using assms(2,3) by (auto intro!: ws_listen_defined(2) simp: addresses_ok_def list_all_iff cs2 cs1_def)
  then obtain acceptors where "emap (ws_listen lib closed ctx cs2) (get_childs ?papi cs2 ''front.ws.listen'') = Inr acceptors"
    unfolding emap_defined [symmetric] by (auto simp: cs2 cs1_def)
  then show ?thesis
    by (simp add: front_main_def create_asio_def assms(1) cs1_def [symmetric] c)
qed

lemma front_main_started:
  assumes "front_main lib closed ctx safe0 (static_init (lib_ptree lib) t) = Running p"
    and "load (lib_ptree lib) [] (static_init (lib_ptree lib) t) = (ok, cs)"
  shows "addresses_ok lib cs"
    and "map ai_name (ms_pool (fp_main p)) = [''front'', ''cluster'']"
    and "map ca_config (cl_acceptors (fp_cluster p)) = get_childs (lib_ptree lib) cs ''cluster.listen''"
    and "list_all (\<lambda>w. ca_safe_link w = config_bool lib cs (ca_config w) ''safe_link'' False \<and> length (ca_ops w) = 1)
          (cl_acceptors (fp_cluster p))"
    and "list_all2 (connecting lib cs) (get_childs (lib_ptree lib) cs ''cluster.connect'') (cl_watchers (fp_cluster p))"
    and "map wa_config (fp_acceptors p) = get_childs (lib_ptree lib) cs ''front.ws.listen''"
    and "list_all (\<lambda>w. length (wa_ops w) = 1) (fp_acceptors p)"
proof -
  let ?papi = "lib_ptree lib"
  obtain cs' where load: "load ?papi [] (static_init ?papi t) = (True, cs')"
    and config: "ms_config (fp_main p) = construct 9 (IntListener \<lparr>ci_path = ''cluster.threads'', ci_default = 2,
           ci_value = get_int ?papi cs' ''cluster.threads'' 2\<rparr>)
         (construct 8 (IntListener \<lparr>ci_path = ''front.threads'', ci_default = 2,
           ci_value = get_int ?papi cs' ''front.threads'' 2\<rparr>) cs')"
    and main: "fp_main p = \<lparr>ms_pc = Starting 0, ms_should_stop = False, ms_should_reload = False,
         ms_pool = [AsioInstance ''front'' 8, AsioInstance ''cluster'' 9], ms_config = ms_config (fp_main p)\<rparr>"
    and lists: "list_all2 (\<lambda>grp w. cluster_listen lib closed safe0 (ms_config (fp_main p)) grp = Inr w)
           (get_childs ?papi cs' ''cluster.listen'') (cl_acceptors (fp_cluster p))"
      "list_all2 (\<lambda>grp w. cluster_connect lib (ms_config (fp_main p)) grp = Inr w)
           (get_childs ?papi cs' ''cluster.connect'') (cl_watchers (fp_cluster p))"
      "list_all2 (\<lambda>grp w. ws_listen lib closed ctx (ms_config (fp_main p)) grp = Inr w)
           (get_childs ?papi cs' ''front.ws.listen'') (fp_acceptors p)"
    using assms(1) by (rule front_main_running)
  have "cs' = cs"
    using load assms(2) by simp
  have globals: "globals_set ?papi (ms_config (fp_main p))"
    unfolding config by (intro globals_set_construct loaded_globals [OF load]) simp_all
  have same: "parses lib (ms_config (fp_main p)) = parses lib cs" "connecting lib (ms_config (fp_main p)) = connecting lib cs"
      "config_bool lib (ms_config (fp_main p)) = config_bool lib cs"
    by (simp_all add: config \<open>cs' = cs\<close>)
  note lists = lists [unfolded \<open>cs' = cs\<close>]
  show "map ai_name (ms_pool (fp_main p)) = [''front'', ''cluster'']"
    by (subst main) (simp add: AsioInstance_def)
  show "addresses_ok lib cs"
    unfolding addresses_ok_def same(1) [symmetric]
    using list_all2_defined [OF lists(1)] list_all2_defined [OF lists(2)] list_all2_defined [OF lists(3)]
    by (auto simp: cluster_listen_defined cluster_connect_defined list_all_iff dest!: ws_listen_defined(1) [OF globals, OF exI]
        intro: ws_listen_defined(1) [OF globals])
  show "map ca_config (cl_acceptors (fp_cluster p)) = get_childs ?papi cs ''cluster.listen''"
    and "list_all (\<lambda>w. ca_safe_link w = config_bool lib cs (ca_config w) ''safe_link'' False \<and> length (ca_ops w) = 1)
          (cl_acceptors (fp_cluster p))"
    using lists(1) unfolding same(3) [symmetric]
    by (induction rule: list_all2_induct) (auto dest!: cluster_listen_started)
  show "list_all2 (connecting lib cs) (get_childs ?papi cs ''cluster.connect'') (cl_watchers (fp_cluster p))"
    unfolding same(2) [symmetric] by (rule list_all2_mono [OF lists(2) cluster_connect_connecting])
  show "map wa_config (fp_acceptors p) = get_childs ?papi cs ''front.ws.listen''"
    and "list_all (\<lambda>w. length (wa_ops w) = 1) (fp_acceptors p)"
    using lists(3) by (induction rule: list_all2_induct) (auto dest!: ws_listen_listening simp: ws_listening_def)
qed

section \<open>The loop\<close>

text \<open>The number of threads an instance is configured to have.\<close>

definition thread_count :: "'t config_state \<Rightarrow> asio_instance \<Rightarrow> nat" where
  "thread_count cs inst = (case int_value_at cs (ai_threads inst) of None \<Rightarrow> 0 | Some n \<Rightarrow> size_t_of_int n)"

definition signalled :: "'t main_state \<Rightarrow> bool" where
  "signalled s \<longleftrightarrow> ms_should_stop s \<or> ms_should_reload s"

text \<open>
  An instance that was started has its configured number of workers, and is stopped only by a signal.
  One that was joined had no workers, or was stopped.
\<close>

definition started :: "'t main_state \<Rightarrow> asio_instance \<Rightarrow> bool" where
  "started s inst \<longleftrightarrow> ai_workers inst = thread_count (ms_config s) inst \<and> (ai_stopped inst \<longrightarrow> signalled s)"

definition idle :: "'t main_state \<Rightarrow> bool" where
  "idle s \<longleftrightarrow> (\<forall>inst \<in> set (ms_pool s). ai_workers inst = 0)"

definition joined :: "'t main_state \<Rightarrow> asio_instance \<Rightarrow> bool" where
  "joined s inst \<longleftrightarrow> ai_workers inst = 0 \<and> (thread_count (ms_config s) inst = 0 \<or> signalled s)"

fun pc_inv :: "main_pc \<Rightarrow> 't main_state \<Rightarrow> bool" where
  "pc_inv (Starting i) s \<longleftrightarrow> i \<le> length (ms_pool s) \<and> (\<forall>inst \<in> set (take i (ms_pool s)). started s inst)
     \<and> (\<forall>inst \<in> set (drop i (ms_pool s)). ai_workers inst = 0)"
| "pc_inv (Joining i) s \<longleftrightarrow> i \<le> length (ms_pool s) \<and> (\<forall>inst \<in> set (take i (ms_pool s)). joined s inst)
     \<and> (\<forall>inst \<in> set (drop i (ms_pool s)). started s inst)"
| "pc_inv TestStop s \<longleftrightarrow> (\<forall>inst \<in> set (ms_pool s). joined s inst)"
| "pc_inv TestReload s \<longleftrightarrow> idle s
     \<and> (ms_should_reload s \<or> (\<forall>inst \<in> set (ms_pool s). thread_count (ms_config s) inst = 0))"
| "pc_inv Reloading s \<longleftrightarrow> idle s \<and> ms_should_reload s"
| "pc_inv ClearReload s \<longleftrightarrow> idle s"
| "pc_inv (Exited StopSignal) s \<longleftrightarrow> ms_should_stop s"
| "pc_inv (Exited ReloadFailed) s \<longleftrightarrow> ms_should_reload s"
| "pc_inv (Exited StoppedWithoutSignal) s \<longleftrightarrow> (\<forall>inst \<in> set (ms_pool s). thread_count (ms_config s) inst = 0)"
| "pc_inv (Exited ConfigUnreadable) s \<longleftrightarrow> False"
| "pc_inv Terminated s \<longleftrightarrow> True"

definition main_inv :: "'t ptree_api \<Rightarrow> 't main_state \<Rightarrow> bool" where
  "main_inv papi s \<longleftrightarrow> settings_ok papi (ms_config s) \<and> map ai_threads (ms_pool s) = [8, 9] \<and> pc_inv (ms_pc s) s"

lemma thread_count_update [simp]:
  "thread_count cs (inst\<lparr>ai_stopped := b\<rparr>) = thread_count cs inst"
  "thread_count cs (inst\<lparr>ai_workers := w\<rparr>) = thread_count cs inst"
  by (simp_all add: thread_count_def)

lemma signal_inv:
  assumes "pc_inv pc s" and "ms_should_stop s \<longrightarrow> ms_should_stop s'" and "ms_should_reload s \<longrightarrow> ms_should_reload s'"
    and "signalled s'" and "ms_pool s' = pool_stop (ms_pool s)" and "ms_config s' = ms_config s"
  shows "pc_inv pc s'"
proof -
  have "started s inst \<Longrightarrow> started s' (inst\<lparr>ai_stopped := True\<rparr>)" "joined s inst \<Longrightarrow> joined s' (inst\<lparr>ai_stopped := True\<rparr>)" for inst
    using assms(4,6) by (auto simp: started_def joined_def)
  then show ?thesis
    using assms by (cases "(pc, s)" rule: pc_inv.cases) (auto simp: pool_stop_def take_map drop_map idle_def)
qed

text \<open>The two loops of \<open>run\<close>, one instance at a time.\<close>

lemma start_instance_started:
  assumes "start_instance created cs inst = Some inst'" and "ai_workers inst = 0"
  shows "ai_threads inst' = ai_threads inst \<and> ai_workers inst' = thread_count cs inst' \<and> \<not> ai_stopped inst'"
  using assms by (auto simp: start_instance_def thread_count_def start_workers_eq split: option.split_asm if_split_asm)

lemma step_starting_inv:
  assumes "pc_inv (Starting i) s"
  shows "pc_inv (ms_pc (step_starting created i s)) (step_starting created i s)"
    and "map ai_threads (ms_pool (step_starting created i s)) = map ai_threads (ms_pool s)"
proof -
  let ?s' = "step_starting created i s"
  have "pc_inv (ms_pc ?s') ?s' \<and> map ai_threads (ms_pool ?s') = map ai_threads (ms_pool s)"
  proof (cases "i < length (ms_pool s)")
    case True
    then have idle: "ai_workers (ms_pool s ! i) = 0"
      using assms by (metis pc_inv.simps(1) Cons_nth_drop_Suc list.set_intros(1))
    show ?thesis
    proof (cases "start_instance created (ms_config s) (ms_pool s ! i)")
      case None
      then show ?thesis
        using True by (simp add: step_starting_def)
    next
      case (Some inst)
      note st = start_instance_started [OF Some idle]
      have s': "?s' = s\<lparr>ms_pc := Starting (Suc i), ms_pool := (ms_pool s)[i := inst]\<rparr>"
        using True Some by (simp add: step_starting_def)
      have "started ?s' v" if "started s v" for v
        using that by (simp add: s' started_def signalled_def)
      moreover have "started ?s' inst"
        using st by (simp add: s' started_def)
      moreover have "set (drop (Suc i) (ms_pool s)) \<subseteq> set (drop i (ms_pool s))"
        by (simp add: set_drop_subset_set_drop)
      ultimately have "pc_inv (ms_pc ?s') ?s'"
        using assms True by (auto simp: s' take_Suc_conv_app_nth)
      moreover have "(map ai_threads (ms_pool s))[i := ai_threads inst] = map ai_threads (ms_pool s)"
        using st True by (simp add: list_update_same_conv)
      ultimately show ?thesis
        by (simp add: s' map_update)
    qed
  next
    case False
    then show ?thesis
      using assms by (simp add: step_starting_def started_def signalled_def)
  qed
  then show "pc_inv (ms_pc ?s') ?s'" and "map ai_threads (ms_pool ?s') = map ai_threads (ms_pool s)"
    by simp_all
qed

lemma step_joining_inv:
  assumes "pc_inv (Joining i) s" and "ms_pc s = Joining i"
  shows "pc_inv (ms_pc (step_joining i s)) (step_joining i s)"
    and "map ai_threads (ms_pool (step_joining i s)) = map ai_threads (ms_pool s)"
proof -
  let ?s' = "step_joining i s"
  have "pc_inv (ms_pc ?s') ?s' \<and> map ai_threads (ms_pool ?s') = map ai_threads (ms_pool s)"
  proof (cases "i < length (ms_pool s)")
    case True
    then have st: "started s (ms_pool s ! i)"
      using assms by (metis pc_inv.simps(2) Cons_nth_drop_Suc list.set_intros(1))
    show ?thesis
    proof (cases "join_instance (ms_pool s ! i)")
      case None
      then have "?s' = s"
        using True by (simp add: step_joining_def)
      then show ?thesis
        using assms by simp
    next
      case (Some inst)
      have s': "?s' = s\<lparr>ms_pc := Joining (Suc i), ms_pool := (ms_pool s)[i := inst]\<rparr>"
        using True Some by (simp add: step_joining_def)
      have inst: "inst = (ms_pool s ! i)\<lparr>ai_workers := 0\<rparr>" "ai_workers (ms_pool s ! i) = 0 \<or> ai_stopped (ms_pool s ! i)"
        using Some by (auto simp: join_instance_def split: if_split_asm)
      have "started ?s' v \<longleftrightarrow> started s v" "joined ?s' v \<longleftrightarrow> joined s v" for v
        by (simp_all add: s' started_def joined_def signalled_def)
      moreover have "joined s inst"
        using st inst by (auto simp: joined_def started_def)
      moreover have "set (drop (Suc i) (ms_pool s)) \<subseteq> set (drop i (ms_pool s))"
        by (simp add: set_drop_subset_set_drop)
      ultimately have "pc_inv (ms_pc ?s') ?s'"
        using assms True by (auto simp: s' take_Suc_conv_app_nth)
      moreover have "(map ai_threads (ms_pool s))[i := ai_threads inst] = map ai_threads (ms_pool s)"
        using inst True by (simp add: list_update_same_conv)
      ultimately show ?thesis
        by (simp add: s' map_update)
    qed
  next
    case False
    then show ?thesis
      using assms by (simp add: step_joining_def joined_def signalled_def)
  qed
  then show "pc_inv (ms_pc ?s') ?s'" and "map ai_threads (ms_pool ?s') = map ai_threads (ms_pool s)"
    by simp_all
qed

lemma step_config [simp]:
  "ms_config (step_starting created i s) = ms_config s" "ms_config (step_joining i s) = ms_config s"
  by (simp_all add: step_starting_def step_joining_def split: option.split)

lemma main_step_inv:
  assumes "main_inv papi s"
  shows "main_inv papi (main_step papi read created (ms_pc s) s)"
proof (cases "ms_pc s")
  case (Starting i)
  then show ?thesis
    using assms step_starting_inv [of i s created] by (simp add: main_inv_def)
next
  case (Joining i)
  then show ?thesis
    using assms step_joining_inv [of i s] by (simp add: main_inv_def)
next
  case TestStop
  then show ?thesis
    using assms by (auto simp: main_inv_def joined_def idle_def signalled_def)
next
  case TestReload
  then show ?thesis
    using assms by (auto simp: main_inv_def idle_def)
next
  case Reloading
  obtain ok cs where load: "load (papi\<lparr>pt_read_info := read\<rparr>) [] (ms_config s) = (ok, cs)"
    by (cases "load (papi\<lparr>pt_read_info := read\<rparr>) [] (ms_config s)")
  then have "settings_ok papi cs"
    using assms settings_ok_load [of papi "ms_config s" read "[]"] by (simp add: main_inv_def)
  then show ?thesis
    using assms Reloading load by (simp add: main_inv_def idle_def)
next
  case ClearReload
  then show ?thesis
    using assms by (auto simp: main_inv_def idle_def)
qed (use assms in simp_all)

lemma signal_main_inv:
  assumes "main_inv papi s" and "ms_should_stop s \<longrightarrow> ms_should_stop s'" and "ms_should_reload s \<longrightarrow> ms_should_reload s'"
    and "signalled s'" and "ms_pool s' = pool_stop (ms_pool s)" and "ms_config s' = ms_config s" and "ms_pc s' = ms_pc s"
  shows "main_inv papi s'"
proof -
  have "pc_inv (ms_pc s) s'"
    using assms(1) by (intro signal_inv [OF _ assms(2-6)]) (simp only: main_inv_def)
  moreover have "map ai_threads (ms_pool s') = map ai_threads (ms_pool s)"
    by (simp add: assms(5) pool_stop_def comp_def)
  ultimately show ?thesis
    using assms(1,6,7) by (simp only: main_inv_def)
qed

lemma main_handle_inv:
  assumes "main_inv papi s"
  shows "main_inv papi (main_handle papi ev s)"
proof (cases ev)
  case (Step read created)
  then show ?thesis
    using assms by (simp only: main_handle.simps main_step_inv)
next
  case SigStop
  have "main_inv papi (sig_stop s)"
    by (rule signal_main_inv [OF assms]) (simp_all add: sig_stop_def signalled_def)
  then show ?thesis
    by (simp only: SigStop main_handle.simps)
next
  case SigReload
  have "main_inv papi (sig_reload s)"
    by (rule signal_main_inv [OF assms]) (simp_all add: sig_reload_def signalled_def)
  then show ?thesis
    by (simp only: SigReload main_handle.simps)
qed

lemma main_run_inv: "main_inv papi s \<Longrightarrow> main_inv papi (main_run papi evs s)"
  unfolding main_run_def by (induction evs arbitrary: s) (simp_all add: main_handle_inv)

lemma front_main_inv:
  assumes "front_main lib closed ctx safe0 (static_init (lib_ptree lib) t) = Running p"
  shows "main_inv (lib_ptree lib) (fp_main p)"
proof -
  let ?papi = "lib_ptree lib"
  obtain cs where load: "load ?papi [] (static_init ?papi t) = (True, cs)"
    and config: "ms_config (fp_main p) = construct 9 (IntListener \<lparr>ci_path = ''cluster.threads'', ci_default = 2,
           ci_value = get_int ?papi cs ''cluster.threads'' 2\<rparr>)
         (construct 8 (IntListener \<lparr>ci_path = ''front.threads'', ci_default = 2,
           ci_value = get_int ?papi cs ''front.threads'' 2\<rparr>) cs)"
    and main: "fp_main p = \<lparr>ms_pc = Starting 0, ms_should_stop = False, ms_should_reload = False,
           ms_pool = [AsioInstance ''front'' 8, AsioInstance ''cluster'' 9], ms_config = ms_config (fp_main p)\<rparr>"
    using assms by (rule front_main_running)
  have "globals_set ?papi cs"
    using globals_set_load [OF globals_set_static, of ?papi "pt_read_info ?papi" "[]" t] load by simp
  then have "settings_ok ?papi (ms_config (fp_main p))"
    unfolding config by (simp add: settings_ok_def threads_set_def globals_set_construct) (simp add: int_setting_def map_of_construct)
  moreover have "main_inv ?papi \<lparr>ms_pc = Starting 0, ms_should_stop = False, ms_should_reload = False,
      ms_pool = [AsioInstance ''front'' 8, AsioInstance ''cluster'' 9], ms_config = cs'\<rparr>" if "settings_ok ?papi cs'" for cs'
    using that by (simp add: main_inv_def AsioInstance_def)
  ultimately show ?thesis
    by (metis main)
qed

text \<open>Flags are set by signals only.\<close>

lemma step_flags [simp]:
  "ms_should_stop (step_starting created i s) = ms_should_stop s" "ms_should_stop (step_joining i s) = ms_should_stop s"
  "ms_should_reload (step_starting created i s) = ms_should_reload s" "ms_should_reload (step_joining i s) = ms_should_reload s"
  by (simp_all add: step_starting_def step_joining_def split: option.split)

lemma main_step_stop: "ms_should_stop (main_step papi read created pc s) = ms_should_stop s"
  by (cases pc) (simp_all add: Let_def case_prod_unfold)

lemma main_step_reload: "ms_should_reload (main_step papi read created pc s) \<Longrightarrow> ms_should_reload s"
  by (cases pc) (simp_all add: Let_def case_prod_unfold)

lemma main_run_stop: "ms_should_stop (main_run papi evs s) \<Longrightarrow> ms_should_stop s \<or> SigStop \<in> set evs"
proof (induction evs arbitrary: s)
  case (Cons ev evs)
  then show ?case
    by (cases ev) (fastforce simp: main_run_def main_step_stop sig_stop_def sig_reload_def)+
qed (simp add: main_run_def)

lemma main_run_reload: "ms_should_reload (main_run papi evs s) \<Longrightarrow> ms_should_reload s \<or> SigReload \<in> set evs"
proof (induction evs arbitrary: s)
  case (Cons ev evs)
  then show ?case
    by (cases ev) (fastforce simp: main_run_def sig_stop_def sig_reload_def dest: main_step_reload)+
qed (simp add: main_run_def)

text \<open>An example: every list of groups has one child, files can be read and have no settings.\<close>

definition example_front :: "(bool, bool \<times> error_code, string, nat) library" where
  "example_front = example_library\<lparr>lib_ptree := (lib_ptree example_library)
     \<lparr>pt_children := (\<lambda>t p. [''a'']), pt_read_info := (\<lambda>f. Some False)\<rparr>\<rparr>"

definition example_main :: "bool main_state" where
  "example_main = \<lparr>ms_pc = Starting 0, ms_should_stop = False, ms_should_reload = False,
     ms_pool = [AsioInstance ''front'' 8, AsioInstance ''cluster'' 9],
     ms_config = construct 9 (IntListener \<lparr>ci_path = ''cluster.threads'', ci_default = 2, ci_value = 2\<rparr>)
       (construct 8 (IntListener \<lparr>ci_path = ''front.threads'', ci_default = 2, ci_value = 2\<rparr>)
         (snd (load (lib_ptree example_front) [] (static_init (lib_ptree example_front) True))))\<rparr>"

lemmas example_front_simps = example_simps init_ssl_context_def throwing_def set_cipher_list_def group_get_string_value_def
  group_get_childs_at_def get_childs_def

lemma example_front_runs:
  "\<exists>p. front_main example_front (False, NoError) 0 False (static_init (lib_ptree example_front) True) = Running p
     \<and> fp_main p = example_main"
proof -
  let ?papi = "lib_ptree example_front"
  obtain cs where cs: "load ?papi [] (static_init ?papi True) = (True, cs)"
    by (simp add: load_def example_front_def)
  have "\<exists>p. front_main example_front (False, NoError) 0 False (static_init ?papi True) = Running p"
    using cs
    by (simp add: front_main_def cluster_init_def create_asio_def cluster_listen_def cluster_connect_def ws_listen_def
        ca_run_def ca_open_def wa_run_def wa_open_def ClusterAcceptor_def WsAcceptor_def ca_listen_eq wa_listen_def
        wa_accept_next_def ca_accept_next_def example_front_def example_front_simps Let_def)
  then obtain p where p: "front_main example_front (False, NoError) 0 False (static_init ?papi True) = Running p"
    by blast
  moreover have "fp_main p = example_main"
    by (rule front_main_running [OF p])
      (use cs in \<open>simp add: example_main_def get_int_def example_front_def example_library_def\<close>)
  ultimately show ?thesis
    by blast
qed

section \<open>A stop signal\<close>

definition is_step :: "'t main_event \<Rightarrow> bool" where
  "is_step ev \<longleftrightarrow> ev \<noteq> SigStop \<and> ev \<noteq> SigReload"

text \<open>A main thread that waits for its workers after a stop signal, and the steps it has left.\<close>

definition stopping :: "'t main_state \<Rightarrow> bool" where
  "stopping s \<longleftrightarrow> ms_should_stop s \<and> (\<forall>inst \<in> set (ms_pool s). ai_stopped inst)
     \<and> ((\<exists>i. ms_pc s = Joining i) \<or> ms_pc s = TestStop \<or> ms_pc s = Exited StopSignal)"

fun steps_left :: "main_pc \<Rightarrow> nat \<Rightarrow> nat" where
  "steps_left (Joining i) n = (n - i) + 2"
| "steps_left TestStop n = 1"
| "steps_left pc n = 0"

lemma stopping_step:
  assumes "stopping s"
  shows "stopping (main_step papi read created (ms_pc s) s)
    \<and> length (ms_pool (main_step papi read created (ms_pc s) s)) = length (ms_pool s)
    \<and> steps_left (ms_pc (main_step papi read created (ms_pc s) s)) (length (ms_pool s))
        = steps_left (ms_pc s) (length (ms_pool s)) - 1"
proof -
  consider (joining) i where "ms_pc s = Joining i" | (test) "ms_pc s = TestStop" | (exited) "ms_pc s = Exited StopSignal"
    using assms by (auto simp: stopping_def)
  then show ?thesis
  proof cases
    case joining
    show ?thesis
    proof (cases "i < length (ms_pool s)")
      case True
      then have "ai_stopped (ms_pool s ! i)"
        using assms by (simp add: stopping_def)
      then have "join_instance (ms_pool s ! i) = Some ((ms_pool s ! i)\<lparr>ai_workers := 0\<rparr>)"
        by (simp add: join_instance_def)
      then show ?thesis
        using assms joining True set_update_subset_insert [of "ms_pool s" i "(ms_pool s ! i)\<lparr>ai_workers := 0\<rparr>"]
        by (fastforce simp: step_joining_def stopping_def)
    next
      case False
      then show ?thesis
        using assms joining by (simp add: step_joining_def stopping_def)
    qed
  qed (use assms in \<open>auto simp: stopping_def\<close>)
qed

lemma stopping_ends:
  "stopping s \<Longrightarrow> steps_left (ms_pc s) (length (ms_pool s)) \<le> length (filter is_step evs)
     \<Longrightarrow> ms_pc (main_run papi evs s) = Exited StopSignal"
proof (induction evs arbitrary: s)
  case Nil
  then show ?case
    by (auto simp: main_run_def stopping_def)
next
  case (Cons ev evs)
  show ?case
  proof (cases ev)
    case (Step read created)
    then show ?thesis
      using Cons.IH [of "main_step papi read created (ms_pc s) s"] stopping_step [OF Cons.prems(1), of papi read created] Cons.prems(2)
      by (simp add: main_run_def is_step_def)
  next
    case SigStop
    have "stopping (sig_stop s)" "length (ms_pool (sig_stop s)) = length (ms_pool s)" "ms_pc (sig_stop s) = ms_pc s"
      using Cons.prems(1) by (auto simp: stopping_def sig_stop_def pool_stop_def)
    then show ?thesis
      using Cons.IH [of "sig_stop s"] Cons.prems(2) SigStop by (simp add: main_run_def is_step_def)
  next
    case SigReload
    have "stopping (sig_reload s)" "length (ms_pool (sig_reload s)) = length (ms_pool s)" "ms_pc (sig_reload s) = ms_pc s"
      using Cons.prems(1) by (auto simp: stopping_def sig_reload_def pool_stop_def)
    then show ?thesis
      using Cons.IH [of "sig_reload s"] Cons.prems(2) SigReload by (simp add: main_run_def is_step_def)
  qed
qed

text \<open>Steps alone do not end the wait for a worker of a context that is not stopped.\<close>

lemma joining_blocked:
  assumes "ms_pc s = Joining i" and "i < length (ms_pool s)" and "join_instance (ms_pool s ! i) = None"
    and "list_all is_step evs"
  shows "main_run papi evs s = s"
proof -
  have "main_handle papi ev s = s" if "is_step ev" for ev
    using that assms(1-3) by (cases ev) (simp_all add: is_step_def step_joining_def)
  then show ?thesis
    using assms(4) by (induction evs) (simp_all add: main_run_def)
qed

section \<open>Properties\<close>

text \<open>
  C13. Why the front server ends. However signals interleave with the steps of the main thread, with
  reloads of a changed configuration and with failures to create threads: the program returns zero
  only after a stop signal, ends with a failed reload only after a reload signal, and reports that it
  stopped without a signal only if every thread count is zero.
\<close>

theorem main_exit_reasons:
  assumes "front_main lib closed ctx safe0 (static_init (lib_ptree lib) t) = Running p"
    and "ms_pc (main_run (lib_ptree lib) evs (fp_main p)) = Exited r"
  shows "(exit_code r = 0 \<longrightarrow> SigStop \<in> set evs) \<and> (r = ReloadFailed \<longrightarrow> SigReload \<in> set evs)
    \<and> (r = StoppedWithoutSignal \<longrightarrow>
        size_t_of_int (get_int (lib_ptree lib) (ms_config (main_run (lib_ptree lib) evs (fp_main p))) ''front.threads'' 2) = 0
        \<and> size_t_of_int (get_int (lib_ptree lib) (ms_config (main_run (lib_ptree lib) evs (fp_main p))) ''cluster.threads'' 2) = 0)"
proof -
  let ?papi = "lib_ptree lib"
  let ?s = "main_run ?papi evs (fp_main p)"
  have inv: "main_inv ?papi ?s"
    by (rule main_run_inv [OF front_main_inv [OF assms(1)]])
  have "\<not> ms_should_stop (fp_main p) \<and> \<not> ms_should_reload (fp_main p)"
    by (rule front_main_running [OF assms(1)]) (metis main_state.select_convs(2,3))
  then have "exit_code r = 0 \<longrightarrow> SigStop \<in> set evs" "r = ReloadFailed \<longrightarrow> SigReload \<in> set evs"
    using inv assms(2) main_run_stop [of ?papi evs "fp_main p"] main_run_reload [of ?papi evs "fp_main p"]
    by (cases r; simp add: main_inv_def)+
  moreover have "\<exists>a b. ms_pool ?s = [a, b] \<and> ai_threads a = 8 \<and> ai_threads b = 9"
    using inv by (auto simp: main_inv_def map_eq_Cons_conv)
  ultimately show ?thesis
    using inv assms(2) by (auto simp: main_inv_def settings_ok_def threads_set_def thread_count_def dest!: setting_value)
qed

text \<open>A run of the example program that a stop signal ends.\<close>

definition example_step :: "bool main_event" where
  "example_step = Step (\<lambda>f. Some True) (\<lambda>k. True)"

lemmas example_main_simps = main_run_def example_main_def example_step_def step_starting_def step_joining_def start_instance_def
  start_workers_eq join_instance_def AsioInstance_def int_value_at_construct sig_stop_def sig_reload_def pool_stop_def

theorem main_exit_reasons_witness:
  "\<exists>evs. ms_pc (main_run (lib_ptree example_front) evs example_main) = Exited StopSignal \<and> SigStop \<in> set evs"
proof -
  let ?papi = "lib_ptree example_front"
  let ?evs = "replicate 3 example_step @ [SigStop] @ replicate 4 example_step"
  obtain p where p: "front_main example_front (False, NoError) 0 False (static_init ?papi True) = Running p"
      "fp_main p = example_main"
    using example_front_runs by blast
  have "ms_pc (main_run ?papi ?evs example_main) = Exited StopSignal"
    by (simp add: example_main_simps numeral_nat)
  then show ?thesis
    using main_exit_reasons [OF p(1), of ?evs StopSignal] p(2) by auto
qed

text \<open>
  C14. A stop signal ends the server. Once the main thread waits for its workers, a stop signal leads
  to the end of the program with the code for a stop, within one step for every context and two more
  of the main thread, whatever further signals arrive.
\<close>

theorem stop_signal_ends:
  assumes "ms_pc s = Joining i" and "length (ms_pool s) + 2 \<le> length (filter is_step evs)"
  shows "ms_pc (main_run papi evs (sig_stop s)) = Exited StopSignal"
proof (rule stopping_ends)
  show "stopping (sig_stop s)"
    using assms(1) by (auto simp: stopping_def sig_stop_def pool_stop_def)
  show "steps_left (ms_pc (sig_stop s)) (length (ms_pool (sig_stop s))) \<le> length (filter is_step evs)"
    using assms by (simp add: sig_stop_def pool_stop_def)
qed

theorem stop_signal_ends_witness:
  "ms_pc (main_run (lib_ptree example_front) (replicate 4 example_step)
     (sig_stop (main_run (lib_ptree example_front) (replicate 3 example_step) example_main))) = Exited StopSignal"
  by (rule stop_signal_ends [where i = 0]) (simp_all add: example_main_simps is_step_def numeral_nat)

text \<open>
  C34. A stop signal can be lost. When it arrives after the test of \<open>should_stop\<close>, for instance while
  the configuration is loaded again, starting the contexts undoes its effect: the main thread waits
  for its workers, \<open>should_stop\<close> is set, and without a further signal the program never ends.
\<close>

theorem stop_signal_lost:
  assumes "ms_pc s = ClearReload" and "ms_pool s = [a, b]" and "ai_workers a = 0" and "ai_workers b = 0"
    and "thread_count (ms_config s) a \<noteq> 0" and "int_value_at (ms_config s) (ai_threads b) \<noteq> None"
  shows "\<exists>evs. list_all is_step evs \<and> (\<forall>evs'. list_all is_step evs' \<longrightarrow>
      ms_pc (main_run papi (evs @ evs') (sig_stop s)) = Joining 0
      \<and> ms_should_stop (main_run papi (evs @ evs') (sig_stop s)))"
proof -
  let ?step = "Step (\<lambda>f. None) (\<lambda>k. True)"
  let ?s = "main_run papi [?step, ?step, ?step, ?step] (sig_stop s)"
  obtain m n where mn: "int_value_at (ms_config s) (ai_threads a) = Some m" "size_t_of_int m \<noteq> 0"
      "int_value_at (ms_config s) (ai_threads b) = Some n"
    using assms(5,6) by (auto simp: thread_count_def split: option.split_asm)
  then have s: "ms_pc ?s = Joining 0" "ms_should_stop ?s" "length (ms_pool ?s) = 2"
      "ms_pool ?s ! 0 = a\<lparr>ai_stopped := False, ai_workers := size_t_of_int m\<rparr>"
    using assms(1-4) by (simp_all add: main_run_def sig_stop_def pool_stop_def step_starting_def start_instance_def start_workers_eq)
  have "main_run papi evs' ?s = ?s" if "list_all is_step evs'" for evs'
    using s mn(2) that by (intro joining_blocked [of _ 0]) (simp_all add: join_instance_def)
  then show ?thesis
    using s by (intro exI [of _ "[?step, ?step, ?step, ?step]"]) (simp add: main_run_def is_step_def)
qed

theorem stop_signal_lost_witness:
  "\<exists>evs. SigStop \<in> set evs \<and> (\<forall>evs'. list_all is_step evs' \<longrightarrow>
     ms_pc (main_run (lib_ptree example_front) (evs @ evs') example_main) = Joining 0
     \<and> ms_should_stop (main_run (lib_ptree example_front) (evs @ evs') example_main))"
proof -
  let ?papi = "lib_ptree example_front"
  let ?evs = "replicate 3 example_step @ [SigReload] @ replicate 6 example_step"
  obtain p where p: "front_main example_front (False, NoError) 0 False (static_init ?papi True) = Running p"
      "fp_main p = example_main"
    using example_front_runs by blast
  define s where "s = main_run ?papi ?evs example_main"
  have pc: "ms_pc s = ClearReload"
    unfolding s_def by (simp add: example_main_simps numeral_nat load_def example_front_def example_library_def)
  have inv: "main_inv ?papi s"
    unfolding s_def using main_run_inv [OF front_main_inv [OF p(1)]] p(2) by simp
  then obtain a b where ab: "ms_pool s = [a, b]" "ai_threads a = 8" "ai_threads b = 9" "ai_workers a = 0" "ai_workers b = 0"
    by (auto simp: main_inv_def pc idle_def map_eq_Cons_conv)
  have "thread_count (ms_config s) a \<noteq> 0" "int_value_at (ms_config s) (ai_threads b) \<noteq> None"
    using inv ab(2,3)
    by (auto simp: main_inv_def settings_ok_def threads_set_def thread_count_def example_front_def example_library_def
        get_int_def size_t_of_int_nonneg dest!: setting_value)
  from stop_signal_lost [OF pc ab(1,4,5) this] obtain evs where evs: "list_all is_step evs"
      "\<forall>evs'. list_all is_step evs' \<longrightarrow> ms_pc (main_run ?papi (evs @ evs') (sig_stop s)) = Joining 0
        \<and> ms_should_stop (main_run ?papi (evs @ evs') (sig_stop s))"
    by blast
  have "main_run ?papi ((?evs @ [SigStop] @ evs) @ evs') example_main = main_run ?papi (evs @ evs') (sig_stop s)" for evs'
    by (simp add: main_run_def s_def)
  then show ?thesis
    using evs(2) by (intro exI [of _ "?evs @ [SigStop] @ evs"]) auto
qed

text \<open>
  C15. The settings follow the configuration. At every moment of a run of the front server the eight
  global settings have the values of the configuration loaded last, or their defaults, and whenever
  the main thread starts to wait for its workers each context has as many of them as the
  configuration loaded last says: a reload takes effect on both.
\<close>

theorem front_settings_current:
  assumes "front_main lib closed ctx safe0 (static_init (lib_ptree lib) t) = Running p"
    and "s = main_run (lib_ptree lib) evs (fp_main p)"
  shows "stored_globals (ms_config s) = Some (current_globals (lib_ptree lib) (ms_config s))
    \<and> (ms_pc s = Joining 0 \<longrightarrow> map ai_workers (ms_pool s)
        = [size_t_of_int (get_int (lib_ptree lib) (ms_config s) ''front.threads'' 2),
           size_t_of_int (get_int (lib_ptree lib) (ms_config s) ''cluster.threads'' 2)])"
proof -
  have inv: "main_inv (lib_ptree lib) s"
    unfolding assms(2) by (rule main_run_inv [OF front_main_inv [OF assms(1)]])
  then obtain a b where ab: "ms_pool s = [a, b]" "ai_threads a = 8" "ai_threads b = 9"
    by (auto simp: main_inv_def map_eq_Cons_conv)
  have "ms_pc s = Joining 0 \<longrightarrow> ai_workers a = thread_count (ms_config s) a \<and> ai_workers b = thread_count (ms_config s) b"
    using inv ab(1) by (auto simp: main_inv_def started_def)
  then show ?thesis
    using inv ab
    by (auto simp: main_inv_def settings_ok_def threads_set_def thread_count_def globals_set_stored dest!: setting_value)
qed

theorem front_settings_current_witness:
  "ms_pc (main_run (lib_ptree example_front) (replicate 3 example_step) example_main) = Joining 0
   \<and> map ai_workers (ms_pool (main_run (lib_ptree example_front) (replicate 3 example_step) example_main)) = [2, 2]"
proof -
  let ?papi = "lib_ptree example_front"
  obtain p where p: "front_main example_front (False, NoError) 0 False (static_init ?papi True) = Running p"
      "fp_main p = example_main"
    using example_front_runs by blast
  have "ms_pc (main_run ?papi (replicate 3 example_step) example_main) = Joining 0"
    by (simp add: example_main_simps numeral_nat)
  moreover have "get_int ?papi cs path 2 = 2" for cs path
    by (simp add: get_int_def example_front_def example_library_def)
  ultimately show ?thesis
    using front_settings_current [OF p(1), of "main_run ?papi (replicate 3 example_step) example_main" "replicate 3 example_step"] p(2)
    by (simp add: size_t_of_int_nonneg)
qed

text \<open>
  C29. What the front server starts. Without a readable configuration it ends with code one. With one,
  an address that cannot be parsed, in any child of \<open>cluster.listen\<close>, \<open>cluster.connect\<close> or
  \<open>front.ws.listen\<close>, ends it with an exception that nothing catches; when all of them parse and the
  hard limit of connections is positive, it reaches its loop (with a limit that is not positive, an
  acceptor that cannot be closed would throw as well). When it reaches its loop, there are the
  two contexts, one cluster acceptor for every child of \<open>cluster.listen\<close>, one watcher for every
  child of \<open>cluster.connect\<close> and one websocket acceptor for every child of \<open>front.ws.listen\<close>, in the
  order of the configuration. Every acceptor has exactly one operation outstanding; every watcher
  has one, the attempt to connect to the \<open>ip\<close> and the \<open>port\<close> of its child; and the acceptors and the
  watchers of the cluster use the \<open>safe_link\<close> of their child.
\<close>

theorem front_startup:
  assumes "front_main lib closed ctx safe0 (static_init (lib_ptree lib) t) = outcome"
    and "load (lib_ptree lib) [] (static_init (lib_ptree lib) t) = (ok, cs)"
  shows "(\<not> ok \<longrightarrow> outcome = Ended ConfigUnreadable \<and> exit_code ConfigUnreadable = 1)
    \<and> (ok \<and> \<not> addresses_ok lib cs \<longrightarrow> (\<exists>ec. outcome = Uncaught ec))
    \<and> (ok \<and> addresses_ok lib cs \<and> 0 < get_int (lib_ptree lib) cs ''front.connection_limit_hard'' 1050
        \<longrightarrow> (\<exists>p. outcome = Running p))
    \<and> (\<forall>p. outcome = Running p \<longrightarrow>
      map ai_name (ms_pool (fp_main p)) = [''front'', ''cluster'']
      \<and> map ca_config (cl_acceptors (fp_cluster p)) = get_childs (lib_ptree lib) cs ''cluster.listen''
      \<and> list_all (\<lambda>w. ca_safe_link w = config_bool lib cs (ca_config w) ''safe_link'' False \<and> length (ca_ops w) = 1)
          (cl_acceptors (fp_cluster p))
      \<and> list_all2 (connecting lib cs) (get_childs (lib_ptree lib) cs ''cluster.connect'') (cl_watchers (fp_cluster p))
      \<and> map wa_config (fp_acceptors p) = get_childs (lib_ptree lib) cs ''front.ws.listen''
      \<and> list_all (\<lambda>w. length (wa_ops w) = 1) (fp_acceptors p))"
proof -
  have "outcome = Ended ConfigUnreadable" if "\<not> ok"
    using that assms by (simp add: front_main_def)
  moreover have "\<exists>p. outcome = Running p"
    if "ok" "addresses_ok lib cs" "0 < get_int (lib_ptree lib) cs ''front.connection_limit_hard'' 1050"
    using front_main_reaches [OF _ that(2,3)] assms that(1) by auto
  moreover have "\<exists>ec. outcome = Uncaught ec" if "ok" "\<not> addresses_ok lib cs"
  proof (cases outcome)
    case (Ended r)
    then show ?thesis
      using front_main_not_ended [of lib t cs closed ctx safe0 r] assms that(1) by simp
  next
    case (Running p)
    then show ?thesis
      using front_main_started(1) [of lib closed ctx safe0 t p ok cs] assms that(2) by simp
  qed simp
  ultimately show ?thesis
    using front_main_started(2-) [of lib closed ctx safe0 t _ ok cs] assms by simp
qed

theorem front_startup_witness:
  "(\<exists>p. front_main example_front (False, NoError) 0 False (static_init (lib_ptree example_front) True) = Running p
     \<and> map wa_config (fp_acceptors p) = [\<lparr>cg_path = ''front.ws.listen.a''\<rparr>]
     \<and> map cw_endpoint (cl_watchers (fp_cluster p)) = [([], 17001)])
   \<and> (\<exists>ec. front_main (example_front\<lparr>lib_tcp := example_api\<lparr>ta_make_address := (\<lambda>addr. Inl (OtherError 22))\<rparr>\<rparr>)
     (False, NoError) 0 False (static_init (lib_ptree example_front) True) = Uncaught ec)"
proof -
  let ?papi = "lib_ptree example_front"
  let ?lib = "example_front\<lparr>lib_tcp := example_api\<lparr>ta_make_address := (\<lambda>addr. Inl (OtherError 22))\<rparr>\<rparr>"
  obtain p where p: "front_main example_front (False, NoError) 0 False (static_init ?papi True) = Running p"
    using example_front_runs by blast
  obtain cs where cs: "load ?papi [] (static_init ?papi True) = (True, cs)"
    by (simp add: load_def example_front_def)
  have childs: "get_childs ?papi cs path = [\<lparr>cg_path = path @ ''.a''\<rparr>]" for path
    by (simp add: get_childs_def example_front_def)
  note started = front_startup [OF p cs, THEN conjunct2, THEN conjunct2, THEN conjunct2, THEN spec, THEN mp, OF refl]
  obtain w where w: "cl_watchers (fp_cluster p) = [w]" "connecting example_front cs \<lparr>cg_path = ''cluster.connect.a''\<rparr> w"
    using started [THEN conjunct2, THEN conjunct2, THEN conjunct2, THEN conjunct1]
    unfolding childs by (auto simp: list_all2_Cons1)
  have "map cw_endpoint (cl_watchers (fp_cluster p)) = [([], 17001)]"
    using w by (simp add: connecting_def example_front_def example_simps)
  moreover have "map wa_config (fp_acceptors p) = [\<lparr>cg_path = ''front.ws.listen.a''\<rparr>]"
    using started [THEN conjunct2, THEN conjunct2, THEN conjunct2, THEN conjunct2, THEN conjunct1] unfolding childs by simp
  moreover have "load (lib_ptree ?lib) [] (static_init (lib_ptree ?lib) True) = (True, cs)"
    using cs by simp
  then have "\<exists>ec. front_main ?lib (False, NoError) 0 False (static_init (lib_ptree ?lib) True) = Uncaught ec"
    by (rule front_startup [OF refl, THEN conjunct2, THEN conjunct1, THEN mp])
      (simp add: addresses_ok_def parses_def get_childs_def example_front_def)
  ultimately show ?thesis
    using p by simp
qed

end
