(* ===== verification/WsSafety.thy ===== *)
theory WsSafety
  imports WsConnection
begin

text \<open>
  The client connection as a state machine. \<open>ws_step\<close> lets the owner send a message or completes any
  outstanding operation with any outcome the libraries allow: a timer wait that was not cancelled
  ends only because the timer expired. \<open>ws_inv\<close> is the invariant of started connections: one
  operation at most in the chain handshake, request, upgrade, read, read, ...; one message write at
  most, whose memory keeps its contents; a well-formed queue, empty once the connection closes; and
  a timeout armed as long as the connection is neither dropped nor shutting down.
\<close>

section \<open>Steps\<close>

record ws_outcome =
  wo_ec :: error_code
  wo_data :: "byte list"
  wo_flag :: bool
  wo_active :: int

definition ws_complete :: "ws_op \<Rightarrow> ws_connection \<Rightarrow> ws_connection" where
  "ws_complete op c = c\<lparr>ws_ops := remove1 op (ws_ops c)\<rparr>"

text \<open>Which handler completes which operation.\<close>

fun ws_handler ::
    "front_globals \<Rightarrow> time \<Rightarrow> ws_op \<Rightarrow> ws_outcome \<Rightarrow> ws_connection \<Rightarrow> crash + ws_connection" where
  "ws_handler g now WsSslHandshake out c = Inr (ws_on_ssl_handshake (wo_ec out) c)"
| "ws_handler g now WsReadRequest out c =
     Inr (ws_on_read_request g (wo_active out) (wo_ec out) (wo_flag out) (wo_data out) c)"
| "ws_handler g now WsAccept out c = Inr (ws_on_ws_handshake g now (wo_ec out) c)"
| "ws_handler g now WsRead out c = Inr (ws_on_read g now (wo_ec out) (wo_flag out) (wo_data out) c)"
| "ws_handler g now (WsWrite d) out c = ws_on_write_message (wo_ec out) c"
| "ws_handler g now WsSslShutdown out c = Inr (ws_on_shutdown (wo_ec out) c)"
| "ws_handler g now (WsSendTask m) out c = ws_send_task m c"
| "ws_handler g now (WsTimerWait t armed) out c = Inr (ws_on_timeout (wo_ec out) c)"

fun ws_possible :: "ws_op \<Rightarrow> ws_outcome \<Rightarrow> bool" where
  "ws_possible (WsTimerWait t True) out = (wo_ec out = NoError)"
| "ws_possible op out = True"

inductive ws_step :: "front_globals \<Rightarrow> time \<Rightarrow> ws_connection \<Rightarrow> ws_connection \<Rightarrow> bool" for g now where
  owner_sends: "ws_step g now c (ws_send_message m c)"
| op_completes: "op \<in> set (ws_ops c) \<Longrightarrow> ws_possible op out \<Longrightarrow>
    ws_handler g now op out (ws_complete op c) = Inr c' \<Longrightarrow> ws_step g now c c'"

text \<open>A run of the connection, with the configuration and the time of each step.\<close>

inductive ws_steps :: "(front_globals \<times> time) list \<Rightarrow> ws_connection \<Rightarrow> ws_connection \<Rightarrow> bool" where
  no_step: "ws_steps [] c c"
| more_steps: "ws_step g now c c1 \<Longrightarrow> ws_steps ts c1 c' \<Longrightarrow> ws_steps ((g, now) # ts) c c'"

section \<open>Invariant\<close>

fun is_chain_op :: "ws_op \<Rightarrow> bool" where
  "is_chain_op WsSslHandshake = True"
| "is_chain_op WsReadRequest = True"
| "is_chain_op WsAccept = True"
| "is_chain_op WsRead = True"
| "is_chain_op _ = False"

fun is_write_op :: "ws_op \<Rightarrow> bool" where
  "is_write_op (WsWrite d) = True"
| "is_write_op _ = False"

definition ws_count :: "(ws_op \<Rightarrow> bool) \<Rightarrow> ws_connection \<Rightarrow> nat" where
  "ws_count P c = length (filter P (ws_ops c))"

definition ws_closed :: "ws_connection \<Rightarrow> bool" where
  "ws_closed c \<longleftrightarrow> ws_dropped c \<or> ws_shutting_down c"

definition ws_armed :: "ws_connection \<Rightarrow> bool" where
  "ws_armed c \<longleftrightarrow> WsTimerWait MainTimer True \<in> set (ws_ops c)"

text \<open>The bytes of a message that a write sends: its length is a 64-bit number.\<close>

definition ws_sent :: "message \<Rightarrow> byte list" where
  "ws_sent m = take (unat (of_nat (length (message_bytes m)) :: u64)) (message_bytes m)"

fun ws_op_ok :: "message \<Rightarrow> bool \<Rightarrow> ws_op \<Rightarrow> bool" where
  "ws_op_ok m closing (WsWrite d) = (\<not> is_empty m \<and> d = ws_sent m)"
| "ws_op_ok m closing (WsSendTask m') = (\<not> is_empty m')"
| "ws_op_ok m closing WsSslShutdown = closing"
| "ws_op_ok m closing _ = True"

text \<open>All of the invariant but the armed timeout, which handlers may suspend while they run.\<close>

definition ws_base :: "ws_connection \<Rightarrow> bool" where
  "ws_base c \<longleftrightarrow>
     mq_wf (ws_message_queue c)
     \<and> ws_count is_chain_op c \<le> 1
     \<and> ws_count is_write_op c \<le> (if ws_is_writing c then 1 else 0)
     \<and> list_all (ws_op_ok (ws_message_outbound c) (ws_shutting_down c)) (ws_ops c)
     \<and> (ws_socket_open c \<longleftrightarrow> \<not> ws_dropped c)
     \<and> (ws_closed c \<longrightarrow> mq_contents (ws_message_queue c) = [])"

definition ws_inv :: "ws_connection \<Rightarrow> bool" where
  "ws_inv c \<longleftrightarrow> ws_base c \<and> (ws_closed c \<or> ws_armed c)"

lemma ws_baseD:
  assumes "ws_base c"
  shows "mq_wf (ws_message_queue c)" "ws_count is_chain_op c \<le> 1"
    "ws_count is_write_op c \<le> (if ws_is_writing c then 1 else 0)"
    "list_all (ws_op_ok (ws_message_outbound c) (ws_shutting_down c)) (ws_ops c)"
    "ws_socket_open c \<longleftrightarrow> \<not> ws_dropped c"
    "ws_closed c \<Longrightarrow> mq_contents (ws_message_queue c) = []"
  using assms unfolding ws_base_def by blast+

section \<open>Operations on the list of outstanding operations\<close>

lemma ws_op_kinds_disarm [simp]:
  "is_chain_op (disarm t op) = is_chain_op op" "is_write_op (disarm t op) = is_write_op op"
  "ws_op_ok m b (disarm t op) = ws_op_ok m b op"
  by (cases op; simp)+

lemma ws_op_ok_mono: "ws_op_ok m b op \<Longrightarrow> ws_op_ok m True op"
  by (cases op) simp_all

lemma ws_count_cancel [simp]:
  "ws_count is_chain_op (ws_cancel t c) = ws_count is_chain_op c"
  "ws_count is_write_op (ws_cancel t c) = ws_count is_write_op c"
  by (simp_all add: ws_count_def ws_cancel_def filter_map comp_def)

lemma ws_count_start [simp]: "ws_count P (ws_start op c) = ws_count P c + (if P op then 1 else 0)"
  by (simp add: ws_count_def ws_start_def)

lemma ws_count_complete:
  "op \<in> set (ws_ops c) \<Longrightarrow> ws_count P (ws_complete op c) = ws_count P c - (if P op then 1 else 0)"
  by (simp add: ws_count_def ws_complete_def filter_remove1_same filter_remove1_other length_remove1)

lemma ws_base_cong:
  assumes "ws_base c" and "ws_ops c' = ws_ops c" and "ws_message_outbound c' = ws_message_outbound c"
    and "ws_is_writing c' = ws_is_writing c" and "ws_shutting_down c' = ws_shutting_down c"
    and "ws_socket_open c' = ws_socket_open c" and "ws_dropped c' = ws_dropped c"
    and "ws_message_queue c' = ws_message_queue c"
  shows "ws_base c'"
  using assms by (simp add: ws_base_def ws_count_def ws_closed_def)

lemma ws_flags_cong:
  "ws_ops c' = ws_ops c \<Longrightarrow> ws_armed c' = ws_armed c" "ws_ops c' = ws_ops c \<Longrightarrow> ws_count P c' = ws_count P c"
  "ws_dropped c' = ws_dropped c \<Longrightarrow> ws_shutting_down c' = ws_shutting_down c \<Longrightarrow> ws_closed c' = ws_closed c"
  by (simp_all add: ws_armed_def ws_count_def ws_closed_def)

lemma ws_cancel_fields [simp]:
  "ws_dropped (ws_cancel t c) = ws_dropped c" "ws_shutting_down (ws_cancel t c) = ws_shutting_down c"
  "ws_is_writing (ws_cancel t c) = ws_is_writing c" "ws_socket_open (ws_cancel t c) = ws_socket_open c"
  "ws_message_queue (ws_cancel t c) = ws_message_queue c"
  "ws_message_outbound (ws_cancel t c) = ws_message_outbound c"
  "ws_rate_start (ws_cancel t c) = ws_rate_start c" "ws_rate_messages (ws_cancel t c) = ws_rate_messages c"
  "ws_inbound (ws_cancel t c) = ws_inbound c" "ws_closed (ws_cancel t c) = ws_closed c"
  by (simp_all add: ws_cancel_def ws_closed_def)

lemma ws_start_fields [simp]:
  "ws_dropped (ws_start op c) = ws_dropped c" "ws_shutting_down (ws_start op c) = ws_shutting_down c"
  "ws_is_writing (ws_start op c) = ws_is_writing c" "ws_socket_open (ws_start op c) = ws_socket_open c"
  "ws_message_queue (ws_start op c) = ws_message_queue c"
  "ws_message_outbound (ws_start op c) = ws_message_outbound c"
  "ws_rate_start (ws_start op c) = ws_rate_start c" "ws_rate_messages (ws_start op c) = ws_rate_messages c"
  "ws_inbound (ws_start op c) = ws_inbound c" "ws_ops (ws_start op c) = ws_ops c @ [op]"
  "ws_closed (ws_start op c) = ws_closed c"
  by (simp_all add: ws_start_def ws_closed_def)

lemma ws_base_cancel: "ws_base c \<Longrightarrow> ws_base (ws_cancel t c)"
  by (simp add: ws_base_def) (simp add: ws_cancel_def list_all_iff)

lemma ws_base_start:
  assumes "ws_base c" and "is_chain_op op \<Longrightarrow> ws_count is_chain_op c = 0"
    and "is_write_op op \<Longrightarrow> ws_is_writing c \<and> ws_count is_write_op c = 0"
    and "ws_op_ok (ws_message_outbound c) (ws_shutting_down c) op"
  shows "ws_base (ws_start op c)"
  using assms by (auto simp: ws_base_def)

lemma ws_base_complete:
  assumes "ws_base c" and "op \<in> set (ws_ops c)"
  shows "ws_base (ws_complete op c)"
    and "is_chain_op op \<Longrightarrow> ws_count is_chain_op (ws_complete op c) = 0"
    and "is_write_op op \<Longrightarrow> ws_count is_write_op (ws_complete op c) = 0 \<and> ws_is_writing (ws_complete op c)"
    and "ws_op_ok (ws_message_outbound c) (ws_shutting_down c) op"
proof -
  have pos: "P op \<Longrightarrow> 0 < ws_count P c" for P
    using assms(2) by (auto simp: ws_count_def filter_empty_conv)
  have "list_all (ws_op_ok (ws_message_outbound c) (ws_shutting_down c)) (remove1 op (ws_ops c))"
    using ws_baseD(4) [OF assms(1)] set_remove1_subset [of op "ws_ops c"] by (auto simp: list_all_iff)
  moreover have "ws_count is_chain_op (ws_complete op c) \<le> 1"
    "ws_count is_write_op (ws_complete op c) \<le> (if ws_is_writing c then 1 else 0)"
    using ws_baseD(2,3) [OF assms(1)] by (auto simp: ws_count_complete [OF assms(2)])
  ultimately show "ws_base (ws_complete op c)"
    using ws_baseD(1,5,6) [OF assms(1)] unfolding ws_base_def by (simp add: ws_complete_def ws_closed_def)
  show "is_chain_op op \<Longrightarrow> ws_count is_chain_op (ws_complete op c) = 0"
    using ws_baseD(2) [OF assms(1)] by (simp add: ws_count_complete [OF assms(2)])
  show "is_write_op op \<Longrightarrow> ws_count is_write_op (ws_complete op c) = 0 \<and> ws_is_writing (ws_complete op c)"
    using ws_baseD(3) [OF assms(1)] pos [of is_write_op]
    by (auto simp: ws_count_complete [OF assms(2)], simp_all add: ws_complete_def split: if_split_asm)
  show "ws_op_ok (ws_message_outbound c) (ws_shutting_down c) op"
    using ws_baseD(4) [OF assms(1)] assms(2) by (auto simp: list_all_iff)
qed

lemma ws_armed_complete: "op \<noteq> WsTimerWait MainTimer True \<Longrightarrow> ws_armed c \<Longrightarrow> ws_armed (ws_complete op c)"
  by (simp add: ws_armed_def ws_complete_def)

lemma ws_closed_complete [simp]: "ws_closed (ws_complete op c) = ws_closed c"
  by (simp add: ws_closed_def ws_complete_def)

section \<open>Every handler keeps the invariant\<close>

lemma ws_set_timeout_inv:
  assumes "ws_base c"
  shows "ws_base (ws_set_timeout now d c)" and "ws_armed (ws_set_timeout now d c)"
    and "ws_count is_chain_op (ws_set_timeout now d c) = ws_count is_chain_op c"
    and "ws_closed (ws_set_timeout now d c) = ws_closed c"
proof -
  let ?c = "(ws_cancel MainTimer c)\<lparr>ws_timer_expiry := now + d\<rparr>"
  have "ws_base ?c"
    by (rule ws_base_cong [OF ws_base_cancel [OF assms]]) simp_all
  then show "ws_base (ws_set_timeout now d c)"
    unfolding ws_set_timeout_def Let_def by (rule ws_base_start) simp_all
  show "ws_armed (ws_set_timeout now d c)" "ws_closed (ws_set_timeout now d c) = ws_closed c"
    by (simp_all add: ws_set_timeout_def Let_def ws_armed_def ws_closed_def)
  have "ws_count is_chain_op ?c = ws_count is_chain_op c"
    using ws_count_cancel(1) [of MainTimer c] by (simp add: ws_count_def)
  then show "ws_count is_chain_op (ws_set_timeout now d c) = ws_count is_chain_op c"
    by (simp add: ws_set_timeout_def Let_def)
qed

lemma ws_abort_inv:
  assumes "ws_base c"
  shows "ws_inv (ws_abort c) \<and> ws_closed (ws_abort c)"
proof (cases "ws_dropped c")
  case True
  with assms show ?thesis
    by (simp add: ws_abort_def ws_inv_def ws_closed_def)
next
  case False
  let ?c = "ws_cancel StateTimer (ws_cancel MainTimer c)"
  have "ws_base ?c"
    using assms by (simp add: ws_base_cancel)
  with False show ?thesis
    by (simp add: ws_abort_def Let_def ws_closed_def ws_inv_def ws_base_def ws_count_def mq.wf_clear
        mq.contents_clear)
qed

lemma ws_shutdown_inv:
  assumes "ws_base c"
  shows "ws_inv (ws_shutdown c) \<and> ws_closed (ws_shutdown c)"
proof (cases "ws_closed c")
  case True
  with assms show ?thesis
    by (auto simp: ws_shutdown_def ws_inv_def ws_closed_def)
next
  case False
  let ?c = "ws_cancel StateTimer (ws_cancel MainTimer c)"
  have base: "ws_base ?c" "ws_socket_open ?c" "\<not> ws_dropped ?c"
    using assms False by (simp_all add: ws_base_cancel) (simp_all add: ws_closed_def ws_base_def)
  have "list_all (ws_op_ok (ws_message_outbound ?c) True) (ws_ops ?c)"
    using ws_baseD(4) [OF base(1)] unfolding list_all_iff
    by (blast intro: ws_op_ok_mono)
  with base show ?thesis
    using False by (simp add: ws_shutdown_def Let_def ws_closed_def ws_inv_def ws_base_def ws_count_def
        ws_start_def mq.wf_clear mq.contents_clear)
qed

lemma ws_error_inv:
  assumes "ws_inv c"
  shows "ws_inv (ws_handle_read_error ec c)" and "ws_inv (ws_handle_write_error ec c)"
  using assms ws_abort_inv [of c] ws_shutdown_inv [of c]
  by (auto simp: ws_handle_read_error_def ws_handle_write_error_def ws_inv_def)

lemma ws_inv_cong:
  assumes "ws_inv c" and "ws_ops c' = ws_ops c" and "ws_message_outbound c' = ws_message_outbound c"
    and "ws_is_writing c' = ws_is_writing c" and "ws_shutting_down c' = ws_shutting_down c"
    and "ws_socket_open c' = ws_socket_open c" and "ws_dropped c' = ws_dropped c"
    and "ws_message_queue c' = ws_message_queue c"
  shows "ws_inv c'"
  using assms ws_base_cong [of c c'] by (simp add: ws_inv_def ws_closed_def ws_armed_def)

lemma ws_start_inv:
  assumes "ws_inv c" and "is_chain_op op \<Longrightarrow> ws_count is_chain_op c = 0"
    and "is_write_op op \<Longrightarrow> ws_is_writing c \<and> ws_count is_write_op c = 0"
    and "ws_op_ok (ws_message_outbound c) (ws_shutting_down c) op"
  shows "ws_inv (ws_start op c)"
  using assms ws_base_start [of c op] by (auto simp: ws_inv_def ws_armed_def)

lemma ws_set_timeout_full_inv: "ws_inv c \<Longrightarrow> ws_inv (ws_set_timeout now d c)"
  using ws_set_timeout_inv [of c] by (simp add: ws_inv_def)

lemma ws_refresh_timeout_inv:
  assumes "ws_inv c"
  shows "ws_inv (ws_refresh_timeout g now c)"
  using assms ws_set_timeout_full_inv by (simp add: ws_refresh_timeout_def)

lemma ws_check_rate_limit_inv:
  assumes "ws_inv c" and "ws_check_rate_limit g now c = (b, c')"
  shows "ws_inv c'" and "\<not> b \<Longrightarrow> ws_ops c' = ws_ops c"
proof -
  let ?c = "c\<lparr>ws_rate_start := now, ws_rate_messages := 0, ws_rate_bytes := 0\<rparr>"
  have "ws_inv ?c"
    by (rule ws_inv_cong [OF assms(1)]) simp_all
  then show "ws_inv c'" "\<not> b \<Longrightarrow> ws_ops c' = ws_ops c"
    using assms ws_abort_inv [of c]
    by (auto simp: ws_check_rate_limit_def ws_inv_def split: if_split_asm)
qed

text \<open>Without a write in progress, the outbound message and the write flag are free.\<close>

lemma ws_idle_inv:
  assumes "ws_inv c" and "ws_count is_write_op c = 0"
  shows "ws_inv (c\<lparr>ws_message_outbound := m\<rparr>)" and "ws_inv (c\<lparr>ws_is_writing := b\<rparr>)"
proof -
  have nw: "\<not> is_write_op op" if "op \<in> set (ws_ops c)" for op
    using assms(2) that by (auto simp: ws_count_def filter_empty_conv)
  have eq: "ws_op_ok m b op = ws_op_ok m' b op" if "\<not> is_write_op op" for m m' b op
    using that by (cases op) simp_all
  have ok: "list_all (ws_op_ok m (ws_shutting_down c)) (ws_ops c)"
    unfolding list_all_iff
  proof
    fix op
    assume op: "op \<in> set (ws_ops c)"
    then have "ws_op_ok (ws_message_outbound c) (ws_shutting_down c) op"
      using assms(1) by (simp add: ws_inv_def ws_base_def list_all_iff)
    then show "ws_op_ok m (ws_shutting_down c) op"
      using eq nw [OF op] by blast
  qed
  have cnt: "ws_count P (c\<lparr>ws_message_outbound := m\<rparr>) = ws_count P c"
    "ws_count P (c\<lparr>ws_is_writing := b\<rparr>) = ws_count P c" for P
    by (simp_all add: ws_count_def)
  show "ws_inv (c\<lparr>ws_message_outbound := m\<rparr>)" "ws_inv (c\<lparr>ws_is_writing := b\<rparr>)"
    using assms ok unfolding ws_inv_def ws_base_def ws_closed_def ws_armed_def cnt by simp_all
qed

lemma ws_count_updates [simp]:
  "ws_count P (c\<lparr>ws_message_outbound := m\<rparr>) = ws_count P c"
  "ws_count P (c\<lparr>ws_is_writing := b\<rparr>) = ws_count P c"
  "ws_count P (c\<lparr>ws_message_queue := q\<rparr>) = ws_count P c"
  by (simp_all add: ws_count_def)

lemma ws_queue_inv:
  assumes "ws_inv c" and "mq_wf q" and "ws_closed c \<Longrightarrow> mq_contents q = []"
  shows "ws_inv (c\<lparr>ws_message_queue := q\<rparr>)"
  using assms by (simp add: ws_inv_def ws_base_def ws_closed_def ws_armed_def)

lemma ws_do_write_message_eq:
  assumes "\<not> is_empty m"
  shows "ws_do_write_message m c = Inr (ws_start (WsWrite (ws_sent m)) (c\<lparr>ws_message_outbound := m\<rparr>))"
  using assms by (simp add: ws_do_write_message_def message_data_some message_size_some ws_sent_def Let_def)

lemma ws_do_write_message_inv:
  assumes "ws_inv c" and "ws_count is_write_op c = 0" and "ws_is_writing c" and "\<not> is_empty m"
  shows "\<exists>c'. ws_do_write_message m c = Inr c' \<and> ws_inv c'"
proof -
  have "ws_inv (ws_start (WsWrite (ws_sent m)) (c\<lparr>ws_message_outbound := m\<rparr>))"
    using ws_idle_inv(1) [OF assms(1,2)] by (rule ws_start_inv) (use assms in simp_all)
  then show ?thesis
    by (simp add: ws_do_write_message_eq [OF assms(4)])
qed

lemma ws_send_task_inv:
  assumes "ws_inv c" and "\<not> is_empty m"
  shows "\<exists>c'. ws_send_task m c = Inr c' \<and> ws_inv c'"
proof (cases "ws_closed c")
  case True
  with assms(1) show ?thesis
    by (simp add: ws_send_task_def ws_closed_def)
next
  case live: False
  have base: "ws_base c"
    using assms(1) by (simp add: ws_inv_def)
  show ?thesis
  proof (cases "ws_is_writing c")
    case True
    obtain q where "mq_push m (ws_message_queue c) = Inr q" "mq_wf q"
      using mq_push_ok [OF ws_baseD(1) [OF base] assms(2)] by blast
    with live True show ?thesis
      using ws_queue_inv [OF assms(1), of q] by (simp add: ws_send_task_def ws_closed_def)
  next
    case False
    then have "ws_count is_write_op c = 0"
      using ws_baseD(3) [OF base] by simp
    with live False show ?thesis
      using ws_do_write_message_inv [OF ws_idle_inv(2) [OF assms(1)], of True m] assms(2)
      by (simp add: ws_send_task_def ws_closed_def)
  qed
qed

lemma ws_on_write_message_inv:
  assumes "ws_inv c" and "ws_count is_write_op c = 0" and "ws_is_writing c"
  shows "\<exists>c'. ws_on_write_message ec c = Inr c' \<and> ws_inv c'"
proof -
  let ?c = "c\<lparr>ws_message_outbound := Message\<rparr>"
  have inv: "ws_inv ?c" "ws_count is_write_op ?c = 0"
    using ws_idle_inv(1) [OF assms(1,2)] assms(2) by simp_all
  have wf: "mq_wf (ws_message_queue c)"
    using assms(1) by (simp add: ws_inv_def ws_base_def)
  show ?thesis
  proof (cases "ec = NoError")
    case False
    then show ?thesis
      using ws_error_inv(2) [OF inv(1)] by (simp add: ws_on_write_message_def)
  next
    case True
    show ?thesis
    proof (cases "mq_contents (ws_message_queue c)")
      case Nil
      then show ?thesis
        using True wf ws_idle_inv(2) [OF inv, of False] by (simp add: ws_on_write_message_def mq.pop_none)
    next
      case (Cons m ms)
      then obtain q where q: "mq_try_pop Message (ws_message_queue c) = Inr (True, m, q)" "mq_wf q"
        using mq_pop_some [OF wf Cons, of Message] by blast
      have m: "\<not> is_empty m"
        using mq.wf_good [OF wf, of m] Cons by simp
      have "\<not> ws_closed ?c"
        using assms(1) Cons by (auto simp: ws_inv_def ws_base_def ws_closed_def)
      then have "ws_inv (?c\<lparr>ws_message_queue := q\<rparr>)"
        using ws_queue_inv [OF inv(1) q(2)] by blast
      then show ?thesis
        using ws_do_write_message_inv [of "?c\<lparr>ws_message_queue := q\<rparr>" m] inv(2) assms(3) m q(1) True
        by (simp add: ws_on_write_message_def)
    qed
  qed
qed

lemma ws_on_timeout_inv: "ws_inv c \<Longrightarrow> ws_inv (ws_on_timeout ec c)"
  using ws_abort_inv [of c] by (simp add: ws_on_timeout_def ws_inv_def)

lemma ws_on_shutdown_inv: "ws_inv c \<Longrightarrow> ws_shutting_down c \<Longrightarrow> ws_inv (ws_on_shutdown ec c)"
  by (auto simp: ws_on_shutdown_def ws_inv_def ws_base_def ws_closed_def ws_count_def)

lemma ws_on_ssl_handshake_inv:
  assumes "ws_inv c" and "ws_count is_chain_op c = 0"
  shows "ws_inv (ws_on_ssl_handshake ec c)"
  using assms ws_abort_inv [of c] ws_start_inv [OF assms(1), of WsReadRequest]
  by (auto simp: ws_on_ssl_handshake_def ws_inv_def)

lemma ws_on_read_request_inv:
  assumes "ws_inv c" and "ws_count is_chain_op c = 0"
  shows "ws_inv (ws_on_read_request g active ec upgrade left c)"
proof -
  have inv: "ws_inv (c\<lparr>ws_request_upgrade := u, ws_read_buffer := b\<rparr>)"
    "ws_inv (c\<lparr>ws_request_upgrade := u, ws_read_buffer := b, ws_responses := r\<rparr>)" for u b r
    by (rule ws_inv_cong [OF assms(1)]; simp)+
  have "ws_inv (ws_start WsAccept (c\<lparr>ws_request_upgrade := u, ws_read_buffer := b\<rparr>))" for u b
    using inv(1) by (rule ws_start_inv) (use assms(2) in \<open>simp_all add: ws_count_def\<close>)
  moreover have "ws_inv (ws_shutdown (c\<lparr>ws_request_upgrade := u, ws_read_buffer := b, ws_responses := r\<rparr>))"
    for u b r
    using ws_shutdown_inv inv(2) by (simp add: ws_inv_def)
  moreover have "ws_inv (ws_handle_read_error ec (c\<lparr>ws_request_upgrade := u, ws_read_buffer := b\<rparr>))" for u b
    using ws_error_inv(1) [OF inv(1)] .
  ultimately show ?thesis
    by (simp add: ws_on_read_request_def Let_def)
qed

lemma ws_on_ws_handshake_inv:
  assumes "ws_inv c" and "ws_count is_chain_op c = 0"
  shows "ws_inv (ws_on_ws_handshake g now ec c)"
proof -
  let ?c = "c\<lparr>ws_request_upgrade := False\<rparr>"
  have inv: "ws_inv ?c" "ws_inv (?c\<lparr>ws_stream := s\<rparr>)" for s
    by (rule ws_inv_cong [OF assms(1)]; simp)+
  have "ws_inv (ws_start WsRead (ws_set_timeout now d (?c\<lparr>ws_stream := s\<rparr>)))" for d s
    using ws_set_timeout_full_inv [OF inv(2)]
  proof (rule ws_start_inv)
    have "ws_base (?c\<lparr>ws_stream := s\<rparr>)"
      using inv(2) by (simp add: ws_inv_def)
    then show "ws_count is_chain_op (ws_set_timeout now d (?c\<lparr>ws_stream := s\<rparr>)) = 0"
      using assms(2) ws_set_timeout_inv(3) by (simp add: ws_count_def)
  qed simp_all
  moreover have "ws_inv (ws_shutdown ?c)"
    using ws_shutdown_inv inv(1) by (simp add: ws_inv_def)
  ultimately show ?thesis
    using assms(1) by (simp add: ws_on_ws_handshake_def Let_def)
qed

lemma ws_on_read_inv:
  assumes "ws_inv c" and "ws_count is_chain_op c = 0"
  shows "ws_inv (ws_on_read g now ec got_binary data c)"
proof (cases "ec = NoError")
  case False
  have "ws_inv (c\<lparr>ws_read_buffer := ws_read_buffer c @ data\<rparr>)"
    by (rule ws_inv_cong [OF assms(1)]) simp_all
  with False show ?thesis
    by (simp add: ws_on_read_def ws_error_inv(1))
next
  case True
  let ?c = "ws_count_inbound (length data) (c\<lparr>ws_read_buffer := ws_read_buffer c @ data\<rparr>)"
  obtain b c1 where chk: "ws_check_rate_limit g now ?c = (b, c1)"
    by (cases "ws_check_rate_limit g now ?c")
  have "ws_inv ?c"
    by (rule ws_inv_cong [OF assms(1)]) (simp_all add: ws_count_inbound_def)
  from ws_check_rate_limit_inv [OF this chk] have inv: "ws_inv c1" "\<not> b \<Longrightarrow> ws_ops c1 = ws_ops c"
    by (simp_all add: ws_count_inbound_def)
  show ?thesis
  proof (cases b)
    case True
    then show ?thesis
      using \<open>ec = NoError\<close> chk inv(1) by (simp add: ws_on_read_def)
  next
    case False
    have sh: "ws_inv (ws_shutdown c1)"
      using ws_shutdown_inv inv(1) by (simp add: ws_inv_def)
    have "ws_inv (c1\<lparr>ws_read_buffer := buf\<rparr>)" for buf
      by (rule ws_inv_cong [OF inv(1)]) simp_all
    then have "ws_inv (ws_start WsRead (c1\<lparr>ws_read_buffer := buf\<rparr>))" for buf
      by (rule ws_start_inv) (use assms(2) inv(2) False in \<open>simp_all add: ws_count_def\<close>)
    then have "ws_inv (ws_refresh_timeout g now (ws_start WsRead (c1\<lparr>ws_read_buffer := buf\<rparr>)))" for buf
      by (rule ws_refresh_timeout_inv)
    then have "ws_inv (ws_process_message m (ws_refresh_timeout g now (ws_start WsRead (c1\<lparr>ws_read_buffer := buf\<rparr>))))"
      for m buf
      by (rule ws_inv_cong) (simp_all add: ws_process_message_def)
    with sh show ?thesis
      using \<open>ec = NoError\<close> chk False by (simp add: ws_on_read_def Let_def)
  qed
qed

section \<open>Runs\<close>

lemma ws_handler_inv:
  assumes "ws_inv c" and "op \<in> set (ws_ops c)" and "ws_possible op out"
  shows "\<exists>c'. ws_handler g now op out (ws_complete op c) = Inr c' \<and> ws_inv c'"
proof -
  have base: "ws_base c"
    using assms(1) by (simp add: ws_inv_def)
  note done_op = ws_base_complete [OF base assms(2)]
  have inv: "ws_inv (ws_complete op c)" if "op \<noteq> WsTimerWait MainTimer True"
    using done_op(1) assms(1) ws_armed_complete [OF that, of c] by (auto simp: ws_inv_def)
  show ?thesis
  proof (cases op)
    case (WsTimerWait t armed)
    show ?thesis
    proof (cases "op = WsTimerWait MainTimer True")
      case True
      then have "wo_ec out = NoError"
        using assms(3) by simp
      moreover have "ws_inv (ws_abort (ws_complete op c))" "ws_inv (ws_complete op c)" if "ws_dropped c"
        using that done_op(1) ws_abort_inv by (auto simp: ws_inv_def ws_closed_def ws_complete_def)
      ultimately show ?thesis
        using True ws_abort_inv [OF done_op(1)] by (auto simp: ws_on_timeout_def ws_complete_def)
    next
      case False
      then show ?thesis
        using WsTimerWait inv ws_on_timeout_inv by simp
    qed
  next
    case (WsWrite d)
    then show ?thesis
      using inv done_op(3) ws_on_write_message_inv by simp
  next
    case (WsSendTask m)
    then show ?thesis
      using inv done_op(4) ws_send_task_inv by simp
  next
    case WsSslShutdown
    then show ?thesis
      using inv done_op(4) ws_on_shutdown_inv [of "ws_complete op c"] by (simp add: ws_complete_def)
  qed (use inv done_op(2) ws_on_ssl_handshake_inv ws_on_read_request_inv ws_on_ws_handshake_inv ws_on_read_inv in simp_all)
qed

lemma ws_send_message_inv: "ws_inv c \<Longrightarrow> ws_inv (ws_send_message m c)"
  by (simp add: ws_send_message_def) (intro impI ws_start_inv; simp)

lemma ws_step_inv: "ws_step g now c c' \<Longrightarrow> ws_inv c \<Longrightarrow> ws_inv c'"
proof (induction rule: ws_step.induct)
  case (owner_sends c m)
  then show ?case by (simp add: ws_send_message_inv)
next
  case (op_completes op c out c')
  then show ?case using ws_handler_inv [of c op out g now] by auto
qed

lemma ws_steps_inv: "ws_steps ts c c' \<Longrightarrow> ws_inv c \<Longrightarrow> ws_inv c'"
  by (induction rule: ws_steps.induct) (auto dest: ws_step_inv)

lemma ws_run_inv: "ws_inv (ws_run g now (WsConnection st e True now0))"
proof -
  have "ws_base (WsConnection st e True now0)"
    by (simp add: ws_base_def WsConnection_def ws_count_def ws_closed_def mq.wf_empty)
  note t = ws_set_timeout_inv [OF this]
  have "ws_count is_chain_op (WsConnection st e True now0) = 0" "ws_socket_open (WsConnection st e True now0)"
    by (simp_all add: WsConnection_def ws_count_def)
  then show ?thesis
    using t by (simp add: ws_run_def) (intro ws_start_inv; simp add: ws_inv_def t)
qed

end
