(* ===== verification/WsProps.thy ===== *)
theory WsProps
  imports WsSafety
begin

text \<open>
  What the invariant of client connections gives, the bound of the rate limiter, and the order of
  outgoing messages.
\<close>

section \<open>The rate limiter\<close>

text \<open>What the rate limiter reads and what it limits.\<close>

definition ws_view :: "ws_connection \<Rightarrow> time \<times> int \<times> message list" where
  "ws_view c = (ws_rate_start c, ws_rate_messages c, ws_inbound c)"

lemma ws_view_ops [simp]:
  "ws_view (ws_start op c) = ws_view c" "ws_view (ws_cancel t c) = ws_view c"
  "ws_view (ws_complete op c) = ws_view c" "ws_view (ws_set_timeout now d c) = ws_view c"
  "ws_view (ws_refresh_timeout g now c) = ws_view c" "ws_view (ws_abort c) = ws_view c"
  "ws_view (ws_shutdown c) = ws_view c" "ws_view (ws_send_message m c) = ws_view c"
  "ws_view (ws_handle_read_error ec c) = ws_view c" "ws_view (ws_handle_write_error ec c) = ws_view c"
  by (simp_all add: ws_view_def ws_start_def ws_cancel_def ws_complete_def ws_set_timeout_def
      ws_refresh_timeout_def ws_abort_def ws_shutdown_def ws_send_message_def
      ws_handle_read_error_def ws_handle_write_error_def Let_def)

lemma ws_view_updates [simp]:
  "ws_view (c\<lparr>ws_message_outbound := m\<rparr>) = ws_view c" "ws_view (c\<lparr>ws_is_writing := b\<rparr>) = ws_view c"
  "ws_view (c\<lparr>ws_message_queue := q\<rparr>) = ws_view c" "ws_view (c\<lparr>ws_read_buffer := buf\<rparr>) = ws_view c"
  "ws_view (c\<lparr>ws_request_upgrade := b\<rparr>) = ws_view c" "ws_view (c\<lparr>ws_responses := r\<rparr>) = ws_view c"
  "ws_view (c\<lparr>ws_stream := s\<rparr>) = ws_view c" "ws_view (c\<lparr>ws_socket_open := b, ws_dropped := b'\<rparr>) = ws_view c"
  by (simp_all add: ws_view_def)

lemma ws_view_write:
  "ws_do_write_message m c = Inr c' \<Longrightarrow> ws_view c' = ws_view c"
  by (auto simp: ws_do_write_message_def Let_def ebind_eq_Inr)

text \<open>Every handler but \<open>on_read\<close> leaves them alone.\<close>

lemma ws_view_handler:
  assumes "ws_handler g now op out c = Inr c'" and "op \<noteq> WsRead"
  shows "ws_view c' = ws_view c"
proof (cases op)
  case (WsWrite d)
  then show ?thesis
    using assms(1) ws_view_write
    by (auto simp: ws_on_write_message_def Let_def ebind_eq_Inr split: if_split_asm)
next
  case (WsSendTask m)
  then show ?thesis
    using assms(1) ws_view_write by (auto simp: ws_send_task_def ebind_eq_Inr split: if_split_asm)
qed (use assms in \<open>auto simp: ws_on_ssl_handshake_def ws_on_read_request_def ws_on_ws_handshake_def
    ws_on_shutdown_def ws_on_timeout_def Let_def\<close>)

text \<open>
  How many messages the limiter still lets through in the second that begins at \<open>a\<close>: what is left
  of the current count and, if the count was not yet restarted in this second, a restart.
\<close>

definition allowance :: "int \<Rightarrow> time \<Rightarrow> ws_connection \<Rightarrow> int" where
  "allowance L a c = (if ws_rate_start c < a then L + 1 else 0) + max 0 (L - ws_rate_messages c)"

definition received :: "ws_connection \<Rightarrow> int" where
  "received c = int (length (ws_inbound c))"

lemma ws_view_eq:
  "ws_view c' = ws_view c \<Longrightarrow> allowance L a c' = allowance L a c \<and> received c' = received c
    \<and> ws_rate_messages c' = ws_rate_messages c"
  by (simp add: ws_view_def allowance_def received_def)

lemma ws_view_process: "ws_view (ws_process_message m c) = (ws_rate_start c, ws_rate_messages c, ws_inbound c @ [m])"
  by (simp add: ws_view_def ws_process_message_def)

text \<open>What \<open>on_read\<close> does after the limiter: it processes the message, or shuts down on a text message.\<close>

lemma ws_on_read_tail:
  assumes "ws_check_rate_limit g now (ws_count_inbound (length data) (c\<lparr>ws_read_buffer := ws_read_buffer c @ data\<rparr>)) = (False, c1)"
    and "r = ws_on_read g now NoError b data c"
  shows "ws_view r = ws_view c1 \<or> (\<exists>m. ws_view r = (ws_rate_start c1, ws_rate_messages c1, ws_inbound c1 @ [m]))"
proof (cases b)
  case True
  let ?d = "ws_refresh_timeout g now (ws_start WsRead
      (c1\<lparr>ws_read_buffer := drop (length (take (length data) (ws_read_buffer c1))) (ws_read_buffer c1)\<rparr>))"
  have "r = ws_process_message (from_vector (take (length data) (ws_read_buffer c1))) ?d"
    unfolding assms(2) ws_on_read_def Let_def using assms(1) True by simp
  then obtain m d where d: "r = ws_process_message m d" "ws_view d = ws_view c1"
    by (metis ws_view_ops(1,5) ws_view_updates(4))
  have "ws_view r = (ws_rate_start c1, ws_rate_messages c1, ws_inbound c1 @ [m])"
    using ws_view_process [of m d] d by (simp add: ws_view_def)
  then show ?thesis
    by blast
next
  case False
  then show ?thesis
    unfolding assms(2) ws_on_read_def Let_def using assms(1) by simp
qed

text \<open>A message either is counted or restarts the count, or it is the one too many.\<close>

lemma ws_on_read_view:
  assumes "r = ws_on_read g now NoError b data c"
  shows "ws_view r = (ws_rate_start c, ws_rate_messages c + 1, ws_inbound c)
    \<or> seconds 1 < now - ws_rate_start c \<and> (\<exists>ms. length ms \<le> 1 \<and> ws_view r = (now, 0, ws_inbound c @ ms))
    \<or> ws_rate_messages c + 1 \<le> rate_limit_messages g
      \<and> (\<exists>m. ws_view r = (ws_rate_start c, ws_rate_messages c + 1, ws_inbound c @ [m]))"
proof -
  let ?c = "ws_count_inbound (length data) (c\<lparr>ws_read_buffer := ws_read_buffer c @ data\<rparr>)"
  obtain kill c1 where chk: "ws_check_rate_limit g now ?c = (kill, c1)"
    by (cases "ws_check_rate_limit g now ?c")
  have c: "ws_view ?c = (ws_rate_start c, ws_rate_messages c + 1, ws_inbound c)"
    "ws_rate_messages ?c = ws_rate_messages c + 1" "ws_rate_start ?c = ws_rate_start c"
    by (simp_all add: ws_view_def ws_count_inbound_def)
  have tail: "ws_view r = ws_view c1 \<or> (\<exists>m. ws_view r = (ws_rate_start c1, ws_rate_messages c1, ws_inbound c1 @ [m]))"
    if "\<not> kill"
    using ws_on_read_tail chk that assms by simp
  consider (kill) "kill" "ws_view c1 = ws_view ?c"
    | (restart) "\<not> kill" "seconds 1 < now - ws_rate_start c" "ws_view c1 = (now, 0, ws_inbound c)"
    | (count) "\<not> kill" "ws_rate_messages c + 1 \<le> rate_limit_messages g" "ws_view c1 = ws_view ?c"
    using chk c by (auto simp: ws_check_rate_limit_def split: if_split_asm)
      (auto simp: ws_view_def ws_count_inbound_def)
  then show ?thesis
  proof cases
    case kill
    then have "r = c1"
      unfolding assms ws_on_read_def Let_def using chk by simp
    then show ?thesis
      using kill c(1) by simp
  next
    case restart
    then have "\<exists>ms. length ms \<le> 1 \<and> ws_view r = (now, 0, ws_inbound c @ ms)"
      using tail by (auto simp: ws_view_def intro: exI [of _ "[]"] exI [of _ "[m]" for m])
    then show ?thesis
      using restart(2) by blast
  next
    case count
    then show ?thesis
      using tail c(1) by (auto simp: ws_view_def)
  qed
qed

lemma ws_on_read_allowance:
  assumes "rate_limit_messages g \<le> L" and "0 \<le> L" and "a \<le> now" and "now \<le> a + seconds 1"
    and "0 \<le> ws_rate_messages c"
  shows "received (ws_on_read g now ec b data c) + allowance L a (ws_on_read g now ec b data c)
      \<le> received c + allowance L a c
    \<and> 0 \<le> ws_rate_messages (ws_on_read g now ec b data c)"
proof (cases "ec = NoError")
  case False
  then have "ws_view (ws_on_read g now ec b data c) = ws_view c"
    by (simp add: ws_on_read_def)
  then show ?thesis
    using ws_view_eq [of "ws_on_read g now ec b data c" c L a] assms(5) by simp
next
  case True
  define r where "r = ws_on_read g now NoError b data c"
  have "received r + allowance L a r \<le> received c + allowance L a c \<and> 0 \<le> ws_rate_messages r"
    using ws_on_read_view [OF r_def]
  proof (elim disjE conjE exE)
    assume "ws_view r = (ws_rate_start c, ws_rate_messages c + 1, ws_inbound c)"
    then show ?thesis
      using assms(5) by (simp add: ws_view_def allowance_def received_def)
  next
    fix ms
    assume r: "seconds 1 < now - ws_rate_start c" "length ms \<le> 1" "ws_view r = (now, 0, ws_inbound c @ ms)"
    then have "ws_rate_start c < a"
      using assms(4) by linarith
    then show ?thesis
      using r(2,3) assms(2,3) by (simp add: ws_view_def allowance_def received_def)
  next
    fix m
    assume "ws_rate_messages c + 1 \<le> rate_limit_messages g"
      "ws_view r = (ws_rate_start c, ws_rate_messages c + 1, ws_inbound c @ [m])"
    then show ?thesis
      using assms(1,5) by (simp add: ws_view_def allowance_def received_def)
  qed
  with True show ?thesis
    by (simp add: r_def)
qed

lemma ws_step_allowance:
  assumes "ws_step g now c c'" and "rate_limit_messages g \<le> L" and "0 \<le> L"
    and "a \<le> now" and "now \<le> a + seconds 1" and "0 \<le> ws_rate_messages c"
  shows "received c' + allowance L a c' \<le> received c + allowance L a c \<and> 0 \<le> ws_rate_messages c'"
  using assms(1)
proof cases
  case (owner_sends m)
  then show ?thesis
    using ws_view_eq [of c' c L a] assms(6) by simp
next
  case (op_completes op out)
  let ?c = "ws_complete op c"
  have v: "allowance L a ?c = allowance L a c" "received ?c = received c" "ws_rate_messages ?c = ws_rate_messages c"
    using ws_view_eq [of ?c c L a] by simp_all
  show ?thesis
  proof (cases "op = WsRead")
    case True
    then show ?thesis
      using op_completes(3) ws_on_read_allowance [OF assms(2-5), of ?c] assms(6) v by auto
  next
    case False
    then have "ws_view c' = ws_view ?c"
      using op_completes(3) ws_view_handler by blast
    then show ?thesis
      using ws_view_eq [of c' ?c L a] v assms(6) by simp
  qed
qed

lemma ws_steps_allowance:
  assumes "ws_steps ts c c'" and "0 \<le> L" and "0 \<le> ws_rate_messages c"
    and "\<And>g now. (g, now) \<in> set ts \<Longrightarrow> rate_limit_messages g \<le> L \<and> a \<le> now \<and> now \<le> a + seconds 1"
  shows "received c' + allowance L a c' \<le> received c + allowance L a c"
  using assms
proof (induction rule: ws_steps.induct)
  case (more_steps g now c c1 ts c')
  have lim: "rate_limit_messages g \<le> L" "a \<le> now" "now \<le> a + seconds 1"
    using more_steps.prems(3) [of g now] by simp_all
  have "received c1 + allowance L a c1 \<le> received c + allowance L a c \<and> 0 \<le> ws_rate_messages c1"
    using ws_step_allowance [OF more_steps.hyps(1) lim(1) more_steps.prems(1) lim(2,3) more_steps.prems(2)] .
  moreover have "received c' + allowance L a c' \<le> received c1 + allowance L a c1"
  proof (rule more_steps.IH [OF more_steps.prems(1) conjunct2 [OF calculation]])
    fix g' now'
    assume "(g', now') \<in> set ts"
    then show "rate_limit_messages g' \<le> L \<and> a \<le> now' \<and> now' \<le> a + seconds 1"
      by (intro more_steps.prems(3)) simp
  qed
  ultimately show ?case
    by simp
qed simp

lemma ws_steps_count_nonneg:
  assumes "ws_steps ts c c'" and "0 \<le> ws_rate_messages c"
  shows "0 \<le> ws_rate_messages c'"
  using assms
proof (induction rule: ws_steps.induct)
  case (more_steps g now c c1 ts c')
  then have "0 \<le> ws_rate_messages c1"
    using ws_step_allowance [OF more_steps.hyps(1), of "max 0 (rate_limit_messages g)" now] by (simp add: seconds_def)
  then show ?case
    using more_steps by simp
qed simp

section \<open>Outgoing messages\<close>

text \<open>The successful completion of the write in progress.\<close>

definition ws_finished :: "ws_connection \<Rightarrow> crash + ws_connection" where
  "ws_finished c =
     (case filter is_write_op (ws_ops c) of
        [] \<Rightarrow> Inr c
      | op # _ \<Rightarrow> ws_on_write_message NoError (ws_complete op c))"

definition ws_inflight :: "ws_connection \<Rightarrow> message list" where
  "ws_inflight c = (if ws_count is_write_op c = 0 then [] else [ws_message_outbound c])"

definition ws_waiting :: "ws_connection \<Rightarrow> message list" where
  "ws_waiting c = mq_contents (ws_message_queue c)"

fun ws_op_data :: "ws_op \<Rightarrow> byte list" where
  "ws_op_data (WsWrite d) = d"
| "ws_op_data _ = []"

definition ws_wire :: "ws_connection \<Rightarrow> byte list list" where
  "ws_wire c = map ws_op_data (filter is_write_op (ws_ops c))"

text \<open>An open connection whose write flag is accurate.\<close>

definition ws_ready :: "ws_connection \<Rightarrow> bool" where
  "ws_ready c \<longleftrightarrow> ws_inv c \<and> \<not> ws_closed c
     \<and> (ws_is_writing c \<longleftrightarrow> 0 < ws_count is_write_op c) \<and> (ws_waiting c \<noteq> [] \<longrightarrow> ws_is_writing c)"

lemma ws_write_started:
  assumes "ws_inv c" and "\<not> ws_closed c" and "ws_count is_write_op c = 0" and "ws_is_writing c" and "\<not> is_empty m"
  shows "\<exists>c'. ws_do_write_message m c = Inr c' \<and> ws_ready c' \<and> ws_inflight c' = [m] \<and> ws_waiting c' = ws_waiting c"
proof -
  let ?c = "ws_start (WsWrite (ws_sent m)) (c\<lparr>ws_message_outbound := m\<rparr>)"
  have "ws_inv ?c"
    using ws_do_write_message_inv [OF assms(1,3-5)] by (simp add: ws_do_write_message_eq [OF assms(5)])
  moreover have "\<not> ws_closed ?c" "ws_inflight ?c = [m]" "ws_waiting ?c = ws_waiting c" "ws_is_writing ?c"
    "0 < ws_count is_write_op ?c"
    using assms(2,4) by (simp_all add: ws_closed_def ws_inflight_def ws_waiting_def)
  ultimately show ?thesis
    by (simp add: ws_do_write_message_eq [OF assms(5)] ws_ready_def)
qed

lemma ws_send_ready:
  assumes "ws_ready c" and "\<not> is_empty m"
  shows "\<exists>c'. ws_send_task m c = Inr c' \<and> ws_ready c'
    \<and> ws_inflight c' @ ws_waiting c' = ws_inflight c @ ws_waiting c @ [m]"
proof -
  have r: "ws_inv c" "\<not> ws_closed c"
    using assms(1) by (simp_all add: ws_ready_def)
  show ?thesis
  proof (cases "ws_is_writing c")
    case True
    have "mq_wf (ws_message_queue c)"
      using r(1) by (simp add: ws_inv_def ws_base_def)
    then obtain q where q: "mq_push m (ws_message_queue c) = Inr q" "mq_wf q"
        "mq_contents q = mq_contents (ws_message_queue c) @ [m]"
      using mq_push_ok [OF _ assms(2)] by blast
    have "ws_inv (c\<lparr>ws_message_queue := q\<rparr>)"
      using ws_queue_inv [OF r(1) q(2)] r(2) by blast
    then show ?thesis
      using True q assms(1) r(2)
      by (simp add: ws_send_task_def ws_ready_def ws_closed_def ws_inflight_def ws_waiting_def)
  next
    case False
    then have idle: "ws_count is_write_op c = 0" "ws_waiting c = []"
      using assms(1) by (simp_all add: ws_ready_def)
    let ?c = "c\<lparr>ws_is_writing := True\<rparr>"
    have c: "ws_inv ?c" "\<not> ws_closed ?c" "ws_waiting ?c = []" "ws_inflight c = []"
      using ws_idle_inv(2) [OF r(1) idle(1)] r(2) idle by (simp_all add: ws_closed_def ws_waiting_def ws_inflight_def)
    then show ?thesis
      using ws_write_started [of ?c m] False idle assms(2) r(2) by (auto simp: ws_send_task_def ws_closed_def)
  qed
qed

text \<open>The state between the completion of a write and the start of the next.\<close>

lemma ws_write_completed:
  assumes "ws_ready c" and "ws_inflight c \<noteq> []"
  obtains c0 where "ws_finished c = ws_on_write_message NoError c0"
    and "ws_inv (c0\<lparr>ws_message_outbound := Message\<rparr>)" "ws_count is_write_op c0 = 0" "\<not> ws_closed c0" "ws_is_writing c0"
    and "ws_waiting c0 = ws_waiting c"
proof -
  have r: "ws_inv c" "ws_base c" "\<not> ws_closed c" "ws_is_writing c"
    using assms by (auto simp: ws_ready_def ws_inv_def ws_inflight_def split: if_split_asm)
  obtain op ops where f: "filter is_write_op (ws_ops c) = op # ops"
    using assms(2) by (cases "filter is_write_op (ws_ops c)") (auto simp: ws_inflight_def ws_count_def)
  then have op: "op \<in> set (ws_ops c)" "is_write_op op"
    using filter_eq_ConsD [OF f] by auto
  have "op \<noteq> WsTimerWait MainTimer True"
    using op(2) by auto
  then have inv: "ws_inv (ws_complete op c)"
    using ws_base_complete(1) [OF r(2) op(1)] ws_armed_complete [of op c] r(1,3) by (auto simp: ws_inv_def)
  have idle: "ws_count is_write_op (ws_complete op c) = 0"
    using ws_base_complete(3) [OF r(2) op(1)] op(2) by simp
  show ?thesis
  proof (rule that)
    show "ws_finished c = ws_on_write_message NoError (ws_complete op c)"
      by (simp add: ws_finished_def f)
    show "ws_waiting (ws_complete op c) = ws_waiting c" "ws_is_writing (ws_complete op c)"
      using r(4) by (simp_all add: ws_waiting_def ws_complete_def)
  qed (use idle r(3) ws_idle_inv(1) [OF inv idle] in simp_all)
qed

lemma ws_finished_ready:
  assumes "ws_ready c" and "ws_inflight c \<noteq> []"
  shows "\<exists>c'. ws_finished c = Inr c' \<and> ws_ready c' \<and> ws_inflight c' @ ws_waiting c' = ws_waiting c"
proof -
  obtain c0 where fin: "ws_finished c = ws_on_write_message NoError c0"
    and c0: "ws_inv (c0\<lparr>ws_message_outbound := Message\<rparr>)" "ws_count is_write_op c0 = 0" "\<not> ws_closed c0" "ws_is_writing c0"
      "ws_waiting c0 = ws_waiting c"
    using ws_write_completed [OF assms] by metis
  let ?c = "c0\<lparr>ws_message_outbound := Message\<rparr>"
  have c: "ws_inv ?c" "ws_count is_write_op ?c = 0" "\<not> ws_closed ?c" "ws_is_writing ?c" "ws_waiting ?c = ws_waiting c"
    using c0 by (simp_all add: ws_closed_def ws_waiting_def)
  have wf: "mq_wf (ws_message_queue ?c)"
    using c(1) by (simp add: ws_inv_def ws_base_def)
  show ?thesis
  proof (cases "ws_waiting c")
    case Nil
    then have "mq_contents (ws_message_queue ?c) = []"
      using c(5) by (simp add: ws_waiting_def)
    then have "ws_finished c = Inr (?c\<lparr>ws_is_writing := False\<rparr>)"
      using mq.pop_none [OF wf] by (simp add: fin ws_on_write_message_def)
    moreover have "ws_ready (?c\<lparr>ws_is_writing := False\<rparr>)"
      using ws_idle_inv(2) [OF c(1,2), of False] c(2,3,5) Nil by (simp add: ws_ready_def ws_closed_def ws_waiting_def)
    ultimately show ?thesis
      using Nil c(2,5) by (simp add: ws_inflight_def ws_waiting_def)
  next
    case (Cons m ms)
    then have q0: "mq_contents (ws_message_queue ?c) = m # ms"
      using c(5) by (simp add: ws_waiting_def)
    then obtain q where q: "mq_try_pop Message (ws_message_queue ?c) = Inr (True, m, q)" "mq_wf q" "mq_contents q = ms"
      using mq_pop_some [OF wf q0, of Message] by blast
    have m: "\<not> is_empty m"
      using mq.wf_good [OF wf, of m] q0 by simp
    let ?d = "?c\<lparr>ws_message_queue := q\<rparr>"
    have d: "ws_inv ?d" "\<not> ws_closed ?d" "ws_count is_write_op ?d = 0" "ws_is_writing ?d" "ws_waiting ?d = ms"
      using ws_queue_inv [OF c(1) q(2)] c(2-4) q(3) by (simp_all add: ws_closed_def ws_waiting_def)
    have "ws_finished c = ws_do_write_message m ?d"
      using q(1) by (simp add: fin ws_on_write_message_def)
    then show ?thesis
      using ws_write_started [OF d(1-4) m] d(5) Cons by auto
  qed
qed

interpretation ww: message_writer ws_send_task ws_finished ws_inflight ws_waiting ws_ready
proof unfold_locales
  fix s
  assume "ws_ready s"
  then show "length (ws_inflight s) \<le> 1"
    by (simp add: ws_inflight_def)
next
  fix s
  assume "ws_ready s" "ws_waiting s \<noteq> []"
  then show "ws_inflight s \<noteq> []"
    by (auto simp: ws_ready_def ws_inflight_def)
qed (fact ws_send_ready, fact ws_finished_ready)

lemma ws_wire_ready:
  assumes "ws_ready c"
  shows "ws_wire c = map ws_sent (ws_inflight c)"
proof (cases "filter is_write_op (ws_ops c)")
  case Nil
  then show ?thesis
    by (simp add: ws_wire_def ws_inflight_def ws_count_def)
next
  case (Cons op ops)
  have base: "ws_base c"
    using assms by (simp add: ws_ready_def ws_inv_def)
  then have "ops = []"
    using ws_baseD(3) [OF base] Cons by (simp add: ws_count_def split: if_split_asm)
  have op: "op \<in> set (ws_ops c)" "is_write_op op"
    using filter_eq_ConsD [OF Cons] by auto
  obtain d where d: "op = WsWrite d"
    using op(2) by (cases op) simp_all
  have "ws_op_ok (ws_message_outbound c) (ws_shutting_down c) op"
    using ws_baseD(4) [OF base] op(1) by (simp add: list_all_iff)
  then show ?thesis
    using Cons \<open>ops = []\<close> d by (simp add: ws_wire_def ws_inflight_def ws_count_def)
qed

section \<open>Closed connections\<close>

definition ws_writes :: "ws_connection \<Rightarrow> ws_op list" where
  "ws_writes c = filter is_write_op (ws_ops c)"

lemma filter_disarm: "filter is_write_op (map (disarm t) ops) = filter is_write_op ops"
proof (induction ops)
  case (Cons op ops)
  then show ?case
    by (cases op) simp_all
qed simp

lemma ws_writes_ops [simp]:
  "\<not> is_write_op op \<Longrightarrow> ws_writes (ws_start op c) = ws_writes c" "ws_writes (ws_cancel t c) = ws_writes c"
  "ws_writes (ws_set_timeout now d c) = ws_writes c" "ws_writes (ws_refresh_timeout g now c) = ws_writes c"
  "ws_writes (ws_abort c) = ws_writes c" "ws_writes (ws_shutdown c) = ws_writes c"
  "ws_writes (ws_process_message m c) = ws_writes c"
  "ws_writes (ws_handle_read_error ec c) = ws_writes c" "ws_writes (ws_handle_write_error ec c) = ws_writes c"
  by (simp_all add: ws_writes_def ws_start_def ws_cancel_def ws_set_timeout_def ws_refresh_timeout_def
      ws_process_message_def ws_abort_def ws_shutdown_def ws_handle_read_error_def ws_handle_write_error_def
      Let_def filter_disarm del: map_map)

lemma ws_writes_updates [simp]:
  "ws_writes (c\<lparr>ws_message_outbound := m\<rparr>) = ws_writes c" "ws_writes (c\<lparr>ws_is_writing := b\<rparr>) = ws_writes c"
  "ws_writes (c\<lparr>ws_message_queue := q\<rparr>) = ws_writes c" "ws_writes (c\<lparr>ws_read_buffer := buf\<rparr>) = ws_writes c"
  "ws_writes (c\<lparr>ws_request_upgrade := b\<rparr>) = ws_writes c" "ws_writes (c\<lparr>ws_responses := r\<rparr>) = ws_writes c"
  "ws_writes (c\<lparr>ws_stream := s\<rparr>) = ws_writes c" "ws_writes (c\<lparr>ws_socket_open := b, ws_dropped := b'\<rparr>) = ws_writes c"
  "ws_writes (ws_count_inbound n c) = ws_writes c"
  "ws_writes (c\<lparr>ws_rate_start := t, ws_rate_messages := k, ws_rate_bytes := w\<rparr>) = ws_writes c"
  by (simp_all add: ws_writes_def ws_count_inbound_def)

lemma ws_closed_ops [simp]:
  "ws_closed c \<Longrightarrow> ws_closed (ws_set_timeout now d c)" "ws_closed c \<Longrightarrow> ws_closed (ws_refresh_timeout g now c)"
  "ws_closed c \<Longrightarrow> ws_closed (ws_abort c)" "ws_closed c \<Longrightarrow> ws_closed (ws_shutdown c)"
  "ws_closed c \<Longrightarrow> ws_closed (ws_handle_read_error ec c)" "ws_closed c \<Longrightarrow> ws_closed (ws_handle_write_error ec c)"
  by (auto simp: ws_closed_def ws_start_def ws_cancel_def ws_set_timeout_def ws_refresh_timeout_def
      ws_abort_def ws_shutdown_def ws_handle_read_error_def ws_handle_write_error_def Let_def)

lemma ws_closed_updates [simp]:
  "ws_closed (c\<lparr>ws_message_outbound := m\<rparr>) = ws_closed c" "ws_closed (c\<lparr>ws_is_writing := b\<rparr>) = ws_closed c"
  "ws_closed (c\<lparr>ws_message_queue := q\<rparr>) = ws_closed c" "ws_closed (c\<lparr>ws_read_buffer := buf\<rparr>) = ws_closed c"
  "ws_closed (c\<lparr>ws_request_upgrade := b\<rparr>) = ws_closed c" "ws_closed (c\<lparr>ws_responses := r\<rparr>) = ws_closed c"
  "ws_closed (c\<lparr>ws_stream := s\<rparr>) = ws_closed c" "ws_closed (c\<lparr>ws_socket_open := b, ws_dropped := True\<rparr>)"
  "ws_closed (ws_count_inbound n c) = ws_closed c" "ws_closed (ws_process_message m c) = ws_closed c"
  "ws_closed (c\<lparr>ws_rate_start := t, ws_rate_messages := k, ws_rate_bytes := w\<rparr>) = ws_closed c"
  by (simp_all add: ws_closed_def ws_count_inbound_def ws_process_message_def)

lemma ws_check_rate_limit_closed:
  assumes "ws_check_rate_limit g now c = (kill, c')" and "ws_closed c"
  shows "ws_closed c' \<and> ws_writes c' = ws_writes c"
  using assms by (auto simp: ws_check_rate_limit_def split: if_split_asm)

lemma ws_on_read_closed:
  assumes "ws_closed c"
  shows "ws_closed (ws_on_read g now ec b data c) \<and> ws_writes (ws_on_read g now ec b data c) = ws_writes c"
proof -
  let ?c = "ws_count_inbound (length data) (c\<lparr>ws_read_buffer := ws_read_buffer c @ data\<rparr>)"
  obtain kill c1 where chk: "ws_check_rate_limit g now ?c = (kill, c1)"
    by (cases "ws_check_rate_limit g now ?c")
  have "ws_closed c1 \<and> ws_writes c1 = ws_writes c"
    using ws_check_rate_limit_closed [OF chk] assms by simp
  then show ?thesis
    using assms chk by (cases kill) (simp_all add: ws_on_read_def Let_def)
qed

lemma ws_handler_closed:
  assumes "ws_handler g now op out c = Inr c'" and "ws_closed c" and "mq_contents (ws_message_queue c) = []"
    and "mq_wf (ws_message_queue c)"
  shows "ws_closed c' \<and> ws_writes c' = ws_writes c"
proof (cases op)
  case (WsWrite d)
  then show ?thesis
    using assms by (auto simp: ws_on_write_message_def Let_def mq.pop_none split: if_split_asm)
next
  case (WsSendTask m)
  then show ?thesis
    using assms(1,2) by (auto simp: ws_send_task_def ws_closed_def)
next
  case WsRead
  then show ?thesis
    using assms(1,2) ws_on_read_closed by auto
qed (use assms(1,2) in \<open>auto simp: ws_on_ssl_handshake_def ws_on_read_request_def ws_on_ws_handshake_def
    ws_on_shutdown_def ws_on_timeout_def Let_def\<close>)

lemma ws_step_closed:
  assumes "ws_step g now c c'" and "ws_inv c" and "ws_closed c"
  shows "ws_closed c' \<and> set (ws_writes c') \<subseteq> set (ws_writes c)"
  using assms(1)
proof cases
  case (owner_sends m)
  then show ?thesis
    using assms(3) by (simp add: ws_send_message_def)
next
  case (op_completes op out)
  have q: "mq_contents (ws_message_queue c) = []" "mq_wf (ws_message_queue c)"
    using assms(2,3) by (auto simp: ws_inv_def ws_base_def)
  have "ws_closed c' \<and> ws_writes c' = ws_writes (ws_complete op c)"
    using ws_handler_closed [OF op_completes(3)] assms(3) q by (simp add: ws_complete_def ws_closed_def)
  moreover have "set (ws_writes (ws_complete op c)) \<subseteq> set (ws_writes c)"
    using set_remove1_subset [of op "ws_ops c"] by (auto simp: ws_writes_def ws_complete_def)
  ultimately show ?thesis
    by simp
qed

lemma ws_steps_closed:
  "ws_steps ts c c' \<Longrightarrow> ws_inv c \<Longrightarrow> ws_closed c \<Longrightarrow> ws_closed c' \<and> set (ws_writes c') \<subseteq> set (ws_writes c)"
proof (induction rule: ws_steps.induct)
  case (more_steps g now c c1 ts c')
  then show ?case
    using ws_step_closed [OF more_steps.hyps(1)] ws_step_inv [OF more_steps.hyps(1)] by blast
qed simp

section \<open>Scripted runs\<close>

text \<open>A run given by the operations that complete and their outcomes.\<close>

fun ws_exec :: "(front_globals \<times> time \<times> ws_op \<times> ws_outcome) list \<Rightarrow> ws_connection \<Rightarrow> ws_connection option" where
  "ws_exec [] c = Some c"
| "ws_exec ((g, now, op, out) # es) c =
     (if op \<in> set (ws_ops c) \<and> ws_possible op out
      then case ws_handler g now op out (ws_complete op c) of Inl e \<Rightarrow> None | Inr c' \<Rightarrow> ws_exec es c'
      else None)"

lemma ws_exec_steps: "ws_exec es c = Some c' \<Longrightarrow> ws_steps (map (\<lambda>(g, now, op, out). (g, now)) es) c c'"
proof (induction es c rule: ws_exec.induct)
  case (2 g now op out es c)
  then show ?case
    by (auto intro!: more_steps op_completes split: if_split_asm sum.split_asm)
qed (simp add: no_step)

definition fine :: "byte list \<Rightarrow> ws_outcome" where
  "fine data = \<lparr>wo_ec = NoError, wo_data = data, wo_flag = True, wo_active = 1\<rparr>"

definition ws_started :: ws_connection where
  "ws_started = ws_run default_globals 0
     (WsConnection \<lparr>binary = False, auto_fragment = True, read_message_max = 0\<rparr> 0 True 0)"

text \<open>From the start to the first read of a message.\<close>

definition setup_script :: "(front_globals \<times> time \<times> ws_op \<times> ws_outcome) list" where
  "setup_script = [(default_globals, 1, WsSslHandshake, fine []), (default_globals, 2, WsReadRequest, fine []),
     (default_globals, 3, WsAccept, fine [])]"

lemmas ws_script_defs = setup_script_def ws_started_def fine_def default_globals_def ws_run_def WsConnection_def
  ws_set_timeout_def ws_refresh_timeout_def ws_cancel_def ws_start_def ws_complete_def seconds_def
  ws_on_ssl_handshake_def ws_on_read_request_def ws_on_ws_handshake_def ws_on_read_def
  ws_check_rate_limit_def ws_count_inbound_def ws_process_message_def

lemma setup_example:
  "\<exists>c. ws_exec setup_script ws_started = Some c \<and> WsRead \<in> set (ws_ops c) \<and> \<not> ws_dropped c
     \<and> \<not> ws_shutting_down c \<and> ws_inbound c = [] \<and> ws_inflight c = [] \<and> ws_waiting c = [] \<and> \<not> ws_is_writing c
     \<and> (\<exists>c'. ws_exec [(default_globals, 4, WsRead, fine [5])] c = Some c' \<and> ws_inbound c' = [from_vector [5]])"
  by (simp add: ws_script_defs ws_inflight_def ws_waiting_def ws_count_def MessageQueue_def mq_contents_def)

section \<open>Properties\<close>

text \<open>
  C8. Inbound rate. However the messages of a client and the other events of its connection are
  timed, no more than twice the configured number of messages plus one are processed in any second:
  the limiter counts up to the limit, may restart the count once per second, and drops the
  connection at the first message over the limit otherwise.
\<close>

theorem ws_rate_limit:
  assumes "ws_steps ts0 (ws_run g0 now0 (WsConnection stream0 expiry0 True now0)) c" and "ws_steps ts c c'"
    and "0 \<le> L" and "\<forall>(g, now) \<in> set ts. rate_limit_messages g \<le> L \<and> a \<le> now \<and> now \<le> a + seconds 1"
  shows "int (length (ws_inbound c')) \<le> int (length (ws_inbound c)) + 2 * L + 1"
proof -
  have "ws_view (ws_run g0 now0 (WsConnection stream0 expiry0 True now0)) = (now0, 0, [])"
    by (simp add: ws_run_def) (simp add: ws_view_def WsConnection_def)
  then have "0 \<le> ws_rate_messages c"
    using ws_steps_count_nonneg [OF assms(1)] by (simp add: ws_view_def)
  moreover from this have "received c' + allowance L a c' \<le> received c + allowance L a c"
    using assms(4) by (intro ws_steps_allowance [OF assms(2,3)]) auto
  ultimately show ?thesis
    using assms(3) by (simp add: received_def allowance_def split: if_split_asm)
qed

theorem ws_rate_limit_witness:
  "\<exists>c c'. ws_exec setup_script ws_started = Some c
     \<and> ws_exec [(default_globals, 4, WsRead, fine [5])] c = Some c'
     \<and> ws_inbound c' = [from_vector [5]] \<and> int (length (ws_inbound c')) \<le> int (length (ws_inbound c)) + 2 * 100 + 1"
proof -
  obtain c c' where c: "ws_exec setup_script ws_started = Some c"
      "ws_exec [(default_globals, 4, WsRead, fine [5])] c = Some c'" "ws_inbound c' = [from_vector [5]]"
    using setup_example by blast
  have "int (length (ws_inbound c')) \<le> int (length (ws_inbound c)) + 2 * 100 + 1"
    by (rule ws_rate_limit [OF ws_exec_steps [OF c(1), unfolded ws_started_def] ws_exec_steps [OF c(2)], where a = 4])
      (simp_all add: default_globals_def seconds_def)
  with c show ?thesis
    by blast
qed

text \<open>
  C12. Timeouts. In every state a started connection can reach, whatever the owner sends and however
  operations complete, it is dropped, or an orderly shutdown has begun, or the inactivity timer is
  armed: an idle client is never kept waiting for without a limit.
\<close>

theorem ws_timeout_armed:
  assumes "ws_steps ts (ws_run g now (WsConnection stream0 expiry0 True now0)) c"
  shows "ws_dropped c \<or> ws_shutting_down c \<or> WsTimerWait MainTimer True \<in> set (ws_ops c)"
  using ws_steps_inv [OF assms ws_run_inv] by (simp add: ws_inv_def ws_closed_def ws_armed_def)

theorem ws_timeout_armed_witness:
  "\<exists>c. ws_exec setup_script ws_started = Some c \<and> WsTimerWait MainTimer True \<in> set (ws_ops c)"
proof -
  obtain c where c: "ws_exec setup_script ws_started = Some c" "\<not> ws_dropped c" "\<not> ws_shutting_down c"
    using setup_example by blast
  then show ?thesis
    using ws_timeout_armed [OF ws_exec_steps [OF c(1), unfolded ws_started_def]] by blast
qed

text \<open>
  C35. An orderly shutdown is not guarded: in every reachable open state, \<open>shutdown\<close> cancels both
  timers and starts the SSL shutdown, so that no timer is armed while it waits for the peer.
\<close>

theorem ws_shutdown_unguarded:
  assumes "ws_steps ts (ws_run g now (WsConnection stream0 expiry0 True now0)) c"
    and "\<not> ws_dropped c" and "\<not> ws_shutting_down c"
  shows "WsSslShutdown \<in> set (ws_ops (ws_shutdown c)) \<and> (\<forall>t. WsTimerWait t True \<notin> set (ws_ops (ws_shutdown c)))
    \<and> ws_socket_open (ws_shutdown c)"
proof -
  have "ws_socket_open c"
    using ws_steps_inv [OF assms(1) ws_run_inv] assms(2) by (simp add: ws_inv_def ws_base_def)
  then have "ws_ops (ws_shutdown c) = map (disarm StateTimer) (map (disarm MainTimer) (ws_ops c)) @ [WsSslShutdown]"
    "ws_socket_open (ws_shutdown c)"
    using assms(2,3) by (simp_all add: ws_shutdown_def Let_def ws_cancel_def)
  moreover have "disarm StateTimer (disarm MainTimer op) \<noteq> WsTimerWait t True" for op t
    by (cases op; cases t) auto
  ultimately show ?thesis
    by (auto simp: image_iff) metis
qed

theorem ws_shutdown_unguarded_witness:
  "\<exists>c. ws_exec setup_script ws_started = Some c \<and> WsSslShutdown \<in> set (ws_ops (ws_shutdown c))
     \<and> WsTimerWait MainTimer True \<notin> set (ws_ops (ws_shutdown c))"
proof -
  obtain c where c: "ws_exec setup_script ws_started = Some c" "\<not> ws_dropped c" "\<not> ws_shutting_down c"
    using setup_example by blast
  then show ?thesis
    using ws_shutdown_unguarded [OF ws_exec_steps [OF c(1), unfolded ws_started_def] c(2,3)] by blast
qed

text \<open>
  C16. No handler fails. In every state a started connection can reach, completing any outstanding
  operation with any possible outcome does not dereference a null message; at most one message write
  is in progress, and the memory given to it holds the payload of the outbound message.
\<close>

theorem ws_handlers_safe:
  assumes "ws_steps ts (ws_run g now (WsConnection stream0 expiry0 True now0)) c"
  shows "(\<forall>op out g' now'. op \<in> set (ws_ops c) \<and> ws_possible op out \<longrightarrow>
        (\<exists>c'. ws_handler g' now' op out (ws_complete op c) = Inr c'))
    \<and> length (filter is_write_op (ws_ops c)) \<le> 1
    \<and> (\<forall>d. WsWrite d \<in> set (ws_ops c) \<longrightarrow> d = ws_sent (ws_message_outbound c))"
proof (intro conjI allI impI)
  have inv: "ws_inv c"
    using ws_steps_inv [OF assms ws_run_inv] .
  then show "\<exists>c'. ws_handler g' now' op out (ws_complete op c) = Inr c'"
    if "op \<in> set (ws_ops c) \<and> ws_possible op out" for op out g' now'
    using ws_handler_inv [OF inv] that by blast
  have base: "ws_base c"
    using inv by (simp add: ws_inv_def)
  show "length (filter is_write_op (ws_ops c)) \<le> 1"
    using ws_baseD(3) [OF base] by (simp add: ws_count_def split: if_split_asm)
  show "d = ws_sent (ws_message_outbound c)" if "WsWrite d \<in> set (ws_ops c)" for d
    using ws_baseD(4) [OF base] that by (auto simp: list_all_iff dest: bspec)
qed

theorem ws_handlers_safe_witness:
  "\<exists>c. ws_exec setup_script ws_started = Some c
     \<and> (\<exists>c'. ws_handler default_globals 4 WsRead (fine [5]) (ws_complete WsRead c) = Inr c')"
proof -
  obtain c where c: "ws_exec setup_script ws_started = Some c" "WsRead \<in> set (ws_ops c)"
    using setup_example by blast
  have "\<exists>c'. ws_handler default_globals 4 WsRead (fine [5]) (ws_complete WsRead c) = Inr c'"
    using ws_handlers_safe [OF ws_exec_steps [OF c(1), unfolded ws_started_def], THEN conjunct1] c(2)
    by (metis ws_possible.simps(5))
  with c(1) show ?thesis
    by blast
qed

text \<open>
  C17. Outgoing order. On an open connection with nothing to write, for every interleaving of
  messages sent and writes completed, the payloads written to the websocket, with those in progress
  and queued, are the payloads of the messages sent, in order, one websocket message each.
\<close>

theorem ws_outbound_order:
  assumes "ws_ready c" and "ws_inflight c = []" and "list_all (\<lambda>m. \<not> is_empty m) (sent_messages es)"
    and "writer_run ws_send_task ws_finished ws_wire es c = Some r"
  shows "\<exists>writes c'. r = Inr (writes, c')
    \<and> writes @ map ws_sent (ws_inflight c' @ ws_waiting c') = map ws_sent (sent_messages es)"
proof -
  note run = ww.run_view [OF ws_wire_ready assms(1,3)]
  then obtain r' where r': "writer_run ws_send_task ws_finished ws_inflight es c = Some r'"
      "r = map_sum id (apfst (map ws_sent)) r'"
    using assms(4) by (cases "writer_run ws_send_task ws_finished ws_inflight es c") auto
  obtain ws c' where "r' = Inr (ws, c')" "ws @ ws_inflight c' @ ws_waiting c' = ws_inflight c @ ws_waiting c @ sent_messages es"
    using ww.run_in_order [OF assms(1,3) r'(1)] by blast
  then show ?thesis
    using r'(2) assms(2) ww.drained [OF assms(1,2)] by (auto simp flip: map_append)
qed

theorem ws_outbound_order_witness:
  "\<exists>c writes c'. ws_exec setup_script ws_started = Some c
     \<and> writer_run ws_send_task ws_finished ws_wire [Send (from_vector [5]), Send (from_vector [6, 7])] c
       = Some (Inr (writes, c'))
     \<and> writes @ map ws_sent (ws_inflight c' @ ws_waiting c') = [[5], [6, 7]]"
proof -
  let ?es = "[Send (from_vector [5]), Send (from_vector [6, 7])]"
  obtain c where c: "ws_exec setup_script ws_started = Some c" "\<not> ws_dropped c" "\<not> ws_shutting_down c"
      "ws_inflight c = []" "ws_waiting c = []" "\<not> ws_is_writing c"
    using setup_example by blast
  have "ws_inv c"
    using ws_steps_inv [OF ws_exec_steps [OF c(1), unfolded ws_started_def] ws_run_inv] .
  then have ready: "ws_ready c"
    using c(2-6) by (simp add: ws_ready_def ws_closed_def ws_inflight_def split: if_split_asm)
  have "\<exists>r. writer_run ws_send_task ws_finished ws_wire ?es c = Some r"
    using c(2,3,6) by (simp add: ws_send_task_def ws_do_write_message_eq mq_push_def message_size_some)
  then obtain r where "writer_run ws_send_task ws_finished ws_wire ?es c = Some r"
    by blast
  moreover from this obtain writes c' where "r = Inr (writes, c')"
      "writes @ map ws_sent (ws_inflight c' @ ws_waiting c') = map ws_sent (sent_messages ?es)"
    using ws_outbound_order [OF ready c(4), of ?es r] by auto
  ultimately show ?thesis
    using c(1) by (auto simp: ws_sent_def)
qed

text \<open>
  C36. The write flag is not set during setup: a message sent right after \<open>run\<close> starts a websocket
  write while the SSL handshake is still outstanding, on a stream that was not upgraded.
\<close>

theorem ws_write_before_upgrade:
  assumes "\<not> is_empty m" and "c = ws_run g now (WsConnection stream0 expiry0 True now0)"
  shows "\<exists>c'. ws_send_task m c = Inr c' \<and> WsSslHandshake \<in> set (ws_ops c') \<and> WsWrite (ws_sent m) \<in> set (ws_ops c')"
proof -
  have "\<not> ws_dropped c" "\<not> ws_shutting_down c" "\<not> ws_is_writing c" "WsSslHandshake \<in> set (ws_ops c)"
    by (simp_all add: assms(2) ws_run_def ws_set_timeout_def Let_def ws_start_def ws_cancel_def WsConnection_def)
  then show ?thesis
    by (simp add: ws_send_task_def ws_do_write_message_eq [OF assms(1)])
qed

theorem ws_write_before_upgrade_witness:
  "\<exists>c'. ws_send_task (from_vector [5]) ws_started = Inr c' \<and> WsSslHandshake \<in> set (ws_ops c')
     \<and> WsWrite [5] \<in> set (ws_ops c')"
  using ws_write_before_upgrade [OF _ ws_started_def, of "from_vector [5]"] by (simp add: ws_sent_def)

text \<open>
  C27. A closed connection stays closed and quiet: once a started connection was dropped or began an
  orderly shutdown, no later step reopens it, queues a message or starts a message write.
\<close>

theorem ws_closed_stays_quiet:
  assumes "ws_steps ts0 (ws_run g now (WsConnection stream0 expiry0 True now0)) c"
    and "ws_dropped c \<or> ws_shutting_down c" and "ws_steps ts c c'"
  shows "(ws_dropped c' \<or> ws_shutting_down c') \<and> get_message_count (ws_message_queue c') = 0
    \<and> set (filter is_write_op (ws_ops c')) \<subseteq> set (ws_ops c)"
proof -
  have inv: "ws_inv c" "ws_inv c'"
    using ws_steps_inv [OF assms(1) ws_run_inv] ws_steps_inv [OF assms(3)] by simp_all
  then have "ws_closed c' \<and> set (ws_writes c') \<subseteq> set (ws_writes c)"
    using ws_steps_closed [OF assms(3)] assms(2) by (simp add: ws_closed_def)
  then show ?thesis
    using inv(2) by (auto simp: ws_writes_def ws_inv_def ws_base_def get_message_count_def mq_contents_Nil)
      (simp_all add: ws_closed_def)
qed

theorem ws_closed_stays_quiet_witness:
  "\<exists>c. ws_exec [(default_globals, 1, WsSslHandshake, (fine [])\<lparr>wo_ec := Eof\<rparr>)] ws_started = Some c
     \<and> (let c' = ws_send_message (from_vector [5]) c
        in (ws_dropped c' \<or> ws_shutting_down c') \<and> get_message_count (ws_message_queue c') = 0)"
proof -
  have "\<exists>c. ws_exec [(default_globals, 1, WsSslHandshake, (fine [])\<lparr>wo_ec := Eof\<rparr>)] ws_started = Some c \<and> ws_dropped c"
    by (simp add: ws_script_defs ws_abort_def)
  then obtain c where c: "ws_exec [(default_globals, 1, WsSslHandshake, (fine [])\<lparr>wo_ec := Eof\<rparr>)] ws_started = Some c"
      "ws_dropped c"
    by blast
  have "ws_steps [(default_globals, 2)] c (ws_send_message (from_vector [5]) c)"
    by (rule more_steps [OF owner_sends no_step])
  from ws_closed_stays_quiet [OF ws_exec_steps [OF c(1), unfolded ws_started_def] _ this] c show ?thesis
    unfolding Let_def by blast
qed

end
