(* ===== verification/FrontSystem.thy ===== *)
theory FrontSystem
  imports AcceptorProps WsProps
begin

text \<open>
  The clients of a front server as a whole: the acceptors, the connections they made and the number
  \<open>active_connection_count\<close> that both use. A connection is kept alive by the handlers of its
  outstanding operations, each of which holds a shared pointer to it; when none is left the
  destructor \<open>~WsConnection\<close> runs, which \<open>connection_destroyed\<close> models. The number is exact, and a
  connection that was dropped is destroyed after a bounded number of completions.
\<close>

section \<open>System\<close>

record ('a, 'c) front_world =
  fw_active :: int
  fw_acceptors :: "('a, 'c) ws_acceptor list"
  fw_connections :: "ws_connection list"

definition add_client :: "ws_connection option \<Rightarrow> ws_connection list \<Rightarrow> ws_connection list" where
  "add_client client cs = (case client of None \<Rightarrow> cs | Some c \<Rightarrow> cs @ [c])"

definition without :: "nat \<Rightarrow> 'x list \<Rightarrow> 'x list" where
  "without j xs = take j xs @ drop (Suc j) xs"

inductive fw_step ::
    "('t, 'a, 'e, 'c) library \<Rightarrow> front_globals \<Rightarrow> (time \<Rightarrow> ws_connection)
     \<Rightarrow> ('a, 'c) front_world \<Rightarrow> ('a, 'c) front_world \<Rightarrow> bool" for lib g new where
  acceptor_completes: "i < length (fw_acceptors s) \<Longrightarrow> w = fw_acceptors s ! i \<Longrightarrow> op \<in> set (wa_ops w) \<Longrightarrow>
    wa_handler lib cs g new (fw_active s) op out (wa_complete op w) = Inr (active', client, w') \<Longrightarrow>
    fw_step lib g new s \<lparr>fw_active = active', fw_acceptors = (fw_acceptors s)[i := w'],
      fw_connections = add_client client (fw_connections s)\<rparr>"
| connection_completes: "j < length (fw_connections s) \<Longrightarrow> c = fw_connections s ! j \<Longrightarrow> op \<in> set (ws_ops c) \<Longrightarrow>
    ws_possible op out \<Longrightarrow> wo_active out = fw_active s \<Longrightarrow> ws_handler g now op out (ws_complete op c) = Inr c' \<Longrightarrow>
    fw_step lib g new s (s\<lparr>fw_connections := (fw_connections s)[j := c']\<rparr>)"
| message_sent: "j < length (fw_connections s) \<Longrightarrow>
    fw_step lib g new s (s\<lparr>fw_connections := (fw_connections s)[j := ws_send_message m (fw_connections s ! j)]\<rparr>)"
| connection_destroyed: "j < length (fw_connections s) \<Longrightarrow> ws_ops (fw_connections s ! j) = [] \<Longrightarrow>
    fw_step lib g new s (s\<lparr>fw_active := WsConnection_destructor (fw_active s),
      fw_connections := without j (fw_connections s)\<rparr>)"

section \<open>The number of active connections\<close>

definition fs_view :: "('a, 'c) front_world \<Rightarrow> ('a, 'c) front_system" where
  "fs_view s = \<lparr>fs_active = fw_active s, fs_acceptors = fw_acceptors s\<rparr>"

lemma wa_handler_counts:
  assumes "wa_handler lib cs g new active op out w = Inr (active', client, w')"
  shows "active' = active + (case client of None \<Rightarrow> 0 | Some c \<Rightarrow> 1)"
    and "client = Some c \<Longrightarrow> c = ws_run g (ao_now out) (new (ao_now out))"
  using assms
  by (cases "(lib, cs, g, new, active, op, out, w)" rule: wa_handler.cases;
      auto simp: wa_on_accept_def Let_def ebind_eq_Inr split: if_split_asm)+

lemma length_without: "j < length xs \<Longrightarrow> length (without j xs) = length xs - 1"
  by (simp add: without_def)

lemma set_without: "set (without j xs) \<subseteq> set xs"
  using set_take_subset [of j xs] set_drop_subset [of "Suc j" xs] by (auto simp: without_def)

text \<open>The counter is the number of live connections, and each of them satisfies its invariant.\<close>

definition fw_inv :: "('a, 'c) front_world \<Rightarrow> bool" where
  "fw_inv s \<longleftrightarrow> fw_active s = int (length (fw_connections s)) \<and> (\<forall>c \<in> set (fw_connections s). ws_inv c)"

lemma fw_inv_update:
  assumes "fw_inv s" and "j < length (fw_connections s)" and "ws_inv c"
  shows "fw_inv (s\<lparr>fw_connections := (fw_connections s)[j := c]\<rparr>)"
  using assms set_update_subset_insert [of "fw_connections s" j c] by (auto simp: fw_inv_def)

lemma fw_step_inv:
  assumes "fw_step lib g (WsConnection st e True) s s'" and "fw_inv s"
  shows "fw_inv s'"
  using assms(1)
proof cases
  case (acceptor_completes i w op cs out active' client w')
  show ?thesis
  proof (cases client)
    case None
    then show ?thesis
      using acceptor_completes(1) wa_handler_counts(1) [OF acceptor_completes(5)] assms(2)
      by (simp add: fw_inv_def add_client_def)
  next
    case (Some c)
    then have "ws_inv c"
      using wa_handler_counts(2) [OF acceptor_completes(5)] ws_run_inv by simp
    then show ?thesis
      using Some acceptor_completes(1) wa_handler_counts(1) [OF acceptor_completes(5)] assms(2)
      by (simp add: fw_inv_def add_client_def)
  qed
next
  case (connection_completes j c op out now c')
  have "ws_inv c"
    using connection_completes(2,3) assms(2) by (simp add: fw_inv_def)
  then have "ws_inv c'"
    using ws_handler_inv [OF _ connection_completes(4,5), of g now] connection_completes(7) by auto
  then show ?thesis
    using connection_completes(1,2) fw_inv_update [OF assms(2)] by simp
next
  case (message_sent j m)
  then have "ws_inv (ws_send_message m (fw_connections s ! j))"
    using assms(2) by (intro ws_send_message_inv) (simp add: fw_inv_def)
  then show ?thesis
    using message_sent fw_inv_update [OF assms(2)] by simp
next
  case (connection_destroyed j)
  then show ?thesis
    using assms(2) length_without [OF connection_destroyed(2)] set_without [of j "fw_connections s"]
    by (auto simp: fw_inv_def WsConnection_destructor_def)
qed

interpretation world: preserved "fw_step lib g (WsConnection st e True)" fw_inv for lib g st e
  by unfold_locales (rule fw_step_inv)

text \<open>The acceptors and the counter behave as in the system where connections end at any time.\<close>

lemma fw_step_view:
  assumes "fw_step lib g new s s'" and "fw_inv s"
  shows "(fs_step lib g new)\<^sup>*\<^sup>* (fs_view s) (fs_view s')"
  using assms(1)
proof cases
  case (acceptor_completes i w op cs out active' client w')
  have "fs_step lib g new (fs_view s) \<lparr>fs_active = active', fs_acceptors = (fs_acceptors (fs_view s))[i := w']\<rparr>"
    using acceptor_completes(2-5) by (intro acceptor_event) (simp_all add: fs_view_def)
  then show ?thesis
    using acceptor_completes(1) by (auto simp: fs_view_def)
next
  case (connection_destroyed j)
  then have "0 < fs_active (fs_view s)"
    using assms(2) by (cases "fw_connections s") (simp_all add: fs_view_def fw_inv_def)
  from connection_ends [OF this] show ?thesis
    using connection_destroyed(1) by (auto simp: fs_view_def WsConnection_destructor_def)
qed (simp_all add: fs_view_def)

lemma fw_steps_view:
  assumes "(fw_step lib g (WsConnection st e True))\<^sup>*\<^sup>* s s'" and "fw_inv s"
  shows "(fs_step lib g (WsConnection st e True))\<^sup>*\<^sup>* (fs_view s) (fs_view s')"
  using assms(1)
proof (induction rule: rtranclp_induct)
  case (step t u)
  then show ?case
    using fw_step_view [OF step.hyps(2) world.steps_inv [OF step.hyps(1) assms(2)]] by (auto intro: rtranclp_trans)
qed simp

section \<open>Dropped connections\<close>

text \<open>How many completions an outstanding operation of a dropped connection can still cause.\<close>

fun op_weight :: "ws_op \<Rightarrow> nat" where
  "op_weight WsSslHandshake = 3"
| "op_weight WsReadRequest = 2"
| "op_weight op = 1"

definition ws_weight :: "ws_connection \<Rightarrow> nat" where
  "ws_weight c = sum_list (map op_weight (ws_ops c))"

lemma ws_weight_start [simp]: "ws_weight (ws_start op c) = ws_weight c + op_weight op"
  by (simp add: ws_weight_def ws_start_def)

lemma op_weight_disarm [simp]: "op_weight (disarm t op) = op_weight op"
  by (cases op) simp_all

lemma ws_weight_cancel [simp]: "ws_weight (ws_cancel t c) = ws_weight c"
  by (simp add: ws_weight_def ws_cancel_def comp_def)

lemma ws_weight_updates [simp]:
  "ws_weight (c\<lparr>ws_read_buffer := b\<rparr>) = ws_weight c" "ws_weight (c\<lparr>ws_request_upgrade := u\<rparr>) = ws_weight c"
  "ws_weight (c\<lparr>ws_responses := r\<rparr>) = ws_weight c" "ws_weight (c\<lparr>ws_timer_expiry := t\<rparr>) = ws_weight c"
  "ws_weight (c\<lparr>ws_message_outbound := m\<rparr>) = ws_weight c" "ws_weight (c\<lparr>ws_message_queue := q\<rparr>) = ws_weight c"
  "ws_weight (c\<lparr>ws_is_writing := w\<rparr>) = ws_weight c" "ws_weight (ws_process_message m c) = ws_weight c"
  "ws_weight (ws_count_inbound n c) = ws_weight c"
  "ws_weight (c\<lparr>ws_rate_start := t, ws_rate_messages := k, ws_rate_bytes := w'\<rparr>) = ws_weight c"
  by (simp_all add: ws_weight_def ws_process_message_def ws_count_inbound_def)

lemma ws_weight_complete:
  assumes "op \<in> set (ws_ops c)"
  shows "ws_weight (ws_complete op c) + op_weight op = ws_weight c"
  using assms sum_list_map_remove1 [of op "ws_ops c" op_weight] by (simp add: ws_weight_def ws_complete_def)

lemma ws_weight_length: "length (ws_ops c) \<le> ws_weight c" "ws_weight c \<le> length (ws_ops c) + 2 * ws_count is_chain_op c"
proof -
  have one: "1 \<le> op_weight op" "op_weight op \<le> 1 + 2 * (if is_chain_op op then 1 else 0)" for op
    by (cases op; simp)+
  have "length ops \<le> sum_list (map op_weight ops)
      \<and> sum_list (map op_weight ops) \<le> length ops + 2 * length (filter is_chain_op ops)" for ops
  proof (induction ops)
    case (Cons op ops)
    then show ?case
      using one [of op] by (cases "is_chain_op op") auto
  qed simp
  then show "length (ws_ops c) \<le> ws_weight c" "ws_weight c \<le> length (ws_ops c) + 2 * ws_count is_chain_op c"
    by (simp_all add: ws_weight_def ws_count_def)
qed

text \<open>On a dropped connection only a read that succeeds starts anything that did not follow anyway.\<close>

lemma ws_dropped_ignored [simp]:
  "ws_dropped c \<Longrightarrow> ws_abort c = c" "ws_dropped c \<Longrightarrow> ws_shutdown c = c"
  "ws_dropped c \<Longrightarrow> ws_handle_read_error ec c = c" "ws_dropped c \<Longrightarrow> ws_handle_write_error ec c = c"
  by (simp_all add: ws_abort_def ws_shutdown_def ws_handle_read_error_def ws_handle_write_error_def)

lemma ws_on_read_dropped:
  assumes "ws_dropped c"
  shows "ws_dropped (ws_on_read g now ec b data c)
    \<and> ws_weight (ws_on_read g now ec b data c) \<le> ws_weight c + (if ec = NoError then 2 else 0)"
proof (cases "ec = NoError")
  case True
  let ?c = "ws_count_inbound (length data) (c\<lparr>ws_read_buffer := ws_read_buffer c @ data\<rparr>)"
  obtain kill c1 where chk: "ws_check_rate_limit g now ?c = (kill, c1)"
    by (cases "ws_check_rate_limit g now ?c")
  have d: "ws_dropped ?c"
    using assms by (simp add: ws_count_inbound_def)
  have c1: "ws_dropped c1" "ws_weight c1 = ws_weight c"
    using chk d by (auto simp: ws_check_rate_limit_def split: if_split_asm)
  have r: "ws_weight (ws_refresh_timeout g now c2) \<le> ws_weight c2 + 1" "ws_dropped (ws_refresh_timeout g now c2) = ws_dropped c2" for c2
    by (simp_all add: ws_refresh_timeout_def ws_set_timeout_def Let_def)
  have "ws_weight (ws_refresh_timeout g now (ws_start WsRead (c1\<lparr>ws_read_buffer := buf\<rparr>))) \<le> ws_weight c + 2" for buf
    using r(1) [of "ws_start WsRead (c1\<lparr>ws_read_buffer := buf\<rparr>)"] c1(2) by simp
  moreover have "ws_weight (ws_refresh_timeout g now (ws_start WsRead c2)) \<le> ws_weight c2 + 2" for c2
    using r(1) [of "ws_start WsRead c2"] by simp
  moreover have "ws_dropped (ws_process_message m c2) = ws_dropped c2" for m c2
    by (simp add: ws_process_message_def)
  ultimately show ?thesis
    using c1 chk True r(2) by (cases kill) (simp_all add: ws_on_read_def Let_def order_trans)
qed (use assms in \<open>simp add: ws_on_read_def\<close>)

lemma ws_handler_dropped:
  assumes "ws_inv c" and "ws_dropped c" and "op \<in> set (ws_ops c)"
    and "ws_handler g now op out (ws_complete op c) = Inr c'"
  shows "ws_dropped c' \<and> Suc (ws_weight c') \<le> ws_weight c + (if op = WsRead \<and> wo_ec out = NoError then 2 else 0)"
proof -
  let ?c = "ws_complete op c"
  have d: "ws_dropped ?c"
    using assms(2) by (simp add: ws_complete_def)
  have q: "mq_contents (ws_message_queue ?c) = []" "mq_wf (ws_message_queue ?c)"
    using assms(1,2) by (simp_all add: ws_complete_def ws_inv_def ws_base_def ws_closed_def)
  have w: "ws_weight c = ws_weight ?c + op_weight op"
    using ws_weight_complete [OF assms(3)] by simp
  show ?thesis
  proof (cases op)
    case WsRead
    then show ?thesis
      using ws_on_read_dropped [OF d, of g now "wo_ec out" "wo_flag out" "wo_data out"] assms(4) w by auto
  next
    case (WsWrite b)
    then show ?thesis
      using assms(4) d q w by (auto simp: ws_on_write_message_def Let_def mq.pop_none split: if_split_asm)
  next
    case (WsSendTask m)
    then show ?thesis
      using assms(4) d w by (auto simp: ws_send_task_def)
  qed (use assms(4) d w in \<open>auto simp: ws_on_ssl_handshake_def ws_on_read_request_def ws_on_ws_handshake_def
      ws_on_shutdown_def ws_on_timeout_def Let_def\<close>)
qed

definition good_reads :: "(front_globals \<times> time \<times> ws_op \<times> ws_outcome) list \<Rightarrow> nat" where
  "good_reads es = length (filter (\<lambda>(g, now, op, out). op = WsRead \<and> wo_ec out = NoError) es)"

lemma ws_exec_append: "ws_exec (es @ es') c = Option.bind (ws_exec es c) (ws_exec es')"
  by (induction es c rule: ws_exec.induct) (auto split: sum.split)

lemma ws_exec_dropped:
  assumes "ws_exec es c = Some c'" and "ws_inv c" and "ws_dropped c"
  shows "ws_inv c' \<and> ws_dropped c' \<and> length es + ws_weight c' \<le> ws_weight c + 2 * good_reads es"
  using assms
proof (induction es arbitrary: c)
  case (Cons x es)
  obtain g now op out where x: "x = (g, now, op, out)"
    by (cases x)
  then obtain c1 where op: "op \<in> set (ws_ops c)" "ws_possible op out"
    and c1: "ws_handler g now op out (ws_complete op c) = Inr c1" "ws_exec es c1 = Some c'"
    using Cons.prems(1) by (auto split: if_split_asm sum.split_asm)
  have "ws_inv c1"
    using ws_handler_inv [OF Cons.prems(2) op, of g now] c1(1) by auto
  then show ?case
    using Cons.IH [OF c1(2)] ws_handler_dropped [OF Cons.prems(2,3) op(1) c1(1)]
    by (auto simp: x good_reads_def split: if_split_asm)
qed (simp add: good_reads_def)

text \<open>
  Every outstanding operation of a dropped connection can complete, with an error unless it is the
  wait of a timer that is still armed, and so they run out.
\<close>

definition failing :: "int \<Rightarrow> ws_op \<Rightarrow> ws_outcome" where
  "failing active op =
     \<lparr>wo_ec = (if op \<in> {WsTimerWait MainTimer True, WsTimerWait StateTimer True} then NoError else OperationAborted),
      wo_data = [], wo_flag = False, wo_active = active\<rparr>"

lemma failing_possible: "ws_possible op (failing active op)" "op = WsRead \<Longrightarrow> wo_ec (failing active op) \<noteq> NoError"
proof -
  show "ws_possible op (failing active op)"
  proof (cases op)
    case (WsTimerWait t armed)
    then show ?thesis
      by (cases t; cases armed) (simp_all add: failing_def)
  qed simp_all
qed (simp add: failing_def)

lemma without_update: "without j (xs[j := x]) = without j xs"
  by (simp add: without_def)

lemma fw_drain:
  assumes "j < length (fw_connections s)" and "ws_inv (fw_connections s ! j)" and "ws_dropped (fw_connections s ! j)"
  shows "\<exists>c'. (fw_step lib g new)\<^sup>*\<^sup>* s (s\<lparr>fw_connections := (fw_connections s)[j := c']\<rparr>) \<and> ws_ops c' = []"
  using assms
proof (induction "ws_weight (fw_connections s ! j)" arbitrary: s rule: less_induct)
  case less
  let ?c = "fw_connections s ! j"
  show ?case
  proof (cases "ws_ops ?c")
    case Nil
    then show ?thesis
      by (intro exI [of _ ?c]) simp
  next
    case (Cons op ops)
    let ?out = "failing (fw_active s) op"
    have op: "op \<in> set (ws_ops ?c)"
      using Cons by simp
    obtain c1 where c1: "ws_handler g 0 op ?out (ws_complete op ?c) = Inr c1" "ws_inv c1"
      using ws_handler_inv [OF less.prems(2) op failing_possible(1)] by blast
    let ?s1 = "s\<lparr>fw_connections := (fw_connections s)[j := c1]\<rparr>"
    have step: "fw_step lib g new s ?s1"
      using less.prems(1) op c1(1) failing_possible(1)
      by (intro connection_completes [OF _ refl]) (simp_all add: failing_def)
    have "ws_dropped c1" "ws_weight c1 < ws_weight ?c"
      using ws_handler_dropped [OF less.prems(2,3) op c1(1)] failing_possible(2) by (auto split: if_split_asm)
    with less.hyps [of ?s1] less.prems(1) c1(2) obtain c' where
        "(fw_step lib g new)\<^sup>*\<^sup>* ?s1 (s\<lparr>fw_connections := (fw_connections s)[j := c']\<rparr>)" "ws_ops c' = []"
      by auto
    with step show ?thesis
      by (blast intro: converse_rtranclp_into_rtranclp)
  qed
qed

lemma fw_release:
  assumes "j < length (fw_connections s)" and "ws_inv (fw_connections s ! j)" and "ws_dropped (fw_connections s ! j)"
  shows "(fw_step lib g new)\<^sup>*\<^sup>* s
    (s\<lparr>fw_active := WsConnection_destructor (fw_active s), fw_connections := without j (fw_connections s)\<rparr>)"
proof -
  obtain c' where c': "(fw_step lib g new)\<^sup>*\<^sup>* s (s\<lparr>fw_connections := (fw_connections s)[j := c']\<rparr>)" "ws_ops c' = []"
    using fw_drain [OF assms] by blast
  from connection_destroyed [of j "s\<lparr>fw_connections := (fw_connections s)[j := c']\<rparr>" lib g new] assms(1) c'(2)
  have "fw_step lib g new (s\<lparr>fw_connections := (fw_connections s)[j := c']\<rparr>)
      (s\<lparr>fw_active := WsConnection_destructor (fw_active s), fw_connections := without j (fw_connections s)\<rparr>)"
    by (simp add: without_update)
  with c'(1) show ?thesis
    by (rule rtranclp.rtrancl_into_rtrancl)
qed

section \<open>Properties\<close>

lemma fw_inv_initial: "fw_inv \<lparr>fw_active = 0, fw_acceptors = ws, fw_connections = []\<rparr>"
  by (simp add: fw_inv_def)

text \<open>
  C9. The number of active connections is exact. However the events of the acceptors, of the
  connections and of their destruction interleave, the counter that the limits are checked against
  is the number of connections that exist, this number exceeds the hard limit by at most one for
  each acceptor but the first, and every connection is dropped, shutting down or guarded by its
  inactivity timer, with no outstanding operation whose completion would fail.
\<close>

theorem live_connections_exact:
  assumes "0 < connection_limit_hard g"
    and "\<forall>w \<in> set ws. \<exists>ctx a config cs. wa_run lib cs g 0 (WsAcceptor ctx a config) = Inr w"
    and "(fw_step lib g (WsConnection st e True))\<^sup>*\<^sup>* \<lparr>fw_active = 0, fw_acceptors = ws, fw_connections = []\<rparr> s"
  shows "fw_active s = int (length (fw_connections s))
    \<and> int (length (fw_connections s)) \<le> connection_limit_hard g + int (length ws) - 1
    \<and> (\<forall>c \<in> set (fw_connections s).
        (ws_dropped c \<or> ws_shutting_down c \<or> WsTimerWait MainTimer True \<in> set (ws_ops c))
        \<and> (\<forall>op out now. op \<in> set (ws_ops c) \<and> ws_possible op out \<longrightarrow>
             (\<exists>c'. ws_handler g now op out (ws_complete op c) = Inr c')))"
proof -
  have inv: "fw_inv s"
    by (rule world.steps_inv [OF assms(3) fw_inv_initial])
  have "(fs_step lib g (WsConnection st e True))\<^sup>*\<^sup>* \<lparr>fs_active = 0, fs_acceptors = ws\<rparr> (fs_view s)"
    using fw_steps_view [OF assms(3) fw_inv_initial] by (simp add: fs_view_def)
  from fs_active_bound [OF assms(1,2) this]
  have "fw_active s \<le> connection_limit_hard g + int (length ws) - 1"
    by (simp add: fs_view_def)
  moreover have "\<exists>c'. ws_handler g now op out (ws_complete op c) = Inr c'"
    if "c \<in> set (fw_connections s)" "op \<in> set (ws_ops c)" "ws_possible op out" for c op out now
    using ws_handler_inv [OF _ that(2,3), of g now] inv that(1) by (auto simp: fw_inv_def)
  ultimately show ?thesis
    using inv by (auto simp: fw_inv_def ws_inv_def ws_closed_def ws_armed_def)
qed

theorem live_connections_exact_witness:
  "\<exists>s. (fw_step example_library default_globals example_client)\<^sup>*\<^sup>*
      \<lparr>fw_active = 0, fw_acceptors = [example_acceptor], fw_connections = []\<rparr> s
    \<and> fw_connections s = [ws_run default_globals 7 (example_client 7)] \<and> fw_active s = 1
    \<and> WsTimerWait MainTimer True \<in> set (ws_ops (hd (fw_connections s)))"
proof -
  let ?s = "\<lparr>fw_active = 0, fw_acceptors = [example_acceptor], fw_connections = []\<rparr>"
  let ?c = "ws_run default_globals 7 (example_client 7)"
  let ?s' = "\<lparr>fw_active = 1, fw_acceptors = [example_acceptor], fw_connections = [?c]\<rparr>"
  have "fw_step example_library default_globals example_client ?s
      \<lparr>fw_active = 1, fw_acceptors = (fw_acceptors ?s)[0 := example_acceptor], fw_connections = add_client (Some ?c) (fw_connections ?s)\<rparr>"
    using example_accept by (intro acceptor_completes [of 0 ?s example_acceptor WaAccept _ "example_config False" _ _ example_accepted]) (simp_all del: wa_handler.simps)
  then have step: "(fw_step example_library default_globals example_client)\<^sup>*\<^sup>* ?s ?s'"
    by (auto simp: add_client_def)
  have "ws_dropped ?c \<or> ws_shutting_down ?c \<or> WsTimerWait MainTimer True \<in> set (ws_ops ?c)"
    using live_connections_exact [OF _ example_acceptors step [unfolded example_client_def]]
    by (simp add: default_globals_def example_client_def)
  moreover have "\<not> ws_dropped ?c" "\<not> ws_shutting_down ?c"
    by (simp_all add: example_client_def ws_script_defs)
  ultimately show ?thesis
    using step by (intro exI [of _ ?s']) simp
qed

text \<open>
  C18. A dropped connection is released. Once a connection of the front server was dropped, if at most
  \<open>n\<close> more of its reads succeed (the socket is closed: only messages already received can be
  read), then at most as many completions follow as it had operations outstanding, two more, and
  two for each of the \<open>n\<close>. It stays dropped, and every operation that is left can complete without
  failing, so they run out. Then its destructor runs: from the state where it was dropped
  the system reaches the one without that connection, in which the number of active connections is
  one less and again the number of connections that exist.
\<close>

theorem dropped_connection_released:
  assumes "(fw_step lib g (WsConnection st e True))\<^sup>*\<^sup>* \<lparr>fw_active = 0, fw_acceptors = ws, fw_connections = []\<rparr> s"
    and "j < length (fw_connections s)" and "c = fw_connections s ! j" and "ws_dropped c"
  shows "(\<forall>es c' n. ws_exec es c = Some c' \<and> good_reads es \<le> n \<longrightarrow>
        length es + length (ws_ops c') \<le> length (ws_ops c) + 2 + 2 * n \<and> ws_dropped c'
        \<and> (\<forall>op out g' now'. op \<in> set (ws_ops c') \<and> ws_possible op out \<longrightarrow>
             (\<exists>c''. ws_exec (es @ [(g', now', op, out)]) c = Some c'')))
    \<and> (fw_step lib g (WsConnection st e True))\<^sup>*\<^sup>* s
        (s\<lparr>fw_active := fw_active s - 1, fw_connections := without j (fw_connections s)\<rparr>)
    \<and> fw_active s - 1 = int (length (without j (fw_connections s)))"
proof -
  have world: "fw_inv s"
    by (rule world.steps_inv [OF assms(1) fw_inv_initial])
  then have inv: "ws_inv c"
    using assms(2,3) by (simp add: fw_inv_def)
  have "length es + length (ws_ops c') \<le> length (ws_ops c) + 2 + 2 * n \<and> ws_dropped c'
      \<and> (\<forall>op out g' now'. op \<in> set (ws_ops c') \<and> ws_possible op out \<longrightarrow>
           (\<exists>c''. ws_exec (es @ [(g', now', op, out)]) c = Some c''))"
    if run: "ws_exec es c = Some c'" and reads: "good_reads es \<le> n" for es c' n
  proof -
    have x: "ws_inv c'" "ws_dropped c'" "length es + ws_weight c' \<le> ws_weight c + 2 * good_reads es"
      using ws_exec_dropped [OF run inv assms(4)] by simp_all
    have "ws_weight c \<le> length (ws_ops c) + 2"
      using ws_weight_length(2) [of c] ws_baseD(2) [of c] inv by (simp add: ws_inv_def)
    with x(3) ws_weight_length(1) [of c'] reads have "length es + length (ws_ops c') \<le> length (ws_ops c) + 2 + 2 * n"
      by simp
    moreover have "\<exists>c''. ws_exec (es @ [(g', now', op, out)]) c = Some c''"
      if "op \<in> set (ws_ops c')" "ws_possible op out" for op out g' now'
      using ws_handler_inv [OF x(1) that, of g' now'] that by (auto simp: ws_exec_append run)
    ultimately show ?thesis
      using x(2) by blast
  qed
  moreover have "fw_active s - 1 = int (length (without j (fw_connections s)))"
    using world length_without [OF assms(2)] assms(2) by (simp add: fw_inv_def of_nat_diff)
  moreover have "(fw_step lib g (WsConnection st e True))\<^sup>*\<^sup>* s
      (s\<lparr>fw_active := fw_active s - 1, fw_connections := without j (fw_connections s)\<rparr>)"
    using fw_release [OF assms(2), of lib g "WsConnection st e True"] inv assms(3,4)
    by (simp add: WsConnection_destructor_def)
  ultimately show ?thesis
    by blast
qed

text \<open>A client that is accepted and disconnects during the TLS handshake.\<close>

theorem dropped_connection_released_witness:
  "\<exists>s c c'. (fw_step example_library default_globals example_client)\<^sup>*\<^sup>*
       \<lparr>fw_active = 0, fw_acceptors = [example_acceptor], fw_connections = []\<rparr> s
     \<and> fw_active s = 1 \<and> fw_connections s = [c] \<and> ws_dropped c
     \<and> ws_exec [(default_globals, 2, WsTimerWait MainTimer False, (fine [])\<lparr>wo_ec := OperationAborted\<rparr>)] c = Some c'
     \<and> ws_ops c' = [] \<and> ws_dropped c'
     \<and> (fw_step example_library default_globals example_client)\<^sup>*\<^sup>* s (s\<lparr>fw_active := 0, fw_connections := []\<rparr>)"
proof -
  let ?start = "\<lparr>fw_active = 0, fw_acceptors = [example_acceptor], fw_connections = []\<rparr>"
  let ?client = "ws_run default_globals 7 (example_client 7)"
  let ?mid = "\<lparr>fw_active = 1, fw_acceptors = [example_acceptor], fw_connections = [?client]\<rparr>"
  let ?eof = "(fine [])\<lparr>wo_ec := Eof\<rparr>"
  let ?es = "[(default_globals, 2, WsTimerWait MainTimer False, (fine [])\<lparr>wo_ec := OperationAborted\<rparr>)]"
  have "fw_step example_library default_globals example_client ?start
      \<lparr>fw_active = 1, fw_acceptors = (fw_acceptors ?start)[0 := example_acceptor], fw_connections = add_client (Some ?client) (fw_connections ?start)\<rparr>"
    using example_accept by (intro acceptor_completes [of 0 ?start example_acceptor WaAccept _ "example_config False" _ _ example_accepted])
      (simp_all del: wa_handler.simps)
  then have accepted: "(fw_step example_library default_globals example_client)\<^sup>*\<^sup>* ?start ?mid"
    by (auto simp: add_client_def)
  have ops: "WsSslHandshake \<in> set (ws_ops ?client)"
    by (simp add: example_client_def ws_script_defs)
  have "\<exists>c. ws_handler default_globals 8 WsSslHandshake ?eof (ws_complete WsSslHandshake ?client) = Inr c \<and> ws_dropped c
      \<and> (\<exists>c'. ws_exec ?es c = Some c' \<and> ws_ops c' = [])"
    by (simp add: example_client_def ws_script_defs ws_abort_def ws_on_timeout_def)
  then obtain c c' where c: "ws_handler default_globals 8 WsSslHandshake ?eof (ws_complete WsSslHandshake ?client) = Inr c"
      "ws_dropped c" "ws_exec ?es c = Some c'" "ws_ops c' = []"
    by blast
  let ?s = "\<lparr>fw_active = 1, fw_acceptors = [example_acceptor], fw_connections = [c]\<rparr>"
  have "fw_step example_library default_globals example_client ?mid (?mid\<lparr>fw_connections := (fw_connections ?mid)[0 := c]\<rparr>)"
    using ops c(1) by (intro connection_completes [OF _ refl, of 0 ?mid WsSslHandshake ?eof]) (simp_all add: fine_def)
  with accepted have reach: "(fw_step example_library default_globals example_client)\<^sup>*\<^sup>* ?start ?s"
    by (auto intro: rtranclp.rtrancl_into_rtrancl)
  have c_at: "0 < length (fw_connections ?s)" "c = fw_connections ?s ! 0"
    by simp_all
  note released = dropped_connection_released [OF reach [unfolded example_client_def] c_at c(2)]
  have "ws_dropped c'"
    using released c(3) by blast
  moreover have "(fw_step example_library default_globals example_client)\<^sup>*\<^sup>* ?s (?s\<lparr>fw_active := 0, fw_connections := []\<rparr>)"
    using released by (simp add: without_def example_client_def)
  ultimately show ?thesis
    using reach c by (intro exI [of _ ?s] exI [of _ c] exI [of _ c']) simp
qed

end
