(* ===== verification/Spec2Isabelle.thy ===== *)
theory Spec2Isabelle
  imports ClusterLink HappyNumber HappyProgram FrontProps FrontSystem
begin

text \<open>
  Verification of IAN: the front server with its cluster layer, and \<open>happy\<close>, the compiler of the
  interface language. Paths are relative to \<^verbatim>\<open>src/\<close>.

  \<^bold>\<open>The program.\<close> The front server (\<^verbatim>\<open>server/front\<close>) loads a configuration, creates asio contexts with worker
  threads, opens acceptors for websocket clients, and starts the cluster layer (\<^verbatim>\<open>server/common/src/cluster\<close>),
  which accepts and keeps up connections to other servers. A connection is an object whose handlers
  run one at a time on a strand: each completes one asynchronous operation and starts others.
  Messages to a peer pass through a queue. Signals stop the server or make it load its configuration
  again. \<open>happy\<close> (\<^verbatim>\<open>tools/happy\<close>) is a separate program: it parses a document from standard input and
  prints its tree.

  \<^bold>\<open>How code is modelled.\<close> A class is a record and its methods are functions on the record; a handler is
  the whole handler, with its early returns. Asynchronous operations that a handler starts are
  appended to a list in the record, and a step relation completes any of them, in any order and with
  any outcome. Failures the source can produce are values: \<open>Inl\<close> of a crash (a null message that is
  dereferenced), of an exception nothing catches, or of a parse error; \<open>None\<close> for a parser run that
  exceeds its fuel. Integers keep their width where it matters (lengths, counters, ports,
  \<open>size_t\<close>). Libraries the sources call (sockets, TLS contexts, the property tree, thread creation,
  the rounding of doubles, the reader behind the parser) are parameters, with what is relied on as
  named hypotheses: \<open>tcp_contract\<close>, \<open>stream_reader\<close>, \<open>accurate\<close>, \<open>endian_host\<close>.

  \<^bold>\<open>Theories.\<close>
  \<^item> \<open>IanPrelude\<close>: named collections, words, results that may fail, the locale \<open>preserved\<close> of invariants.
  \<^item> \<open>MessageQueue\<close> (\<^verbatim>\<open>Message.cpp\<close>, \<^verbatim>\<open>MessageQueue.cpp\<close>): messages as nullable payloads, the queue and its running
    total; the locale \<open>fifo_queue\<close> is its interface.
  \<^item> \<open>Connection\<close>: byte orders, error codes, and the locale \<open>message_writer\<close> shared by both kinds of
    connections: a writer that sends one message at a time keeps their order.
  \<^item> \<open>ClusterConnection\<close> (\<^verbatim>\<open>ClusterConnection.cpp\<close>): every handler. \<open>ClusterFraming\<close>: the reading loop refines
    a specification of length-prefixed frames. \<open>ClusterSafety\<close>: the invariant of the step relation.
    \<open>ClusterProps\<close>: delivery end to end, exclusive writes, safety of handlers, what a closed
    connection does, and two defects. \<open>ClusterLink\<close>: two connections and the link between them, with
    partial writes and failures at any time; the receiver has always processed a prefix of what the
    sender accepted, as long as payloads are shorter than \<open>2\<^sup>3\<^sup>2\<close> bytes (and not empty, to have all of
    it delivered). These results start after the handshake, since the SSL handshake of the current
    code fails (the first of the defects).
  \<^item> \<open>FrontGlobals\<close>, \<open>WsConnection\<close> (\<^verbatim>\<open>FrontGlobals.cpp\<close>, \<^verbatim>\<open>ws/WsConnection.cpp\<close>): settings and every handler of
    a client connection, with both timers and the rate limiter. \<open>WsSafety\<close>, \<open>WsProps\<close>: its invariant, the
    rate limit over any second, armed timeouts, order of messages, and two defects.
  \<^item> \<open>Config\<close> (\<^verbatim>\<open>config/\<close>): tree, groups, cached values in a store of objects, and the set of the addresses that
    are registered as listeners: every live value is registered and current. The locale \<open>cached_value\<close> is the contract
    of the three value classes. \<open>Ssl\<close> (\<^verbatim>\<open>Ssl.cpp\<close>): setup of a TLS context against a specification.
  \<^item> \<open>Acceptors\<close> (\<^verbatim>\<open>WsAcceptor.cpp\<close>, \<^verbatim>\<open>ClusterAcceptor.cpp\<close>, \<^verbatim>\<open>ClusterWatcher.cpp\<close>), \<open>AcceptorProps\<close>: the limit on
    connections over all interleavings, the watcher's single connection, what \<open>open\<close> does when a step
    of it fails, in every state an acceptor reaches.
  \<^item> \<open>FrontSystem\<close>: acceptors and client connections together, with the destructor of a connection that has
    no operation left: the counter of active connections is exact, and a dropped connection is released
    after a number of completions that depends only on how many of its reads still succeed.
  \<^item> \<open>AsioPool\<close> (\<^verbatim>\<open>AsioPool.cpp\<close>), \<open>Cluster\<close> (\<^verbatim>\<open>Cluster.cpp\<close>), \<open>FrontMain\<close> (\<^verbatim>\<open>Main.cpp\<close>): contexts and workers, the start
    of all components, the main loop as atomic steps with signals between any two of them.
    \<open>FrontProps\<close>: what is started for which configuration, settings and thread counts follow the
    configuration, why the server ends, when a stop signal ends it and when it is lost.
  \<^item> \<open>HappyAst\<close> (\<^verbatim>\<open>Ast.hpp\<close>, \<^verbatim>\<open>AstPrint.hpp\<close>), \<open>HappyStream\<close>, \<open>HappyLexer\<close>, \<open>HappyParser\<close> (\<^verbatim>\<open>Parser.cpp\<close>, \<^verbatim>\<open>Main.cpp\<close>), \<open>HappyNumber\<close>
    (\<^verbatim>\<open>parse_number\<close>): trees, printing, the buffered input, symbols, every rule of the grammar and the
    program.
  \<^item> \<open>HappyReader\<close> (the locale \<open>stream_reader\<close>, the contract of \<^verbatim>\<open>StreamReader::read\<close>), \<open>HappySegmentation\<close> (two
    readers with the same text give the same parse), \<open>HappyText\<close> and \<open>HappyTokens\<close> (the lexer as functions of
    the unread text), \<open>HappyFuel\<close> (fuel), \<open>HappyRoundtrip\<close> (reading back printed text), \<open>HappySound\<close> (parsed
    trees are well-formed), \<open>HappyProps\<close> (the properties on standard input).
  \<^item> \<open>HappyGrammar\<close>: tokens as a function of the text and the interface language as inductive relations between
    tokens and trees, the specification of the parser. \<open>HappyWp\<close>: weakest preconditions of parser
    functions over the unread text. \<open>HappyDerive\<close>: what the parser returns is derived by the grammar;
    \<open>HappyComplete\<close>: every document of the grammar is accepted with its tree. \<open>HappyPosition\<close>: which
    exceptions are thrown and where they say they are. \<open>HappyProgram\<close>: the program from standard input
    to its exit code and outputs, every outcome accounted for.

  \<^bold>\<open>Fuel.\<close> The loops and the recursion of the parser take fuel, one unit per turn. More fuel never changes a
  result, and two units more than the length of the text decide every parse: each turn consumes at
  least one character, apart from a constant number of looks ahead, except in the loop that reads a
  string literal, which never ends on an unterminated one; there \<open>None\<close> means that the program does
  not return. All other functions are total.

  \<^bold>\<open>Integers without bounds.\<close> A few integers of the source are unbounded here. The settings of \<open>front\<close> are 32-bit
  in the source; the model adds five seconds to the timeout and gives the maximal message size to the
  stream without the conversions, which differs at the largest values only. So does the count of
  messages of the rate limiter, which could overflow only with a limit of \<open>INT_MAX\<close>. Lines and columns
  of a position, and the length of a string literal, are \<open>int\<close> in the source and differ beyond two
  gigabytes of input; on an unterminated literal, where the model does not return, the program
  reads on until that length overflows or memory is exhausted.

  \<^bold>\<open>Histories.\<close> The bodies of \<open>process_message\<close> are empty in the source; in the model they record the message, so
  that the theorems can say what was processed. Nothing reads these lists. The lists of operations
  and of responses are histories of calls to libraries in the same sense. The constructor of a
  client connection counts it in \<open>WsConnection_constructor\<close>, applied where the acceptor makes one.

  \<^bold>\<open>Interleaving.\<close> Handlers of one connection are atomic because they run on its strand. Handlers of
  different acceptors can run on different threads; they are atomic here as well, and the bound on
  active connections does not depend on that, since each acceptor increments the counter at most once
  after each test of it. Reloading happens while no worker runs. A signal handler is atomic and runs
  between two steps of the main thread, as if on its own thread.

  \<^bold>\<open>Not modelled.\<close> Logging, thread names and the profiler (output only); what TLS, HTTP and websocket
  libraries do to the bytes they carry, beyond their outcomes (a cluster link carries bytes in order); the mutex of the listener set, each
  operation on it being atomic; lifetime by shared pointers, except that a client connection ends with
  the last of its operations and a watcher notices the end of its connection; \<^verbatim>\<open>client/Client\<close>, which
  has no operations; the programs \<^verbatim>\<open>game\<close>, \<^verbatim>\<open>master\<close> and \<^verbatim>\<open>node\<close>, which are empty; the browser client and the build scripts. What no definition stands for in the sources that are
  modelled is declarations, includes, namespaces and licence headers.
\<close>

end
